(* ===== verification/Prelude.thy ===== *)
theory Prelude
  imports Main "HOL-Library.Word" "HOL-Library.AList" "HOL-Library.Multiset" "HOL-Library.Product_Lexorder"
    "HOL-Library.List_Lexorder" "HOL-Library.Char_ord" "HOL-Library.Sublist"
begin

text \<open>
  Shared material of the development: the named collections of rewrite rules, the machine
  integers of the source (\<open>u64\<close>, \<open>usize\<close> and \<open>i64\<close> with their saturating operations), the
  result type of fallible code, and generic lemmas on lists, association lists and sorting
  that the component theories use.
\<close>

named_theorems limits
  \<comment> \<open>the numeric constants of the source, unfolded only on request\<close>
named_theorems run_simps
  \<comment> \<open>how the combinators of effectful code and the file-system calls evaluate\<close>

section \<open>Machine integers\<close>

text \<open>
  A \<open>u64\<close> or \<open>usize\<close> value is a natural number; every place of the source that can
  overflow uses a saturating operation, which is written out here. \<open>saturating_sub\<close> on
  unsigned values is subtraction on \<^typ>\<open>nat\<close>. An \<open>i64\<close> value is an integer.
\<close>

type_synonym u64 = nat
type_synonym usize = nat
type_synonym i64 = int

definition u64_max :: nat where
  [limits]: "u64_max = 18446744073709551615"

definition i64_max :: int where
  [limits]: "i64_max = 9223372036854775807"

definition i64_min :: int where
  [limits]: "i64_min = - 9223372036854775808"

definition sat_add :: "u64 \<Rightarrow> u64 \<Rightarrow> u64" where
  "sat_add a b = min (a + b) u64_max"

definition sat_add_i64 :: "i64 \<Rightarrow> i64 \<Rightarrow> i64" where
  "sat_add_i64 a b = max i64_min (min i64_max (a + b))"

definition sat_sub_i64 :: "i64 \<Rightarrow> i64 \<Rightarrow> i64" where
  "sat_sub_i64 a b = max i64_min (min i64_max (a - b))"

lemma u64_max_pow: "u64_max = 2 ^ 64 - 1"
  by (simp add: u64_max_def)

lemma sat_add_le_max [simp]: "sat_add a b \<le> u64_max"
  by (simp add: sat_add_def)

lemma sat_add_exact: "a + b \<le> u64_max \<Longrightarrow> sat_add a b = a + b"
  by (simp add: sat_add_def)

lemma sat_add_ge: "a \<le> u64_max \<Longrightarrow> a \<le> sat_add a b"
  by (simp add: sat_add_def)

lemma sat_add_mono: "a \<le> a' \<Longrightarrow> sat_add a b \<le> sat_add a' b"
  by (simp add: sat_add_def)

lemma sat_sub_i64_less:
  "i64_min < a \<Longrightarrow> a \<le> i64_max \<Longrightarrow> sat_sub_i64 a 1 = a - 1"
  by (simp add: sat_sub_i64_def i64_min_def i64_max_def)

lemma sat_add_i64_greater:
  "i64_min \<le> a \<Longrightarrow> a < i64_max \<Longrightarrow> sat_add_i64 a 1 = a + 1"
  by (simp add: sat_add_i64_def i64_min_def i64_max_def)

lemma sat_i64_bounds [simp]:
  "i64_min \<le> sat_add_i64 a b" "sat_add_i64 a b \<le> i64_max"
  "i64_min \<le> sat_sub_i64 a b" "sat_sub_i64 a b \<le> i64_max"
  by (auto simp: sat_add_i64_def sat_sub_i64_def i64_min_def i64_max_def)

section \<open>Results\<close>

text \<open>
  A \<open>Result<T, E>\<close> is \<^typ>\<open>'e + 'a\<close>: \<^term>\<open>Inl\<close> carries the error, \<^term>\<open>Inr\<close> the value.
\<close>

fun is_ok :: "'e + 'a \<Rightarrow> bool" where
  "is_ok (Inr _) = True"
| "is_ok (Inl _) = False"

fun map_ok :: "('a \<Rightarrow> 'b) \<Rightarrow> 'e + 'a \<Rightarrow> 'e + 'b" where
  "map_ok f (Inr x) = Inr (f x)"
| "map_ok f (Inl e) = Inl e"

fun map_err :: "('e \<Rightarrow> 'f) \<Rightarrow> 'e + 'a \<Rightarrow> 'f + 'a" where
  "map_err f (Inr x) = Inr x"
| "map_err f (Inl e) = Inl (f e)"

section \<open>Lists\<close>

definition position :: "('a \<Rightarrow> bool) \<Rightarrow> 'a list \<Rightarrow> nat option" where
  "position P xs = (let n = length (takeWhile (\<lambda>x. \<not> P x) xs)
                    in if n < length xs then Some n else None)"

text \<open>\<^const>\<open>position\<close> is \<open>Iterator::position\<close>: the index of the first element that satisfies
  the predicate.\<close>

lemma position_Nil [simp]: "position P [] = None"
  by (simp add: position_def)

lemma position_Cons [simp]:
  "position P (x # xs) = (if P x then Some 0 else map_option Suc (position P xs))"
  by (simp add: position_def Let_def)

lemma position_None_iff: "position P xs = None \<longleftrightarrow> (\<forall>x \<in> set xs. \<not> P x)"
  by (induction xs) auto

lemma position_SomeD:
  assumes "position P xs = Some i"
  shows "i < length xs" and "P (xs ! i)" and "takeWhile (\<lambda>x. \<not> P x) xs = take i xs"
  using assms
proof (induction xs arbitrary: i)
  case (Cons x xs)
  { case 1 with Cons.IH show ?case by (auto split: if_splits) }
  { case 2 with Cons.IH show ?case by (auto split: if_splits) }
  { case 3 with Cons.IH show ?case by (auto split: if_splits) }
qed auto

lemma find_map_fst:
  "List.find (\<lambda>x. f x = a) xs = Some y \<Longrightarrow> y \<in> set xs \<and> f y = a"
  by (induction xs) (auto split: if_splits)

section \<open>Sorting by an injective key\<close>

lemma sorted_key_unique:
  assumes "mset xs = mset ys" and "inj_on k (set xs)"
    and "sorted (map k xs)" and "sorted (map k ys)"
  shows "xs = ys"
proof -
  have "mset (map k xs) = mset (map k ys)"
    using assms(1) by (simp add: mset_map)
  then have "map k xs = map k ys"
    using assms(3,4) by (metis properties_for_sort)
  moreover have "set xs = set ys"
    using assms(1) by (metis set_mset_mset)
  ultimately show ?thesis
    using assms(2) by (simp add: inj_on_map_eq_map)
qed

lemma sort_key_eqI:
  assumes "mset xs = mset ys" and "inj_on k (set xs)" and "sorted (map k ys)"
  shows "sort_key k xs = ys"
  using assms by (intro sorted_key_unique [where k = k]) auto

lemma sorted_map_Cons_iff:
  "sorted (map k (x # xs)) \<longleftrightarrow> (\<forall>y \<in> set xs. k x \<le> k y) \<and> sorted (map k xs)"
  by simp

lemma sorted_map_snoc_iff:
  "sorted (map k (xs @ [x])) \<longleftrightarrow> sorted (map k xs) \<and> (\<forall>y \<in> set xs. k y \<le> k x)"
  by (auto simp: sorted_append)

lemma sorted_map_filter: "sorted (map k xs) \<Longrightarrow> sorted (map k (filter P xs))"
  by (rule sorted_filter)

section \<open>Association lists\<close>

lemma map_filter_append: "List.map_filter f (xs @ ys) = List.map_filter f xs @ List.map_filter f ys"
  by (induction xs) (auto simp: map_filter_simps split: option.splits)

lemma map_filter_update_new:
  "a \<notin> fst ` set xs \<Longrightarrow>
   List.map_filter f (AList.update a b xs) =
     List.map_filter f xs @ List.map_filter f [(a, b)]"
  by (induction xs) (auto simp: map_filter_simps split: option.splits)

lemma map_filter_delete:
  "List.map_filter f (AList.delete a xs) = List.map_filter (\<lambda>p. if fst p = a then None else f p) xs"
  by (induction xs) (auto simp: map_filter_simps split: option.splits)

end
