(* ===== verification/Rust_Std.thy ===== *)
theory Rust_Std
  imports Prelude
begin

text \<open>
  The parts of the Rust standard library the daemon and the client rely on for text: a
  \<open>String\<close> or byte vector is a \<^typ>\<open>string\<close> whose characters are its UTF-8 bytes, so
  \<^const>\<open>length\<close> is \<open>str::len\<close>. Decimal and hexadecimal formatting, \<open>parse::<u64>\<close>,
  \<open>str::trim\<close>, UTF-8 validity, little-endian byte encoding and the \<open>Path\<close> accessors
  \<open>file_stem\<close>, \<open>extension\<close> and \<open>with_extension\<close> are defined the way the library
  documents them, with the round-trip lemmas the components use.
\<close>

section \<open>Bytes\<close>

definition byte :: "char \<Rightarrow> nat" where
  "byte c = of_char c"

definition is_ascii_digit :: "char \<Rightarrow> bool" where
  "is_ascii_digit c \<longleftrightarrow> 48 \<le> byte c \<and> byte c \<le> 57"

definition is_ascii_hexdigit :: "char \<Rightarrow> bool" where
  "is_ascii_hexdigit c \<longleftrightarrow>
     is_ascii_digit c \<or> 65 \<le> byte c \<and> byte c \<le> 70 \<or> 97 \<le> byte c \<and> byte c \<le> 102"

definition is_ascii_alphanumeric :: "char \<Rightarrow> bool" where
  "is_ascii_alphanumeric c \<longleftrightarrow>
     is_ascii_digit c \<or> 65 \<le> byte c \<and> byte c \<le> 90 \<or> 97 \<le> byte c \<and> byte c \<le> 122"

definition is_ascii_whitespace :: "char \<Rightarrow> bool" where
  "is_ascii_whitespace c \<longleftrightarrow> byte c = 9 \<or> byte c = 10 \<or> byte c = 12 \<or> byte c = 13 \<or> byte c = 32"

definition newline :: char where
  "newline = CHR 0x0A"

lemma byte_char_of [simp]: "n < 256 \<Longrightarrow> byte (char_of n) = n"
  by (simp add: byte_def)

lemma byte_less [simp]: "byte c < 256"
  by (simp add: byte_def)

lemma byte_inject [simp]: "byte c = byte d \<longleftrightarrow> c = d"
  by (simp add: byte_def)

lemma newline_whitespace [simp]: "is_ascii_whitespace newline"
  by (simp add: is_ascii_whitespace_def newline_def byte_def)

section \<open>Decimal numbers\<close>

definition digit_char :: "nat \<Rightarrow> char" where
  "digit_char d = char_of (48 + d)"

fun show_nat :: "nat \<Rightarrow> string" where
  "show_nat n = (if n < 10 then [digit_char n] else show_nat (n div 10) @ [digit_char (n mod 10)])"

declare show_nat.simps [simp del]

text \<open>\<open>u64::to_string\<close> and \<open>i64::to_string\<close>.\<close>

definition show_int :: "int \<Rightarrow> string" where
  "show_int i = (if i < 0 then CHR ''-'' # show_nat (nat (- i)) else show_nat (nat i))"

datatype parse_int_error = EmptyInput | InvalidDigit | PosOverflow

fun parse_digits :: "nat \<Rightarrow> string \<Rightarrow> parse_int_error + nat" where
  "parse_digits acc [] = Inr acc"
| "parse_digits acc (c # cs) =
     (if \<not> is_ascii_digit c then Inl InvalidDigit
      else if acc * 10 > u64_max then Inl PosOverflow
      else if acc * 10 + (byte c - 48) > u64_max then Inl PosOverflow
      else parse_digits (acc * 10 + (byte c - 48)) cs)"

text \<open>\<open>str::parse::<u64>\<close>: an optional leading plus sign, then decimal digits.\<close>

definition parse_u64 :: "string \<Rightarrow> parse_int_error + nat" where
  "parse_u64 s =
     (case s of [] \<Rightarrow> Inl EmptyInput
      | c # cs \<Rightarrow>
          if cs = [] \<and> (c = CHR ''+'' \<or> c = CHR ''-'') then Inl InvalidDigit
          else if c = CHR ''+'' then parse_digits 0 cs
          else parse_digits 0 s)"

lemma digit_char_byte [simp]: "d < 10 \<Longrightarrow> byte (digit_char d) = 48 + d"
  by (simp add: digit_char_def)

lemma digit_char_is_digit [simp]: "d < 10 \<Longrightarrow> is_ascii_digit (digit_char d)"
  by (simp add: is_ascii_digit_def)

lemma show_nat_digits: "c \<in> set (show_nat n) \<Longrightarrow> is_ascii_digit c"
proof (induction n rule: show_nat.induct)
  case (1 n)
  then show ?case
    by (subst (asm) (2) show_nat.simps) (auto split: if_splits)
qed

lemma show_nat_not_Nil [simp]: "show_nat n \<noteq> []"
  by (subst show_nat.simps) simp

lemma parse_digits_snoc:
  "parse_digits acc cs = Inr m \<Longrightarrow> is_ascii_digit c \<Longrightarrow> m * 10 + (byte c - 48) \<le> u64_max \<Longrightarrow>
   parse_digits acc (cs @ [c]) = Inr (m * 10 + (byte c - 48))"
  by (induction acc cs rule: parse_digits.induct) (auto split: if_splits)

lemma parse_digits_show_nat: "n \<le> u64_max \<Longrightarrow> parse_digits 0 (show_nat n) = Inr n"
proof (induction n rule: show_nat.induct)
  case (1 n)
  show ?case
  proof (cases "n < 10")
    case True
    then show ?thesis using "1.prems" by (subst show_nat.simps) simp
  next
    case False
    have "parse_digits 0 (show_nat (n div 10)) = Inr (n div 10)"
      using "1.IH" False "1.prems" by (auto simp: le_trans [OF div_le_dividend])
    then show ?thesis
      using False "1.prems" by (subst show_nat.simps) (simp add: parse_digits_snoc)
  qed
qed

lemma hd_show_nat_digit: "is_ascii_digit (hd (show_nat n))"
  by (rule show_nat_digits [of _ n]) simp

lemma parse_show_nat [simp]: "n \<le> u64_max \<Longrightarrow> parse_u64 (show_nat n) = Inr n"
  using parse_digits_show_nat [of n] hd_show_nat_digit [of n]
  by (cases "show_nat n") (auto simp: parse_u64_def is_ascii_digit_def byte_def)

lemma length_show_nat_pos [simp]: "0 < length (show_nat n)"
  by simp

lemma show_nat_length_le: "n < 10 ^ k \<Longrightarrow> 0 < k \<Longrightarrow> length (show_nat n) \<le> k"
proof (induction n arbitrary: k rule: show_nat.induct)
  case (1 n)
  show ?case
  proof (cases "n < 10")
    case True
    then show ?thesis using "1.prems" by (subst show_nat.simps) simp
  next
    case False
    then obtain k' where k: "k = Suc k'" "0 < k'"
      using "1.prems" by (cases k; cases "k - 1") auto
    then have "length (show_nat (n div 10)) \<le> k'"
      using "1.IH" [OF False, of k'] "1.prems" by auto
    then show ?thesis using False k by (subst show_nat.simps) simp
  qed
qed

lemma show_int_length_le:
  assumes "i64_min \<le> i" "i \<le> i64_max"
  shows "length (show_int i) \<le> 20"
proof -
  have "nat (- i) < 10 ^ 19" "nat i < 10 ^ 19"
    using assms by (auto simp: limits)
  then have "length (show_nat (nat (- i))) \<le> 19" "length (show_nat (nat i)) \<le> 19"
    by (auto intro: show_nat_length_le)
  then show ?thesis by (auto simp: show_int_def)
qed

lemma show_int_length_pos: "1 \<le> length (show_int i)"
  using length_show_nat_pos [of "nat i"] by (simp add: show_int_def Suc_le_eq)

section \<open>Hexadecimal and little-endian encodings\<close>

definition hex_char :: "nat \<Rightarrow> char" where
  "hex_char d = (if d < 10 then char_of (48 + d) else char_of (87 + d))"

text \<open>\<open>format!("{hash:016x}")\<close> of a 64-bit value: sixteen lowercase hexadecimal digits.\<close>

definition hex16 :: "nat \<Rightarrow> string" where
  "hex16 n = map (\<lambda>i. hex_char (n div 16 ^ (15 - i) mod 16)) [0..<16]"

text \<open>\<open>u64::to_le_bytes\<close>.\<close>

definition to_le_bytes :: "nat \<Rightarrow> string" where
  "to_le_bytes n = map (\<lambda>i. char_of (n div 256 ^ i mod 256)) [0..<8]"

lemma hex_char_hexdigit: "d < 16 \<Longrightarrow> is_ascii_hexdigit (hex_char d)"
  by (auto simp: hex_char_def is_ascii_hexdigit_def is_ascii_digit_def)

lemma length_hex16 [simp]: "length (hex16 n) = 16"
  by (simp add: hex16_def)

lemma hex16_hexdigit: "c \<in> set (hex16 n) \<Longrightarrow> is_ascii_hexdigit c"
  by (auto simp: hex16_def intro: hex_char_hexdigit)

section \<open>UTF-8\<close>

definition is_cont :: "nat \<Rightarrow> bool" where
  "is_cont b \<longleftrightarrow> 128 \<le> b \<and> b \<le> 191"

fun utf8_bytes_ok :: "nat list \<Rightarrow> bool" where
  "utf8_bytes_ok [] = True"
| "utf8_bytes_ok (b # bs) =
     (if b < 128 then utf8_bytes_ok bs
      else if 194 \<le> b \<and> b \<le> 223 then
        (case bs of c # r \<Rightarrow> is_cont c \<and> utf8_bytes_ok r | _ \<Rightarrow> False)
      else if 224 \<le> b \<and> b \<le> 239 then
        (case bs of c # d # r \<Rightarrow>
             (if b = 224 then 160 \<le> c \<and> c \<le> 191 else if b = 237 then 128 \<le> c \<and> c \<le> 159 else is_cont c)
             \<and> is_cont d \<and> utf8_bytes_ok r
         | _ \<Rightarrow> False)
      else if 240 \<le> b \<and> b \<le> 244 then
        (case bs of c # d # e # r \<Rightarrow>
             (if b = 240 then 144 \<le> c \<and> c \<le> 191 else if b = 244 then 128 \<le> c \<and> c \<le> 143 else is_cont c)
             \<and> is_cont d \<and> is_cont e \<and> utf8_bytes_ok r
         | _ \<Rightarrow> False)
      else False)"

definition valid_utf8 :: "string \<Rightarrow> bool" where
  "valid_utf8 s = utf8_bytes_ok (map byte s)"

lemma ascii_valid_utf8: "(\<And>c. c \<in> set s \<Longrightarrow> byte c < 128) \<Longrightarrow> valid_utf8 s"
  by (induction s) (auto simp: valid_utf8_def)

text \<open>\<open>str::is_char_boundary\<close>: the start, the end, or a byte that is no continuation byte.\<close>

definition is_char_boundary :: "string \<Rightarrow> nat \<Rightarrow> bool" where
  "is_char_boundary s i \<longleftrightarrow>
     i = 0 \<or> i = length s \<or> i < length s \<and> \<not> is_cont (byte (s ! i))"

section \<open>Trimming\<close>

text \<open>The UTF-8 encodings of the characters with the \<open>White_Space\<close> property.\<close>

definition white_space :: "string list" where
  "white_space =
     map (map char_of)
       ([[9], [10], [11], [12], [13], [32], [194, 133], [194, 160], [225, 154, 128],
         [226, 128, 168], [226, 128, 169], [226, 128, 175], [226, 129, 159], [227, 128, 128]]
        @ map (\<lambda>n. [226, 128, n]) [128..<139] :: nat list list)"

lemma white_space_not_Nil: "p \<in> set white_space \<Longrightarrow> p \<noteq> []"
  by (auto simp: white_space_def)

lemma find_white_spaceD: "List.find P white_space = Some p \<Longrightarrow> P p \<and> p \<noteq> []"
  using white_space_not_Nil nth_mem by (metis find_Some_iff)

function trim_start :: "string \<Rightarrow> string" where
  "trim_start s =
     (case List.find (\<lambda>p. take (length p) s = p) white_space of
        None \<Rightarrow> s
      | Some p \<Rightarrow> trim_start (drop (length p) s))"
  by pat_completeness auto

termination
proof (relation "measure length")
  fix s p
  assume "List.find (\<lambda>p. take (length p) s = p) white_space = Some p"
  then have "take (length p) s = p" "p \<noteq> []"
    by (auto dest!: find_white_spaceD)
  then show "(drop (length p) s, s) \<in> measure length"
    by (cases s) auto
qed simp

declare trim_start.simps [simp del]

function trim_end :: "string \<Rightarrow> string" where
  "trim_end s =
     (case List.find (\<lambda>p. length p \<le> length s \<and> drop (length s - length p) s = p) white_space of
        None \<Rightarrow> s
      | Some p \<Rightarrow> trim_end (take (length s - length p) s))"
  by pat_completeness auto

termination
proof (relation "measure length")
  fix s p
  assume "List.find (\<lambda>p. length p \<le> length s \<and> drop (length s - length p) s = p) white_space = Some p"
  then have "length p \<le> length s" "p \<noteq> []"
    by (auto dest!: find_white_spaceD)
  then show "(take (length s - length p) s, s) \<in> measure length"
    by (cases p) auto
qed simp

declare trim_end.simps [simp del]

definition str_trim :: "string \<Rightarrow> string" where
  "str_trim s = trim_end (trim_start s)"

lemma white_space_no_graphic:
  "p \<in> set white_space \<Longrightarrow> c \<in> set p \<Longrightarrow> \<not> (33 \<le> byte c \<and> byte c < 127)"
  by (auto simp: white_space_def)

lemma str_trim_id:
  assumes "\<And>c. c \<in> set s \<Longrightarrow> 33 \<le> byte c \<and> byte c < 127"
  shows "str_trim s = s"
proof -
  have start: "List.find (\<lambda>p. take (length p) s = p) white_space = None"
  proof -
    { fix p assume p: "p \<in> set white_space" "take (length p) s = p"
      then have "set p \<subseteq> set s" by (metis set_take_subset)
      moreover obtain c where "c \<in> set p"
        using white_space_not_Nil [OF p(1)] by (cases p) auto
      ultimately have False using assms white_space_no_graphic [OF p(1)] by blast }
    then show ?thesis by (auto simp: find_None_iff)
  qed
  have "List.find (\<lambda>p. length p \<le> length s \<and> drop (length s - length p) s = p) white_space = None"
  proof -
    { fix p assume p: "p \<in> set white_space" "drop (length s - length p) s = p"
      then have "set p \<subseteq> set s" by (metis set_drop_subset)
      moreover obtain c where "c \<in> set p"
        using white_space_not_Nil [OF p(1)] by (cases p) auto
      ultimately have False using assms white_space_no_graphic [OF p(1)] by blast }
    then show ?thesis by (auto simp: find_None_iff)
  qed
  with start show ?thesis
    by (simp add: str_trim_def trim_start.simps [of s] trim_end.simps [of s])
qed

lemma str_trim_show_nat [simp]: "str_trim (show_nat n) = show_nat n"
  by (rule str_trim_id) (auto dest!: show_nat_digits simp: is_ascii_digit_def)

lemma show_nat_valid_utf8 [simp]: "valid_utf8 (show_nat n)"
  by (rule ascii_valid_utf8) (auto dest!: show_nat_digits simp: is_ascii_digit_def)

section \<open>File names\<close>

text \<open>
  \<open>Path::file_stem\<close> and \<open>Path::extension\<close> split the file name at its last dot, unless there
  is none or it is the first character.
\<close>

definition rsplit_dot :: "string \<Rightarrow> string option \<times> string option" where
  "rsplit_dot name =
     (let after = rev (takeWhile (\<lambda>c. c \<noteq> CHR ''.'') (rev name));
          before = (if CHR ''.'' \<in> set name
                    then Some (take (length name - length after - 1) name) else None)
      in if name = ''..'' \<or> before = Some [] then (Some name, None) else (before, Some after))"

definition file_stem :: "string \<Rightarrow> string option" where
  "file_stem name = (case rsplit_dot name of (Some b, _) \<Rightarrow> Some b | (None, a) \<Rightarrow> a)"

definition extension :: "string \<Rightarrow> string option" where
  "extension name = (case rsplit_dot name of (Some _, a) \<Rightarrow> a | (None, _) \<Rightarrow> None)"

text \<open>\<open>Path::with_extension\<close> with a non-empty extension.\<close>

definition with_extension :: "string \<Rightarrow> string \<Rightarrow> string" where
  "with_extension name ext =
     (case file_stem name of Some stem \<Rightarrow> stem @ ''.'' @ ext | None \<Rightarrow> name)"

lemma rsplit_dot_append:
  assumes "CHR ''.'' \<notin> set ext" "stem \<noteq> []" "stem @ ''.'' @ ext \<noteq> ''..''"
  shows "rsplit_dot (stem @ ''.'' @ ext) = (Some stem, Some ext)"
proof -
  have "takeWhile (\<lambda>c. c \<noteq> CHR ''.'') (rev (stem @ ''.'' @ ext)) = rev ext"
    using assms(1) by (subst rev_append, subst rev_append, subst append_assoc,
        subst takeWhile_append2) auto
  then show ?thesis using assms by (simp add: rsplit_dot_def Let_def)
qed

lemma rsplit_dot_plain:
  assumes "CHR ''.'' \<notin> set name"
  shows "rsplit_dot name = (None, Some name)"
proof -
  have tw: "takeWhile (\<lambda>c. c \<noteq> CHR ''.'') (rev name) = rev name"
    using assms by (subst takeWhile_eq_all_conv) auto
  have "name \<noteq> ''..''" using assms by auto
  with assms show ?thesis by (simp only: rsplit_dot_def Let_def tw) simp
qed

lemma file_stem_append:
  "CHR ''.'' \<notin> set ext \<Longrightarrow> stem \<noteq> [] \<Longrightarrow> ext \<noteq> [] \<Longrightarrow> file_stem (stem @ ''.'' @ ext) = Some stem"
  using rsplit_dot_append [of ext stem]
  by (auto simp: file_stem_def append_eq_Cons_conv)

lemma extension_append:
  "CHR ''.'' \<notin> set ext \<Longrightarrow> stem \<noteq> [] \<Longrightarrow> ext \<noteq> [] \<Longrightarrow> extension (stem @ ''.'' @ ext) = Some ext"
  using rsplit_dot_append [of ext stem]
  by (auto simp: extension_def append_eq_Cons_conv)

lemma extension_stemD:
  assumes "extension name = Some ext" "file_stem name = Some stem"
  shows "name = stem @ ''.'' @ ext"
proof -
  let ?after = "rev (takeWhile (\<lambda>c. c \<noteq> CHR ''.'') (rev name))"
  have dot: "CHR ''.'' \<in> set name" and ext: "ext = ?after"
    and stem: "stem = take (length name - length ?after - 1) name"
    using assms by (auto simp: extension_def file_stem_def rsplit_dot_def Let_def split: if_splits)
  have "dropWhile (\<lambda>c. c \<noteq> CHR ''.'') (rev name) \<noteq> []"
    using dot by (auto simp: dropWhile_eq_Nil_conv)
  then obtain a r where r: "dropWhile (\<lambda>c. c \<noteq> CHR ''.'') (rev name) = a # r"
    by (cases "dropWhile (\<lambda>c. c \<noteq> CHR ''.'') (rev name)") auto
  then have "a = CHR ''.''"
    using hd_dropWhile [of "\<lambda>c. c \<noteq> CHR ''.''" "rev name"] by simp
  with r have "rev name = takeWhile (\<lambda>c. c \<noteq> CHR ''.'') (rev name) @ CHR ''.'' # r"
    using takeWhile_dropWhile_id [of "\<lambda>c. c \<noteq> CHR ''.''" "rev name"] by simp
  then have "rev (rev name) = rev (takeWhile (\<lambda>c. c \<noteq> CHR ''.'') (rev name) @ CHR ''.'' # r)"
    by (rule arg_cong)
  then have name: "name = rev r @ ''.'' @ ?after" by simp
  have "\<forall>a. name = rev r @ ''.'' @ a \<longrightarrow> take (length name - length a - 1) name = rev r"
    by auto
  with name stem have "stem = rev r" by blast
  with name ext show ?thesis by blast
qed

end
