(* ===== verification/Filesystem.thy ===== *)
theory Filesystem
  imports Rust_Std
begin

text \<open>
  The world the daemon's store acts on: the three directories below the queue path, the
  script of failures the operating system still has in store, and the number of UUIDs drawn.
  Effectful code is a function from a world to a result and a world. Every call of
  \<open>std::fs\<close> the source makes is one function here and consumes one element of the failure
  script: \<open>None\<close> lets it succeed, \<open>Some (e, k)\<close> makes it fail with error \<open>e\<close>, a failing write
  leaving its first \<open>k\<close> bytes behind. An empty script never fails, so the worlds an
  operation can leave behind when the process dies between two calls are the worlds it leaves
  when one call of the script fails.
\<close>

section \<open>Errors, nodes and worlds\<close>

datatype io_kind =
    NotFound | PermissionDenied | InvalidData | InvalidInput | UnexpectedEof | BrokenPipe
  | ConnectionRefused | AlreadyExists | OtherKind

datatype io_error = IoError (kind_of: io_kind) (message_of: string)

datatype dir = QueueDir | EntriesDir | AwaitDeletionsDir

type_synonym path = "dir \<times> string"

text \<open>A directory entry is a regular file with its bytes, or something that is no regular file.\<close>

datatype node = Regular string | Special

record world =
  dirs :: "dir \<Rightarrow> (string \<times> node) list"
  script :: "(io_error \<times> nat) option list"
  uuids_used :: nat

type_synonym ('e, 'a) eff = "world \<Rightarrow> ('e + 'a) \<times> world"

text \<open>In a quiet world no call fails any more. In an honest one no failure pretends that a file
  is missing.\<close>

abbreviation quiet :: "world \<Rightarrow> bool" where
  "quiet w \<equiv> script w = []"

definition honest :: "world \<Rightarrow> bool" where
  "honest w \<longleftrightarrow> (\<forall>c \<in> set (script w). case c of None \<Rightarrow> True | Some (e, _) \<Rightarrow> kind_of e \<noteq> NotFound)"

lemma quiet_honest: "quiet w \<Longrightarrow> honest w"
  by (simp add: honest_def)

section \<open>Combinators of effectful code\<close>

definition ok :: "'a \<Rightarrow> ('e, 'a) eff" where
  "ok x w = (Inr x, w)"

definition err :: "'e \<Rightarrow> ('e, 'a) eff" where
  "err e w = (Inl e, w)"

text \<open>The question-mark operator: stop at an error, else continue with the value.\<close>

definition and_then :: "('e, 'a) eff \<Rightarrow> ('a \<Rightarrow> ('e, 'b) eff) \<Rightarrow> ('e, 'b) eff" where
  "and_then m f w = (case m w of (Inl e, w') \<Rightarrow> (Inl e, w') | (Inr x, w') \<Rightarrow> f x w')"

text \<open>A \<open>match\<close> on a result: the error becomes a value.\<close>

definition attempt :: "('e, 'a) eff \<Rightarrow> ('f, 'e + 'a) eff" where
  "attempt m w = (case m w of (r, w') \<Rightarrow> (Inr r, w'))"

definition map_error :: "('e \<Rightarrow> 'f) \<Rightarrow> ('e, 'a) eff \<Rightarrow> ('f, 'a) eff" where
  "map_error f m w = (case m w of (r, w') \<Rightarrow> (map_err f r, w'))"

definition from_result :: "'e + 'a \<Rightarrow> ('e, 'a) eff" where
  "from_result r w = (r, w)"

lemma run_ok [run_simps]: "ok x w = (Inr x, w)"
  by (simp add: ok_def)

lemma run_err [run_simps]: "err e w = (Inl e, w)"
  by (simp add: err_def)

lemma run_from_result [run_simps]: "from_result r w = (r, w)"
  by (simp add: from_result_def)

lemma run_and_then [run_simps]:
  "m w = (r, w') \<Longrightarrow>
   and_then m f w = (case r of Inl e \<Rightarrow> (Inl e, w') | Inr x \<Rightarrow> f x w')"
  by (simp add: and_then_def)

lemma run_attempt [run_simps]: "m w = (r, w') \<Longrightarrow> attempt m w = (Inr r, w')"
  by (simp add: attempt_def)

lemma run_map_error [run_simps]: "m w = (r, w') \<Longrightarrow> map_error f m w = (map_err f r, w')"
  by (simp add: map_error_def)

lemma and_then_InrE:
  assumes "and_then m f w = (Inr y, w'')"
  obtains x w' where "m w = (Inr x, w')" "f x w' = (Inr y, w'')"
  using assms by (auto simp: and_then_def split: prod.splits sum.splits)

lemma and_then_InlE:
  assumes "and_then m f w = (Inl e, w'')"
  obtains "m w = (Inl e, w'')"
  | x w' where "m w = (Inr x, w')" "f x w' = (Inl e, w'')"
  using assms by (auto simp: and_then_def split: prod.splits sum.splits)

lemma map_error_InrE:
  assumes "map_error f m w = (Inr x, w')"
  obtains "m w = (Inr x, w')"
  using assms by (cases "fst (m w)") (auto simp: map_error_def split: prod.splits)

section \<open>Calls\<close>

definition syscall ::
  "(nat \<Rightarrow> world \<Rightarrow> world) \<Rightarrow> (world \<Rightarrow> (io_error + 'a) \<times> world) \<Rightarrow> (io_error, 'a) eff" where
  "syscall torn act w =
     (case script w of
        [] \<Rightarrow> act w
      | None # s \<Rightarrow> act (w\<lparr>script := s\<rparr>)
      | Some (e, k) # s \<Rightarrow> (Inl e, torn k (w\<lparr>script := s\<rparr>)))"

definition node_at :: "world \<Rightarrow> path \<Rightarrow> node option" where
  "node_at w p = map_of (dirs w (fst p)) (snd p)"

definition set_node :: "path \<Rightarrow> node \<Rightarrow> world \<Rightarrow> world" where
  "set_node p n w = w\<lparr>dirs := (dirs w)(fst p := AList.update (snd p) n (dirs w (fst p)))\<rparr>"

definition del_node :: "path \<Rightarrow> world \<Rightarrow> world" where
  "del_node p w = w\<lparr>dirs := (dirs w)(fst p := AList.delete (snd p) (dirs w (fst p)))\<rparr>"

definition not_found :: io_error where
  "not_found = IoError NotFound ''No such file or directory (os error 2)''"

definition is_a_directory :: io_error where
  "is_a_directory = IoError OtherKind ''Is a directory (os error 21)''"

text \<open>A call without a visible effect: \<open>flush\<close>, \<open>sync_all\<close>, \<open>sync_data\<close>, \<open>seek\<close>, opening
  a directory, \<open>create_dir_all\<close> on the queue's own directories.\<close>

definition fs_call :: "(io_error, unit) eff" where
  "fs_call = syscall (\<lambda>_ w. w) (\<lambda>w. (Inr (), w))"

text \<open>\<open>File::create\<close>.\<close>

definition fs_create :: "path \<Rightarrow> (io_error, unit) eff" where
  "fs_create p = syscall (\<lambda>_ w. w)
     (\<lambda>w. case node_at w p of
            Some Special \<Rightarrow> (Inl is_a_directory, w)
          | _ \<Rightarrow> (Inr (), set_node p (Regular []) w))"

text \<open>\<open>OpenOptions::new().create(true).append(true).read(true).open\<close>.\<close>

definition fs_open_append :: "path \<Rightarrow> (io_error, unit) eff" where
  "fs_open_append p = syscall (\<lambda>_ w. w)
     (\<lambda>w. case node_at w p of
            Some Special \<Rightarrow> (Inl is_a_directory, w)
          | Some (Regular _) \<Rightarrow> (Inr (), w)
          | None \<Rightarrow> (Inr (), set_node p (Regular []) w))"

text \<open>\<open>write_all\<close> on a file just created or opened for appending. A failure may leave a prefix.\<close>

definition append_bytes :: "path \<Rightarrow> string \<Rightarrow> world \<Rightarrow> world" where
  "append_bytes p bs w =
     (case node_at w p of Some (Regular old) \<Rightarrow> set_node p (Regular (old @ bs)) w | _ \<Rightarrow> w)"

definition fs_write_all :: "path \<Rightarrow> string \<Rightarrow> (io_error, unit) eff" where
  "fs_write_all p bs = syscall (\<lambda>k w. append_bytes p (take k bs) w)
     (\<lambda>w. (Inr (), append_bytes p bs w))"

text \<open>\<open>fs::rename\<close> within one directory.\<close>

definition fs_rename :: "path \<Rightarrow> path \<Rightarrow> (io_error, unit) eff" where
  "fs_rename p q = syscall (\<lambda>_ w. w)
     (\<lambda>w. case (node_at w p, node_at w q) of
            (None, _) \<Rightarrow> (Inl not_found, w)
          | (_, Some Special) \<Rightarrow> (Inl is_a_directory, w)
          | (Some n, _) \<Rightarrow> (Inr (), set_node q n (del_node p w)))"

text \<open>\<open>fs::remove_file\<close>.\<close>

definition fs_remove_file :: "path \<Rightarrow> (io_error, unit) eff" where
  "fs_remove_file p = syscall (\<lambda>_ w. w)
     (\<lambda>w. case node_at w p of
            None \<Rightarrow> (Inl not_found, w)
          | Some Special \<Rightarrow> (Inl is_a_directory, w)
          | Some (Regular _) \<Rightarrow> (Inr (), del_node p w))"

text \<open>\<open>fs::read\<close>, or opening a file and reading it to its end.\<close>

definition fs_read :: "path \<Rightarrow> (io_error, string) eff" where
  "fs_read p = syscall (\<lambda>_ w. w)
     (\<lambda>w. case node_at w p of
            None \<Rightarrow> (Inl not_found, w)
          | Some Special \<Rightarrow> (Inl is_a_directory, w)
          | Some (Regular bs) \<Rightarrow> (Inr bs, w))"

text \<open>\<open>fs::read_to_string\<close>.\<close>

definition fs_read_to_string :: "path \<Rightarrow> (io_error, string) eff" where
  "fs_read_to_string p = and_then (fs_read p)
     (\<lambda>bs. if valid_utf8 bs then ok bs
           else err (IoError InvalidData ''stream did not contain valid UTF-8''))"

text \<open>\<open>File::open\<close>.\<close>

definition fs_open :: "path \<Rightarrow> (io_error, unit) eff" where
  "fs_open p = syscall (\<lambda>_ w. w)
     (\<lambda>w. if node_at w p = None then (Inl not_found, w) else (Inr (), w))"

text \<open>\<open>fs::symlink_metadata\<close>, \<open>fs::metadata\<close>, \<open>File::metadata\<close>, \<open>DirEntry::metadata\<close> and
  \<open>DirEntry::file_type\<close>: whether the path is a regular file, and its length.\<close>

definition node_len :: "node \<Rightarrow> nat" where
  "node_len n = (case n of Regular bs \<Rightarrow> length bs | Special \<Rightarrow> 0)"

definition fs_metadata :: "path \<Rightarrow> (io_error, bool \<times> nat) eff" where
  "fs_metadata p = syscall (\<lambda>_ w. w)
     (\<lambda>w. case node_at w p of
            None \<Rightarrow> (Inl not_found, w)
          | Some n \<Rightarrow> (Inr (n \<noteq> Special, node_len n), w))"

text \<open>\<open>fs::read_dir\<close>: the names in the order the directory has them.\<close>

definition fs_read_dir :: "dir \<Rightarrow> (io_error, string list) eff" where
  "fs_read_dir d = syscall (\<lambda>_ w. w) (\<lambda>w. (Inr (map fst (dirs w d)), w))"

text \<open>A positioned read: the bytes of the file from an offset, at most as many as asked for.\<close>

definition bytes_at :: "world \<Rightarrow> path \<Rightarrow> string" where
  "bytes_at w p = (case node_at w p of Some (Regular bs) \<Rightarrow> bs | _ \<Rightarrow> [])"

definition fs_read_at :: "path \<Rightarrow> nat \<Rightarrow> nat \<Rightarrow> (io_error, string) eff" where
  "fs_read_at p off n = syscall (\<lambda>_ w. w)
     (\<lambda>w. (Inr (take n (drop off (bytes_at w p))), w))"

text \<open>\<open>read_exact\<close> at a position: too few bytes are an error.\<close>

definition fs_read_exact :: "path \<Rightarrow> nat \<Rightarrow> nat \<Rightarrow> (io_error, string) eff" where
  "fs_read_exact p off n = and_then (fs_read_at p off n)
     (\<lambda>bs. if length bs = n then ok bs
           else err (IoError UnexpectedEof ''failed to fill whole buffer''))"

lemmas fs_defs = fs_call_def fs_create_def fs_open_append_def fs_write_all_def fs_rename_def
  fs_remove_file_def fs_read_def fs_read_to_string_def fs_open_def fs_metadata_def fs_read_dir_def
  fs_read_at_def fs_read_exact_def

section \<open>Files as a table\<close>

text \<open>
  What the rest of the development uses of a directory tree: looking up after writing and after
  removing. The contract is stated once and discharged for the association lists of a world.
\<close>

locale file_table =
  fixes look :: "'w \<Rightarrow> 'p \<Rightarrow> 'n option"
    and put :: "'p \<Rightarrow> 'n \<Rightarrow> 'w \<Rightarrow> 'w"
    and rem :: "'p \<Rightarrow> 'w \<Rightarrow> 'w"
  assumes look_put: "look (put p n w) q = (if q = p then Some n else look w q)"
    and look_rem: "look (rem p w) q = (if q = p then None else look w q)"
begin

text \<open>Replacing a file through a temporary sibling: the target holds the new node, the sibling is
  gone, everything else is as before.\<close>

lemma look_replace:
  "tmp \<noteq> p \<Longrightarrow> look (put p n (rem tmp (put tmp m w))) q =
     (if q = p then Some n else if q = tmp then None else look w q)"
  by (simp add: look_put look_rem)

lemma look_replace_old:
  "q \<noteq> tmp \<Longrightarrow> look (put tmp m w) q = look w q"
  by (simp add: look_put)

end

lemma node_at_set_node [simp]:
  "node_at (set_node p n w) q = (if q = p then Some n else node_at w q)"
  by (cases p; cases q) (auto simp: node_at_def set_node_def update_conv')

lemma node_at_del_node [simp]:
  "node_at (del_node p w) q = (if q = p then None else node_at w q)"
  by (cases p; cases q) (auto simp: node_at_def del_node_def delete_conv')

interpretation files: file_table node_at set_node del_node
  by unfold_locales simp_all

lemma world_frame [simp]:
  "script (set_node p n w) = script w" "script (del_node p w) = script w"
  "uuids_used (set_node p n w) = uuids_used w" "uuids_used (del_node p w) = uuids_used w"
  "script (append_bytes p bs w) = script w" "uuids_used (append_bytes p bs w) = uuids_used w"
  by (simp_all add: set_node_def del_node_def append_bytes_def split: option.splits node.splits)

lemma node_at_script [simp]: "node_at (w\<lparr>script := s\<rparr>) p = node_at w p"
  "node_at (w\<lparr>uuids_used := u\<rparr>) p = node_at w p"
  by (simp_all add: node_at_def)

lemma dirs_script: "dirs (w\<lparr>script := s\<rparr>) = dirs w" and script_script: "script (w\<lparr>script := s\<rparr>) = s"
  by simp_all

lemma bytes_at_script [simp]: "bytes_at (w\<lparr>script := s\<rparr>) p = bytes_at w p"
  by (simp add: bytes_at_def)

lemma set_node_script [simp]:
  "set_node p n (w\<lparr>script := s\<rparr>) = (set_node p n w)\<lparr>script := s\<rparr>"
  "del_node p (w\<lparr>script := s\<rparr>) = (del_node p w)\<lparr>script := s\<rparr>"
  "append_bytes p bs (w\<lparr>script := s\<rparr>) = (append_bytes p bs w)\<lparr>script := s\<rparr>"
  by (simp_all add: set_node_def del_node_def append_bytes_def split: option.splits node.splits)

lemma dirs_other [simp]:
  "d \<noteq> fst p \<Longrightarrow> dirs (set_node p n w) d = dirs w d"
  "d \<noteq> fst p \<Longrightarrow> dirs (del_node p w) d = dirs w d"
  by (simp_all add: set_node_def del_node_def)

lemma dirs_set_node: "dirs (set_node p n w) (fst p) = AList.update (snd p) n (dirs w (fst p))"
  by (simp add: set_node_def)

lemma dirs_del_node: "dirs (del_node p w) (fst p) = AList.delete (snd p) (dirs w (fst p))"
  by (simp add: del_node_def)

text \<open>Every name occurs once in its directory.\<close>

definition wf_dirs :: "world \<Rightarrow> bool" where
  "wf_dirs w \<longleftrightarrow> (\<forall>d. distinct (map fst (dirs w d)))"

lemma wf_dirs_set_node [simp]: "wf_dirs w \<Longrightarrow> wf_dirs (set_node p n w)"
  by (auto simp: wf_dirs_def set_node_def distinct_update)

lemma wf_dirs_del_node [simp]: "wf_dirs w \<Longrightarrow> wf_dirs (del_node p w)"
  by (auto simp: wf_dirs_def del_node_def distinct_delete)

section \<open>Runs without failures\<close>

lemma syscall_quiet [run_simps]: "quiet w \<Longrightarrow> syscall torn act w = act w"
  by (simp add: syscall_def)

lemma quiet_calls [run_simps]:
  assumes "quiet w"
  shows "fs_call w = (Inr (), w)"
    and "fs_write_all p bs w = (Inr (), append_bytes p bs w)"
    and "fs_read_dir d w = (Inr (map fst (dirs w d)), w)"
    and "fs_read_at p off n w = (Inr (take n (drop off (bytes_at w p))), w)"
    and "fs_create p w = (if node_at w p = Some Special then (Inl is_a_directory, w)
                          else (Inr (), set_node p (Regular []) w))"
    and "fs_open p w = (if node_at w p = None then (Inl not_found, w) else (Inr (), w))"
    and "fs_read p w = (case node_at w p of None \<Rightarrow> (Inl not_found, w)
           | Some Special \<Rightarrow> (Inl is_a_directory, w) | Some (Regular bs) \<Rightarrow> (Inr bs, w))"
    and "fs_metadata p w = (case node_at w p of None \<Rightarrow> (Inl not_found, w)
           | Some n \<Rightarrow> (Inr (n \<noteq> Special, node_len n), w))"
    and "fs_remove_file p w = (case node_at w p of None \<Rightarrow> (Inl not_found, w)
           | Some Special \<Rightarrow> (Inl is_a_directory, w) | Some (Regular _) \<Rightarrow> (Inr (), del_node p w))"
    and "fs_rename p q w = (case (node_at w p, node_at w q) of (None, _) \<Rightarrow> (Inl not_found, w)
           | (_, Some Special) \<Rightarrow> (Inl is_a_directory, w)
           | (Some n, _) \<Rightarrow> (Inr (), set_node q n (del_node p w)))"
    and "fs_open_append p w = (case node_at w p of Some Special \<Rightarrow> (Inl is_a_directory, w)
           | Some (Regular _) \<Rightarrow> (Inr (), w) | None \<Rightarrow> (Inr (), set_node p (Regular []) w))"
  using assms
  by (simp_all add: fs_defs run_simps split: option.splits node.splits)

section \<open>Frames\<close>

text \<open>
  A computation only reads when it leaves every file and the UUID source as they were; it may
  use up part of the failure script.
\<close>

definition reads_only :: "('e, 'a) eff \<Rightarrow> bool" where
  "reads_only m \<longleftrightarrow> (\<forall>w. \<exists>s. snd (m w) = w\<lparr>script := s\<rparr> \<and> suffix s (script w))"

named_theorems reads

lemma reads_onlyI:
  "(\<And>w r w'. m w = (r, w') \<Longrightarrow> \<exists>s. w' = w\<lparr>script := s\<rparr> \<and> suffix s (script w)) \<Longrightarrow> reads_only m"
  unfolding reads_only_def by (metis surjective_pairing)

lemma reads_onlyD:
  "reads_only m \<Longrightarrow> m w = (r, w') \<Longrightarrow> \<exists>s. w' = w\<lparr>script := s\<rparr> \<and> suffix s (script w)"
  unfolding reads_only_def by (metis snd_conv)

lemma reads_onlyE:
  assumes "reads_only m" "m w = (r, w')"
  obtains s where "w' = w\<lparr>script := s\<rparr>" "suffix s (script w)"
  using assms unfolding reads_only_def by (metis snd_conv)

lemma reads_only_quiet: "reads_only m \<Longrightarrow> quiet w \<Longrightarrow> m w = (r, w') \<Longrightarrow> w' = w"
  by (erule (1) reads_onlyE) (auto simp: world.equality)

lemma reads_only_frame:
  assumes "reads_only m" "m w = (r, w')"
  shows "bytes_at w' p = bytes_at w p" and "node_at w' p = node_at w p"
    and "dirs w' = dirs w" and "uuids_used w' = uuids_used w"
  using assms by (auto elim!: reads_onlyE)

lemma script_self [simp]: "\<exists>s. w = w\<lparr>script := s\<rparr> \<and> suffix s (script w)"
  by (rule exI [of _ "script w"]) simp

lemma reads_only_ok [reads]: "reads_only (ok x)"
  by (simp add: reads_only_def ok_def)

lemma reads_only_err [reads]: "reads_only (err e)"
  by (simp add: reads_only_def err_def)

lemma reads_only_from_result [reads]: "reads_only (from_result r)"
  by (simp add: reads_only_def from_result_def)

lemma reads_only_and_then [reads]:
  assumes "reads_only m" "\<And>x. reads_only (f x)"
  shows "reads_only (and_then m f)"
proof (rule reads_onlyI)
  fix w r2 w2
  assume *: "and_then m f w = (r2, w2)"
  obtain r w' where m: "m w = (r, w')" by fastforce
  then obtain s where s: "w' = w\<lparr>script := s\<rparr>" "suffix s (script w)"
    using assms(1) by (blast elim: reads_onlyE)
  show "\<exists>s. w2 = w\<lparr>script := s\<rparr> \<and> suffix s (script w)"
  proof (cases r)
    case (Inl e)
    then show ?thesis using * m s by (auto simp: and_then_def)
  next
    case (Inr x)
    then have "f x w' = (r2, w2)" using * m by (simp add: and_then_def)
    then obtain s2 where "w2 = w'\<lparr>script := s2\<rparr>" "suffix s2 (script w')"
      using assms(2) by (blast elim: reads_onlyE)
    then show ?thesis using s by auto
  qed
qed

lemma reads_only_attempt [reads]: "reads_only m \<Longrightarrow> reads_only (attempt m)"
  by (auto intro!: reads_onlyI simp: attempt_def split: prod.splits dest: reads_onlyD)

lemma reads_only_map_error [reads]: "reads_only m \<Longrightarrow> reads_only (map_error f m)"
  by (auto intro!: reads_onlyI simp: map_error_def split: prod.splits dest: reads_onlyD)

lemma reads_only_syscall:
  assumes "\<And>w. snd (act w) = w" "\<And>k w. torn k w = w"
  shows "reads_only (syscall torn act)"
  unfolding reads_only_def
proof
  fix w
  show "\<exists>s. snd (syscall torn act w) = w\<lparr>script := s\<rparr> \<and> suffix s (script w)"
  proof (cases "script w")
    case Nil
    then show ?thesis using assms by (auto simp: syscall_def intro: exI [of _ "[]"])
  next
    case (Cons c s)
    then show ?thesis using assms
      by (auto simp: syscall_def split: option.splits intro!: exI [of _ s] suffix_ConsI)
  qed
qed

lemma reads_only_calls [reads]:
  "reads_only fs_call" "reads_only (fs_read p)" "reads_only (fs_open p)"
  "reads_only (fs_metadata p)" "reads_only (fs_read_dir d)" "reads_only (fs_read_at p off n)"
  by (auto simp: fs_defs intro!: reads_only_syscall split: option.splits node.splits)

lemma reads_only_read_to_string [reads]: "reads_only (fs_read_to_string p)"
  by (auto simp: fs_read_to_string_def intro!: reads)

lemma reads_only_read_exact [reads]: "reads_only (fs_read_exact p off n)"
  by (auto simp: fs_read_exact_def intro!: reads)

lemma reads_only_case_sum [reads]:
  "(\<And>e. reads_only (f e)) \<Longrightarrow> (\<And>x. reads_only (g x)) \<Longrightarrow> reads_only (case r of Inl e \<Rightarrow> f e | Inr x \<Rightarrow> g x)"
  by (cases r) auto

lemma reads_only_case_option [reads]:
  "reads_only f \<Longrightarrow> (\<And>x. reads_only (g x)) \<Longrightarrow> reads_only (case r of None \<Rightarrow> f | Some x \<Rightarrow> g x)"
  by (cases r) auto

lemma reads_only_if [reads]:
  "(b \<Longrightarrow> reads_only f) \<Longrightarrow> (\<not> b \<Longrightarrow> reads_only g) \<Longrightarrow> reads_only (if b then f else g)"
  by auto

lemma reads_only_case_prod [reads]:
  "(\<And>x y. reads_only (f x y)) \<Longrightarrow> reads_only (case r of (x, y) \<Rightarrow> f x y)"
  by (cases r) auto

lemma reads_only_Let [reads]: "reads_only (f x) \<Longrightarrow> reads_only (Let x f)"
  by simp

lemma wf_dirs_script [simp]: "wf_dirs (w\<lparr>script := s\<rparr>) = wf_dirs w"
  by (simp add: wf_dirs_def)

text \<open>
  A computation touches only the paths of a set when every other file, and every directory none
  of them is in, stays as it was. It also keeps the directories well formed and uses up part of the
  failure script.
\<close>

definition same_outside :: "path set \<Rightarrow> world \<Rightarrow> world \<Rightarrow> bool" where
  "same_outside A w w' \<longleftrightarrow>
     (\<forall>q. q \<notin> A \<longrightarrow> node_at w' q = node_at w q)
     \<and> (\<forall>d. d \<notin> fst ` A \<longrightarrow> dirs w' d = dirs w d)
     \<and> (wf_dirs w \<longrightarrow> wf_dirs w')
     \<and> suffix (script w') (script w)"

definition touches :: "path set \<Rightarrow> ('e, 'a) eff \<Rightarrow> bool" where
  "touches A m \<longleftrightarrow> (\<forall>w. same_outside A w (snd (m w)))"

named_theorems frame

lemma same_outside_refl [simp]: "same_outside A w w"
  by (simp add: same_outside_def)

lemma same_outside_trans: "same_outside A w w1 \<Longrightarrow> same_outside A w1 w2 \<Longrightarrow> same_outside A w w2"
  by (auto simp: same_outside_def)

lemma same_outside_script:
  "same_outside A (w\<lparr>script := s\<rparr>) w' \<Longrightarrow> suffix s (script w) \<Longrightarrow> same_outside A w w'"
  by (auto simp: same_outside_def)

lemma same_outside_nodes:
  assumes "p \<in> A"
  shows "same_outside A w (set_node p n w)" "same_outside A w (del_node p w)"
    "same_outside A w (append_bytes p bs w)"
proof -
  have *: "d \<notin> fst ` A \<Longrightarrow> d \<noteq> fst p" for d using assms by auto
  show "same_outside A w (set_node p n w)" for n using assms * by (auto simp: same_outside_def)
  then show "same_outside A w (append_bytes p bs w)"
    by (simp add: append_bytes_def split: option.splits node.splits)
  show "same_outside A w (del_node p w)" using assms * by (auto simp: same_outside_def)
qed

lemma touchesD:
  assumes "touches A m" "m w = (r, w')"
  shows "q \<notin> A \<Longrightarrow> node_at w' q = node_at w q" and "d \<notin> fst ` A \<Longrightarrow> dirs w' d = dirs w d"
    and "wf_dirs w \<Longrightarrow> wf_dirs w'" and "quiet w \<Longrightarrow> quiet w'"
    and "honest w \<Longrightarrow> honest w'"
  using assms unfolding touches_def same_outside_def honest_def
  by (metis snd_conv suffix_Nil set_mono_suffix subsetD)+

lemma touchesI: "(\<And>w r w'. m w = (r, w') \<Longrightarrow> same_outside A w w') \<Longrightarrow> touches A m"
  unfolding touches_def by (metis surjective_pairing)

lemma touches_same: "touches A m \<Longrightarrow> m w = (r, w') \<Longrightarrow> same_outside A w w'"
  unfolding touches_def by (metis snd_conv)

lemma touches_bytes: "touches A m \<Longrightarrow> m w = (r, w') \<Longrightarrow> p \<notin> A \<Longrightarrow> bytes_at w' p = bytes_at w p"
  by (simp add: bytes_at_def touchesD(1))

lemma touches_mono: "touches A m \<Longrightarrow> A \<subseteq> B \<Longrightarrow> touches B m"
  unfolding touches_def same_outside_def by (meson image_mono in_mono)

lemma reads_only_touches: "reads_only m \<Longrightarrow> touches A m"
  by (rule touchesI) (auto elim!: reads_onlyE simp: same_outside_def)

lemma touches_and_then [frame]:
  assumes "touches A m" "\<And>x. touches A (f x)"
  shows "touches A (and_then m f)"
proof (rule touchesI)
  fix w r2 w2
  assume *: "and_then m f w = (r2, w2)"
  obtain r w' where m: "m w = (r, w')" by fastforce
  note one = touches_same [OF assms(1) m]
  show "same_outside A w w2"
  proof (cases r)
    case (Inl e)
    then show ?thesis using * one m by (simp add: and_then_def)
  next
    case (Inr x)
    then have "f x w' = (r2, w2)" using * m by (simp add: and_then_def)
    then show ?thesis using one touches_same [OF assms(2)] same_outside_trans by blast
  qed
qed

lemma touches_attempt [frame]: "touches A m \<Longrightarrow> touches A (attempt m)"
  by (simp add: touches_def attempt_def split_beta)

lemma touches_map_error [frame]: "touches A m \<Longrightarrow> touches A (map_error f m)"
  by (simp add: touches_def map_error_def split_beta)

lemma touches_control [frame]:
  "(\<And>e. touches A (f e)) \<Longrightarrow> (\<And>x. touches A (g x)) \<Longrightarrow> touches A (case r of Inl e \<Rightarrow> f e | Inr x \<Rightarrow> g x)"
  "touches A h \<Longrightarrow> (\<And>x. touches A (g x)) \<Longrightarrow> touches A (case q of None \<Rightarrow> h | Some x \<Rightarrow> g x)"
  "(b \<Longrightarrow> touches A h) \<Longrightarrow> (\<not> b \<Longrightarrow> touches A h') \<Longrightarrow> touches A (if b then h else h')"
  "(\<And>x y. touches A (k x y)) \<Longrightarrow> touches A (case z of (x, y) \<Rightarrow> k x y)"
  "touches A (g v) \<Longrightarrow> touches A (Let v g)"
  by (auto split: sum.splits option.splits prod.splits)

lemma touches_ok [frame]: "touches A (ok x)" "touches A (err e)" "touches A (from_result r)"
  by (simp_all add: touches_def ok_def err_def from_result_def)

lemma touches_syscall:
  assumes "\<And>w. same_outside A w (snd (act w))" and "\<And>k w. same_outside A w (torn k w)"
  shows "touches A (syscall torn act)"
  unfolding touches_def
proof
  fix w
  show "same_outside A w (snd (syscall torn act w))"
  proof (cases "script w")
    case Nil
    then show ?thesis using assms(1) [of w] by (simp add: syscall_def)
  next
    case (Cons c s)
    have "same_outside A (w\<lparr>script := s\<rparr>) (snd (syscall torn act w))"
      using assms(1) [of "w\<lparr>script := s\<rparr>"] assms(2) [of "w\<lparr>script := s\<rparr>"] Cons
      by (simp add: syscall_def split: option.splits prod.splits)
    then show ?thesis by (rule same_outside_script) (simp add: Cons suffix_ConsI)
  qed
qed

lemma touches_create [frame]: "p \<in> A \<Longrightarrow> touches A (fs_create p)"
  unfolding fs_create_def
  by (rule touches_syscall) (auto simp: same_outside_nodes split: option.splits node.splits)

lemma touches_open_append [frame]: "p \<in> A \<Longrightarrow> touches A (fs_open_append p)"
  unfolding fs_open_append_def
  by (rule touches_syscall) (auto simp: same_outside_nodes split: option.splits node.splits)

lemma touches_write_all [frame]: "p \<in> A \<Longrightarrow> touches A (fs_write_all p bs)"
  unfolding fs_write_all_def
  by (rule touches_syscall) (auto simp: same_outside_nodes)

lemma touches_remove_file [frame]: "p \<in> A \<Longrightarrow> touches A (fs_remove_file p)"
  unfolding fs_remove_file_def
  by (rule touches_syscall) (auto simp: same_outside_nodes split: option.splits node.splits)

lemma touches_rename [frame]: "p \<in> A \<Longrightarrow> q \<in> A \<Longrightarrow> touches A (fs_rename p q)"
  unfolding fs_rename_def
  by (rule touches_syscall)
    (auto intro: same_outside_nodes same_outside_trans split: option.splits node.splits)

lemma touches_read_calls [frame]:
  "touches A fs_call" "touches A (fs_read p)" "touches A (fs_open p)" "touches A (fs_metadata p)"
  "touches A (fs_read_dir d)" "touches A (fs_read_at p off n)" "touches A (fs_read_exact p off n)"
  "touches A (fs_read_to_string p)"
  by (intro reads_only_touches reads)+

text \<open>What a write leaves, whether it succeeds or fails half way.\<close>

lemma fs_write_all_outcome:
  assumes "fs_write_all p bs w = (r, w')" "node_at w p = Some (Regular old)"
  shows "\<exists>k. node_at w' p = Some (Regular (old @ take k bs)) \<and> (r = Inr () \<longrightarrow> take k bs = bs)"
proof (cases "\<exists>e k s. script w = Some (e, k) # s")
  case True
  then obtain e k s where "script w = Some (e, k) # s" by blast
  then have "r = Inl e" "w' = append_bytes p (take k bs) (w\<lparr>script := s\<rparr>)"
    using assms(1) by (simp_all add: fs_write_all_def syscall_def)
  then show ?thesis using assms(2) by (auto simp: append_bytes_def)
next
  case False
  then have "node_at w' p = node_at (append_bytes p bs w) p"
    using assms(1)
    by (auto simp: fs_write_all_def syscall_def split: list.splits option.splits)
  then show ?thesis
    using assms(2) by (intro exI [of _ "length bs"]) (simp add: append_bytes_def)
qed

end
