(* ===== verification/Protocol.thy ===== *)
theory Protocol
  imports Rust_Std
begin

text \<open>
  The wire types of \<open>src/lib.rs\<close> and \<open>src/protocol.rs\<close>: the request a client sends, the
  one-shot response and the frames of an await stream, with the size limits both sides share.
\<close>

section \<open>Limits\<close>

definition MAX_RESPONSE_BYTES :: usize where
  [limits]: "MAX_RESPONSE_BYTES = 2 * 1024 * 1024"

definition MAX_REQUEST_BYTES :: usize where
  [limits]: "MAX_REQUEST_BYTES = 1024 * 1024"

definition MAX_PENDING_ENTRIES :: usize where
  [limits]: "MAX_PENDING_ENTRIES = 1024"

definition MAX_AWAIT_FRAME_BYTES :: usize where
  [limits]: "MAX_AWAIT_FRAME_BYTES = 64 * 1024"

definition AWAIT_HEARTBEAT_SECS :: u64 where
  [limits]: "AWAIT_HEARTBEAT_SECS = 15"

definition AWAIT_IDLE_TIMEOUT_SECS :: u64 where
  [limits]: "AWAIT_IDLE_TIMEOUT_SECS = 45"

section \<open>Messages\<close>

record comment_request =
  owner :: string
  repo :: string
  pr_number :: u64
  body :: string

datatype await_event =
    Waiting (event_eta: u64)
  | PostedEvent (event_url: string)
  | ErrorEvent (event_message: string)

record history_cursor =
  hc_offset :: u64
  hc_end_offset :: u64

datatype request =
    Put comment_request bool
  | ListReq
  | Bump string
  | Bust string
  | Del string
  | Await string
  | Hist "usize option" "history_cursor option"

record pending_entry =
  pe_id :: string
  eta_seconds :: u64
  pe_owner :: string
  pe_repo :: string
  pe_pr_number :: u64
  pe_body :: string

record history_entry =
  he_id :: string
  he_posted_at :: u64
  he_success :: bool
  he_error :: "string option"
  he_token_hash :: string
  he_owner :: string
  he_repo :: string
  he_pr_number :: u64
  he_body :: string

datatype response =
    RespOk "pending_entry option" "pending_entry list option" "history_entry list option"
      "history_cursor option"
  | RespError string

definition response_ok :: response where
  "response_ok = RespOk None None None None"

definition response_entry :: "pending_entry \<Rightarrow> response" where
  "response_entry e = RespOk (Some e) None None None"

definition response_entries :: "pending_entry list \<Rightarrow> response" where
  "response_entries es = RespOk None (Some es) None None"

definition response_history :: "history_entry list \<Rightarrow> history_cursor option \<Rightarrow> response" where
  "response_history hs c = RespOk None None (Some hs) c"

definition response_error :: "string \<Rightarrow> response" where
  "response_error message = RespError message"

fun is_error :: "response \<Rightarrow> bool" where
  "is_error (RespError _) = True"
| "is_error (RespOk _ _ _ _) = False"

text \<open>The JSON codecs of the wire types are \<open>serde_json\<close>, a parameter of the code that uses them.\<close>

record wire =
  request_to_vec :: "request \<Rightarrow> string + string"
  request_from_slice :: "string \<Rightarrow> string + request"
  response_to_vec :: "response \<Rightarrow> string + string"
  response_from_slice :: "string \<Rightarrow> string + response"
  pending_to_vec :: "pending_entry \<Rightarrow> string + string"
  history_entry_to_vec :: "history_entry \<Rightarrow> string + string"
  event_to_vec :: "await_event \<Rightarrow> string + string"
  event_from_slice :: "string \<Rightarrow> string + await_event"

end
