(* ===== verification/Store_Types.thy ===== *)
theory Store_Types
  imports Filesystem Protocol
begin

text \<open>
  The data of the queue store (\<open>crates/comenqd/src/store.rs\<close> and the record types of its
  submodules): entries, history, completion and tombstone records, the error type with its
  bounded categories, the paths below the queue directory, and the derivation of an entry's
  identifier. The UUID generator, the sizes in which a buffered reader hands out a file, and
  the JSON encoders and decoders of \<open>serde_json\<close> are not part of the repository: they are the
  fields of the parameter \<open>ext\<close>, which every definition that uses them takes as an argument.
\<close>

unbundle bit_operations_syntax

section \<open>Records\<close>

record stored_entry =
  ident :: string
  incarnation :: string
  order :: i64
  flutter_seconds :: u64
  enqueued_at :: u64
  not_before :: u64
  claim_token :: "string option"
  request :: comment_request

record history_record =
  attempt_id :: string
  hr_id :: string
  posted_at :: u64
  success :: bool
  hr_error :: "string option"
  token_hash :: string
  comment_url :: "string option"
  hr_incarnation :: string
  hr_request :: comment_request

record completion_record =
  cr_id :: string
  cr_posted_at :: u64
  cr_claim_token :: "string option"
  cr_history :: "history_record option"
  cr_history_offset :: "u64 option"

record await_deletion_record =
  ad_incarnation :: string

record put_options =
  cooldown :: u64
  po_flutter_seconds :: u64
  immediate :: bool

text \<open>What the store takes from outside the repository.\<close>

record ext =
  new_uuid :: "nat \<Rightarrow> string"
  chunk :: "nat \<Rightarrow> nat"
  entry_to_vec_pretty :: "stored_entry \<Rightarrow> string + string"
  entry_from_slice :: "string \<Rightarrow> string + stored_entry"
  string_to_vec :: "string \<Rightarrow> string + string"
  history_to_vec :: "history_record \<Rightarrow> string + string"
  history_from_slice :: "string \<Rightarrow> string + history_record"
  completion_to_vec :: "completion_record \<Rightarrow> string + string"
  completion_from_str :: "string \<Rightarrow> string + completion_record"
  deletion_to_vec :: "await_deletion_record \<Rightarrow> string + string"
  deletion_from_slice :: "string \<Rightarrow> string + await_deletion_record"

text \<open>\<open>Uuid::new_v4().to_string()\<close>: the next value of the generator.\<close>

definition draw_uuid :: "ext \<Rightarrow> ('e, string) eff" where
  "draw_uuid X w = (Inr (new_uuid X (uuids_used w)), w\<lparr>uuids_used := Suc (uuids_used w)\<rparr>)"

lemma run_draw_uuid [run_simps]:
  "draw_uuid X w = (Inr (new_uuid X (uuids_used w)), w\<lparr>uuids_used := Suc (uuids_used w)\<rparr>)"
  by (simp add: draw_uuid_def)

section \<open>Errors\<close>

datatype store_error =
    Io io_error
  | Serde string
  | UnknownId string
  | InvalidId string
  | InvalidRepositoryComponent string
  | LastPost parse_int_error
  | LastAttempt parse_int_error
  | BlockingTask string
  | QueueFull usize
  | EntryTooLarge u64 u64
  | QueueByteBudgetExceeded u64 u64 u64

type_synonym 'a store = "(store_error, 'a) eff"

fun category :: "store_error \<Rightarrow> string" where
  "category (Io e) =
     (case kind_of e of
        NotFound \<Rightarrow> ''not_found''
      | PermissionDenied \<Rightarrow> ''permission_denied''
      | InvalidData \<Rightarrow> ''invalid_data''
      | _ \<Rightarrow> ''io_error'')"
| "category (Serde _) = ''invalid_json''"
| "category (UnknownId _) = ''unknown_identifier''"
| "category (InvalidId _) = ''unsafe_identifier''"
| "category (InvalidRepositoryComponent _) = ''invalid_repository_component''"
| "category (LastPost _) = ''invalid_last_post''"
| "category (LastAttempt _) = ''invalid_last_attempt''"
| "category (BlockingTask _) = ''blocking_task''"
| "category (QueueFull _) = ''queue_full''"
| "category (EntryTooLarge _ _) = ''entry_too_large''"
| "category (QueueByteBudgetExceeded _ _ _) = ''byte_budget_exceeded''"

fun is_unexpected :: "store_error \<Rightarrow> bool" where
  "is_unexpected (Io _) = True"
| "is_unexpected (Serde _) = True"
| "is_unexpected (LastPost _) = True"
| "is_unexpected (LastAttempt _) = True"
| "is_unexpected (BlockingTask _) = True"
| "is_unexpected _ = False"

text \<open>The conversion of an I/O error by the question-mark operator.\<close>

abbreviation io :: "(io_error, 'a) eff \<Rightarrow> 'a store" where
  "io m \<equiv> map_error Io m"

text \<open>The same for a \<open>serde_json\<close> result.\<close>

abbreviation serde :: "string + 'a \<Rightarrow> 'a store" where
  "serde r \<equiv> from_result (map_err Serde r)"

section \<open>Paths\<close>

definition MAX_QUEUE_ENTRIES :: usize where
  [limits]: "MAX_QUEUE_ENTRIES = 1024"

definition last_post_path :: path where
  "last_post_path = (QueueDir, ''last_post'')"

definition last_attempt_path :: path where
  "last_attempt_path = (QueueDir, ''last_attempt'')"

definition history_path :: path where
  "history_path = (QueueDir, ''history.jsonl'')"

definition completion_path :: path where
  "completion_path = (QueueDir, ''completion'')"

lemmas path_defs = last_post_path_def last_attempt_path_def history_path_def completion_path_def

definition is_valid_id :: "string \<Rightarrow> bool" where
  "is_valid_id i \<longleftrightarrow> length i = 8 \<and> list_all is_ascii_hexdigit i"

definition entry_path :: "string \<Rightarrow> path store" where
  "entry_path i = (if is_valid_id i then ok (EntriesDir, i @ ''.json'') else err (InvalidId i))"

definition await_deletion_path :: "string \<Rightarrow> path store" where
  "await_deletion_path i =
     (if is_valid_id i then ok (AwaitDeletionsDir, i) else err (InvalidId i))"

lemma hexdigit_not_dot: "is_ascii_hexdigit c \<Longrightarrow> c \<noteq> CHR ''.''"
  by (auto simp: is_ascii_hexdigit_def is_ascii_digit_def byte_def)

lemma valid_id_no_dot: "is_valid_id i \<Longrightarrow> CHR ''.'' \<notin> set i"
  by (auto simp: is_valid_id_def list_all_iff dest: hexdigit_not_dot)

lemma valid_id_not_Nil: "is_valid_id i \<Longrightarrow> i \<noteq> []"
  by (auto simp: is_valid_id_def)

lemma entry_file_name:
  assumes "is_valid_id i"
  shows "file_stem (i @ ''.json'') = Some i" and "extension (i @ ''.json'') = Some ''json''"
    and "with_extension (i @ ''.json'') ''tmp'' = i @ ''.tmp''"
proof -
  have *: "i @ ''.json'' = i @ ''.'' @ ''json''" "i @ ''.tmp'' = i @ ''.'' @ ''tmp''" by simp_all
  show stem: "file_stem (i @ ''.json'') = Some i"
    unfolding * using valid_id_not_Nil [OF assms] by (intro file_stem_append) auto
  show "extension (i @ ''.json'') = Some ''json''"
    unfolding * using valid_id_not_Nil [OF assms] by (intro extension_append) auto
  show "with_extension (i @ ''.json'') ''tmp'' = i @ ''.tmp''"
    using stem by (simp add: with_extension_def)
qed

section \<open>Identifiers\<close>

definition FNV_OFFSET :: "64 word" where
  "FNV_OFFSET = 0xcbf29ce484222325"

definition FNV_PRIME :: "64 word" where
  "FNV_PRIME = 0x00000100000001b3"

text \<open>The closure \<open>eat\<close>: one FNV-1a round per byte, with wrapping multiplication.\<close>

definition eat :: "64 word \<Rightarrow> string \<Rightarrow> 64 word" where
  "eat = foldl (\<lambda>hash b. (hash XOR of_nat (byte b)) * FNV_PRIME)"

definition entry_id_with_salt :: "comment_request \<Rightarrow> u64 \<Rightarrow> u64 option \<Rightarrow> string" where
  "entry_id_with_salt req t salt =
     (let hash = eat FNV_OFFSET (owner req);
          hash = eat hash [char_of (0::nat)];
          hash = eat hash (repo req);
          hash = eat hash [char_of (0::nat)];
          hash = eat hash (to_le_bytes (pr_number req));
          hash = eat hash (body req);
          hash = eat hash (to_le_bytes t);
          hash = (case salt of None \<Rightarrow> hash | Some n \<Rightarrow> eat hash (to_le_bytes n))
      in take 8 (hex16 (unat hash)))"

definition entry_id :: "comment_request \<Rightarrow> u64 \<Rightarrow> string" where
  "entry_id req t = entry_id_with_salt req t None"

lemma eat_append: "eat h (xs @ ys) = eat (eat h xs) ys"
  by (simp add: eat_def)

lemma entry_id_with_salt_valid: "is_valid_id (entry_id_with_salt req t salt)"
  by (auto simp: entry_id_with_salt_def Let_def is_valid_id_def list_all_iff
      intro: hex16_hexdigit dest: in_set_takeD)

end
