(* ===== verification/History.thy ===== *)
theory History
  imports Store_Types
begin

text \<open>
  The posting-history log (\<open>crates/comenqd/src/store/history.rs\<close> with its submodules
  \<open>record.rs\<close> and \<open>recent.rs\<close>): an append-only file of JSON lines, read forwards in bounded
  pages and backwards in chunks. The readers are modelled at the level of bytes, buffers and
  offsets, as the source has them; the second half of the theory gives the reference
  description, the list of decodable lines of a file, and shows that the buffered and the
  chunked readers compute it whatever sizes the buffers come in.
\<close>

section \<open>Attempt records\<close>

definition MAX_HISTORY_ERROR_BYTES :: usize where
  [limits]: "MAX_HISTORY_ERROR_BYTES = 64 * 1024"

function floor_char_boundary :: "string \<Rightarrow> nat \<Rightarrow> nat" where
  "floor_char_boundary e i =
     (if is_char_boundary e i then i else floor_char_boundary e (i - 1))"
  by pat_completeness auto

termination
  by (relation "measure snd") (auto simp: is_char_boundary_def)

declare floor_char_boundary.simps [simp del]

definition bounded_error :: "string \<Rightarrow> string" where
  "bounded_error e =
     (if length e \<le> MAX_HISTORY_ERROR_BYTES then e
      else take (floor_char_boundary e (MAX_HISTORY_ERROR_BYTES - 3)) e @ ''...'')"

definition history_success ::
  "ext \<Rightarrow> stored_entry \<Rightarrow> string \<Rightarrow> u64 \<Rightarrow> string option \<Rightarrow> ('e, history_record) eff" where
  "history_success X entry th at url =
     and_then (draw_uuid X) (\<lambda>uuid. ok
       \<lparr>attempt_id = uuid, hr_id = ident entry, posted_at = at, success = True, hr_error = None,
        token_hash = th, comment_url = url, hr_incarnation = incarnation entry,
        hr_request = request entry\<rparr>)"

definition history_failure ::
  "ext \<Rightarrow> stored_entry \<Rightarrow> string \<Rightarrow> u64 \<Rightarrow> string \<Rightarrow> ('e, history_record) eff" where
  "history_failure X entry th at e =
     and_then (draw_uuid X) (\<lambda>uuid. ok
       \<lparr>attempt_id = uuid, hr_id = ident entry, posted_at = at, success = False,
        hr_error = Some (bounded_error e), token_hash = th, comment_url = None,
        hr_incarnation = incarnation entry, hr_request = request entry\<rparr>)"

section \<open>Appending\<close>

definition MAX_HISTORY_LINE_BYTES :: usize where
  [limits]: "MAX_HISTORY_LINE_BYTES = 2 * 1024 * 1024"

record history_position =
  hp_offset :: u64
  hp_end_offset :: u64

record history_record_at =
  record_of :: history_record
  position_after :: history_position

record history_page =
  records :: "history_record_at list"
  next_pos :: "history_position option"

definition empty_page :: history_page where
  "empty_page = \<lparr>records = [], next_pos = None\<rparr>"

definition has_final_newline :: "nat \<Rightarrow> (io_error, bool) eff" where
  "has_final_newline file_len =
     and_then fs_call (\<lambda>_.
     and_then (fs_read_exact history_path (file_len - 1) 1) (\<lambda>last_byte.
     ok (last_byte ! 0 = newline)))"

definition append_line :: "string \<Rightarrow> nat \<Rightarrow> unit store" where
  "append_line line file_len =
     and_then (if file_len > 0
               then and_then (io (has_final_newline file_len)) (\<lambda>b.
                      if \<not> b then io (fs_write_all history_path [newline]) else ok ())
               else ok ()) (\<lambda>_.
     and_then (io (fs_write_all history_path line)) (\<lambda>_.
     io fs_call))"

definition sync_parent_directory :: "unit store" where
  "sync_parent_directory = and_then (io fs_call) (\<lambda>_. io fs_call)"

definition history_append :: "ext \<Rightarrow> history_record \<Rightarrow> unit store" where
  "history_append X r =
     and_then (serde (history_to_vec X r)) (\<lambda>vec.
     let line = vec @ [newline] in
     and_then (io (fs_open_append history_path)) (\<lambda>_.
     and_then (io (fs_metadata history_path)) (\<lambda>(_, file_len).
     and_then (append_line line file_len) (\<lambda>_.
     if file_len = 0 then sync_parent_directory else ok ()))))"

section \<open>Forward reading\<close>

text \<open>\<open>BufRead::fill_buf\<close>: some bytes from the reader's position, none only at the end.\<close>

definition fill_buf :: "ext \<Rightarrow> nat \<Rightarrow> (io_error, string) eff" where
  "fill_buf X off = fs_read_at history_path off (Suc (chunk X off))"

definition snapshot_changed :: io_error where
  "snapshot_changed = IoError UnexpectedEof ''history log changed while reading a snapshot''"

text \<open>The inner block of the loop: what one buffer contributes to the line. It returns the number
  of bytes consumed, whether the line ended, the line so far and the oversize flag.\<close>

definition take_buffer ::
  "string \<Rightarrow> nat \<Rightarrow> string \<Rightarrow> bool \<Rightarrow> nat \<times> bool \<times> string \<times> bool" where
  "take_buffer available remaining line oversized =
     (let visible = min (length available) remaining;
          line_end = position (\<lambda>b. b = newline) (take visible available);
          line_len = (case line_end of None \<Rightarrow> visible | Some i \<Rightarrow> i + 1)
      in if \<not> oversized \<and> length line + line_len \<le> MAX_HISTORY_LINE_BYTES
         then (line_len, line_end \<noteq> None, line @ take line_len available, oversized)
         else (line_len, line_end \<noteq> None, line, True))"

lemma take_buffer_consumes:
  assumes tb: "take_buffer available remaining line ov = (n, ended, line', ov')"
    and "available \<noteq> []" "0 < remaining"
  shows "0 < n \<and> n \<le> remaining \<and> n \<le> length available"
proof -
  let ?v = "min (length available) remaining"
  let ?p = "position (\<lambda>b. b = newline) (take ?v available)"
  have n: "n = (case ?p of None \<Rightarrow> ?v | Some i \<Rightarrow> i + 1)"
    using tb by (auto simp: take_buffer_def Let_def split: if_splits)
  have v: "0 < ?v" using assms(2,3) by simp
  show ?thesis
  proof (cases ?p)
    case None
    then show ?thesis using n v by simp
  next
    case (Some i)
    then have "i < ?v" using position_SomeD(1) [OF Some] by simp
    then show ?thesis using n Some by simp
  qed
qed

function read_snapshot_line ::
  "ext \<Rightarrow> nat \<Rightarrow> nat \<Rightarrow> string \<Rightarrow> bool \<Rightarrow> (io_error, nat \<times> string \<times> bool) eff" where
  "read_snapshot_line X current_offset end_offset line oversized w =
     (if current_offset < end_offset then
        (case fill_buf X current_offset w of
           (Inl e, w') \<Rightarrow> (Inl e, w')
         | (Inr available, w') \<Rightarrow>
             if available = [] then (Inl snapshot_changed, w')
             else
               (case take_buffer available (end_offset - current_offset) line oversized of
                  (consumed, line_ended, line', oversized') \<Rightarrow>
                    if line_ended then (Inr (current_offset + consumed, line', oversized'), w')
                    else read_snapshot_line X (current_offset + consumed) end_offset line' oversized' w'))
      else (Inr (current_offset, line, oversized), w))"
  by pat_completeness auto

termination
proof (relation "measure (\<lambda>(X, cur, end, line, ov, w). end - cur)")
  fix X cur endo line ov w x w' available x1 n x2 ended x3 line' ov'
  assume "cur < endo" "available \<noteq> []"
    "(x1, x2) = take_buffer available (endo - cur) line ov" "(ended, x3) = x2" "(line', ov') = x3"
  then have "0 < x1"
    using take_buffer_consumes [of available "endo - cur" line ov x1 ended line' ov'] by auto
  then show "((X, cur + x1, endo, line', ov', w'), X, cur, endo, line, ov, w)
      \<in> measure (\<lambda>(X, cur, end, line, ov, w). end - cur)"
    using \<open>cur < endo\<close> by simp
qed simp

declare read_snapshot_line.simps [simp del]

definition read_record ::
  "ext \<Rightarrow> nat \<Rightarrow> nat \<Rightarrow> (history_record_at option \<times> nat) store" where
  "read_record X current_offset end_offset =
     and_then (io (read_snapshot_line X current_offset end_offset [] False))
       (\<lambda>(current, line, oversized).
          if oversized then ok (None, current)
          else if list_all is_ascii_whitespace line then ok (None, current)
          else case history_from_slice X line of
                 Inr r \<Rightarrow> ok (Some \<lparr>record_of = r,
                                  position_after = \<lparr>hp_offset = current, hp_end_offset = end_offset\<rparr>\<rparr>,
                            current)
               | Inl _ \<Rightarrow> ok (None, current))"

lemma read_snapshot_line_progress:
  "read_snapshot_line X cur end_offset line ov w = (Inr (cur', line', ov'), w') \<Longrightarrow>
   cur \<le> cur' \<and> (cur < end_offset \<longrightarrow> cur < cur')"
proof (induction X cur end_offset line ov w arbitrary: cur' line' ov' w'
    rule: read_snapshot_line.induct)
  case (1 X cur end_offset line ov w)
  show ?case
  proof (cases "cur < end_offset")
    case False
    then show ?thesis using "1.prems" by (simp add: read_snapshot_line.simps [of X cur])
  next
    case True
    obtain r w1 where r: "fill_buf X cur w = (r, w1)" by fastforce
    with "1.prems" True obtain av where av: "r = Inr av" "av \<noteq> []"
      by (cases r) (auto simp: read_snapshot_line.simps [of X cur] split: if_splits)
    obtain n ended l o' where tb: "take_buffer av (end_offset - cur) line ov = (n, ended, l, o')"
      using prod_cases4 by blast
    then have n: "0 < n" using take_buffer_consumes [OF tb av(2)] True by simp
    show ?thesis
    proof (cases ended)
      case True
      then show ?thesis using "1.prems" \<open>cur < end_offset\<close> r av tb n
        by (auto simp: read_snapshot_line.simps [of X cur])
    next
      case False
      then have "read_snapshot_line X (cur + n) end_offset l o' w1 = (Inr (cur', line', ov'), w')"
        using "1.prems" \<open>cur < end_offset\<close> r av tb by (simp add: read_snapshot_line.simps [of X cur])
      then show ?thesis
        using "1.IH" [OF True r [symmetric] av(1) av(2) tb [symmetric] refl refl False] n by fastforce
    qed
  qed
qed

lemma read_record_progress:
  assumes "read_record X cur end_offset w = (Inr (item, cur'), w')" "cur < end_offset"
  shows "cur < cur'"
  using assms
  by (auto simp: read_record_def elim!: and_then_InrE map_error_InrE
      dest!: read_snapshot_line_progress simp: run_simps split: if_splits sum.splits)

function read_records ::
  "ext \<Rightarrow> nat \<Rightarrow> nat \<Rightarrow> nat \<Rightarrow> history_record_at list \<Rightarrow> (history_record_at list \<times> nat) store" where
  "read_records X current_offset end_offset page_size recs w =
     (if current_offset < end_offset \<and> length recs < page_size then
        (case read_record X current_offset end_offset w of
           (Inl e, w') \<Rightarrow> (Inl e, w')
         | (Inr (item, current'), w') \<Rightarrow>
             read_records X current' end_offset page_size
               (case item of None \<Rightarrow> recs | Some r \<Rightarrow> recs @ [r]) w')
      else (Inr (recs, current_offset), w))"
  by pat_completeness auto

termination
proof (relation "measure (\<lambda>(X, cur, end, n, recs, w). end - cur)")
  fix X cur endo page_size w r w' p item cur' and recs :: "history_record_at list"
  assume "cur < endo \<and> length recs < page_size" "(r, w') = read_record X cur endo w"
    "r = Inr p" "(item, cur') = p"
  then show "((X, cur', endo, page_size, case item of None \<Rightarrow> recs | Some r \<Rightarrow> recs @ [r], w'),
      X, cur, endo, page_size, recs, w) \<in> measure (\<lambda>(X, cur, end, n, recs, w). end - cur)"
    using read_record_progress [of X cur endo w item cur' w'] by auto
qed simp

declare read_records.simps [simp del]

definition invalid_position :: io_error where
  "invalid_position = IoError InvalidData ''history cursor is invalid''"

definition validate_position :: "history_position \<Rightarrow> nat \<Rightarrow> unit store" where
  "validate_position pos file_len =
     (if hp_offset pos > hp_end_offset pos \<or> hp_end_offset pos > file_len
      then err (Io invalid_position)
      else if hp_offset pos = 0 then ok ()
      else
        and_then (io fs_call) (\<lambda>_.
        and_then (io (fs_read_exact history_path (hp_offset pos - 1) 1)) (\<lambda>previous_byte.
        if previous_byte ! 0 \<noteq> newline then err (Io invalid_position) else ok ())))"

definition open_history_snapshot :: "bool \<Rightarrow> nat option store" where
  "open_history_snapshot missing_is_empty =
     and_then (attempt (fs_open history_path)) (\<lambda>r.
       case r of
         Inr _ \<Rightarrow> and_then (io (fs_metadata history_path)) (\<lambda>(_, file_len). ok (Some file_len))
       | Inl e \<Rightarrow> if missing_is_empty \<and> kind_of e = NotFound then ok None else err (Io e))"

section \<open>Reverse scanning\<close>

definition REVERSE_CHUNK_BYTES :: usize where
  [limits]: "REVERSE_CHUNK_BYTES = 16 * 1024"

definition finish_line :: "ext \<Rightarrow> nat option \<Rightarrow> string \<Rightarrow> bool \<Rightarrow> history_record option" where
  "finish_line X line_start reversed_line oversized =
     (if line_start = None then None
      else if oversized then None
      else if list_all is_ascii_whitespace (rev reversed_line) then None
      else case history_from_slice X (rev reversed_line) of Inr r \<Rightarrow> Some r | Inl _ \<Rightarrow> None)"

text \<open>
  The loop over the bytes of one chunk, from its end. The closure \<open>accept\<close> carries its captured
  state \<open>'s\<close>. The left result is an accepted record, the right one the loop's variables.
\<close>

fun scan_bytes ::
  "ext \<Rightarrow> ('s \<Rightarrow> nat \<Rightarrow> history_record \<Rightarrow> bool \<times> 's) \<Rightarrow> (nat \<times> char) list \<Rightarrow> 's \<Rightarrow> string
     \<Rightarrow> nat option \<Rightarrow> bool \<Rightarrow> (history_record \<times> 's) + ('s \<times> string \<times> nat option \<times> bool)" where
  "scan_bytes X accept [] st reversed_line line_start oversized =
     Inr (st, reversed_line, line_start, oversized)"
| "scan_bytes X accept ((offset, b) # rest) st reversed_line line_start oversized =
     (if b = newline then
        (case finish_line X line_start reversed_line oversized of
           None \<Rightarrow> scan_bytes X accept rest st [] None False
         | Some r \<Rightarrow>
             (case accept st (offset + 1) r of
                (True, st') \<Rightarrow> Inl (r, st')
              | (False, st') \<Rightarrow> scan_bytes X accept rest st' [] None False))
      else if oversized then scan_bytes X accept rest st reversed_line (Some offset) True
      else if length reversed_line = MAX_HISTORY_LINE_BYTES
        then scan_bytes X accept rest st [] (Some offset) True
      else scan_bytes X accept rest st (reversed_line @ [b]) (Some offset) False)"

function scan_chunks ::
  "ext \<Rightarrow> ('s \<Rightarrow> nat \<Rightarrow> history_record \<Rightarrow> bool \<times> 's) \<Rightarrow> nat \<Rightarrow> nat \<Rightarrow> 's \<Rightarrow> string
     \<Rightarrow> nat option \<Rightarrow> bool \<Rightarrow> (history_record option \<times> 's) store" where
  "scan_chunks X accept chunk_end minimum_offset st reversed_line line_start oversized w =
     (if chunk_end > minimum_offset then
        let chunk_start = max (chunk_end - REVERSE_CHUNK_BYTES) minimum_offset in
        (case and_then (io fs_call) (\<lambda>_.
                io (fs_read_exact history_path chunk_start (chunk_end - chunk_start))) w of
           (Inl e, w') \<Rightarrow> (Inl e, w')
         | (Inr bytes, w') \<Rightarrow>
             (case scan_bytes X accept (rev (zip [chunk_start..<chunk_end] bytes)) st
                     reversed_line line_start oversized of
                Inl (r, st') \<Rightarrow> (Inr (Some r, st'), w')
              | Inr (st', reversed', start', oversized') \<Rightarrow>
                  scan_chunks X accept chunk_start minimum_offset st' reversed' start' oversized' w'))
      else
        (case finish_line X line_start reversed_line oversized of
           None \<Rightarrow> (Inr (None, st), w)
         | Some r \<Rightarrow>
             (case accept st minimum_offset r of
                (True, st') \<Rightarrow> (Inr (Some r, st'), w)
              | (False, st') \<Rightarrow> (Inr (None, st'), w))))"
  by pat_completeness auto

termination
  by (relation "measure (\<lambda>(X, accept, chunk_end, m, st, rl, ls, ov, w). chunk_end)")
    (auto simp: limits)

declare scan_chunks.simps [simp del]

definition scan_reverse ::
  "ext \<Rightarrow> nat \<Rightarrow> nat \<Rightarrow> ('s \<Rightarrow> nat \<Rightarrow> history_record \<Rightarrow> bool \<times> 's) \<Rightarrow> 's
     \<Rightarrow> (history_record option \<times> 's) store" where
  "scan_reverse X end_offset minimum_offset accept st =
     scan_chunks X accept end_offset minimum_offset st [] None False"

definition count_recent :: "nat \<Rightarrow> nat \<times> nat \<Rightarrow> nat \<Rightarrow> history_record \<Rightarrow> bool \<times> (nat \<times> nat)" where
  "count_recent limit s start r = (case s of (seen, oldest) \<Rightarrow>
     (seen + 1 = limit, (seen + 1, start)))"

definition recent_start :: "ext \<Rightarrow> nat \<Rightarrow> nat \<Rightarrow> nat store" where
  "recent_start X end_offset limit =
     and_then (scan_reverse X end_offset 0 (count_recent limit) (0, end_offset))
       (\<lambda>(_, _, oldest). ok oldest)"

section \<open>Pages\<close>

definition page_offsets ::
  "ext \<Rightarrow> nat \<Rightarrow> history_position option \<Rightarrow> nat option \<Rightarrow> (nat \<times> nat) store" where
  "page_offsets X file_len pos recent_limit =
     (case pos of
        Some p \<Rightarrow> ok (hp_offset p, hp_end_offset p)
      | None \<Rightarrow>
          and_then (case recent_limit of
                      Some limit \<Rightarrow> if limit = 0 then ok file_len
                                    else recent_start X file_len limit
                    | None \<Rightarrow> ok 0) (\<lambda>offset.
          ok (offset, file_len)))"

definition read_snapshot_page ::
  "ext \<Rightarrow> nat \<Rightarrow> history_position option \<Rightarrow> nat \<Rightarrow> nat \<Rightarrow> nat \<Rightarrow> history_page store" where
  "read_snapshot_page X file_len pos offset end_offset page_size =
     and_then (case pos of Some p \<Rightarrow> validate_position p file_len | None \<Rightarrow> ok ()) (\<lambda>_.
     if offset \<ge> end_offset then ok empty_page
     else
       and_then (io fs_call) (\<lambda>_.
       and_then (read_records X offset end_offset page_size []) (\<lambda>(recs, current_offset).
       ok \<lparr>records = recs,
           next_pos = (if current_offset < end_offset
                       then Some \<lparr>hp_offset = current_offset, hp_end_offset = end_offset\<rparr>
                       else None)\<rparr>)))"

definition read_page ::
  "ext \<Rightarrow> history_position option \<Rightarrow> nat option \<Rightarrow> nat \<Rightarrow> history_page store" where
  "read_page X pos recent_limit page_size =
     (if page_size = 0 then err (Io (IoError InvalidInput ''page size is zero''))
      else
        and_then (open_history_snapshot (pos = None)) (\<lambda>opened.
          case opened of
            None \<Rightarrow> ok empty_page
          | Some file_len \<Rightarrow>
              and_then (page_offsets X file_len pos recent_limit) (\<lambda>(offset, end_offset).
              read_snapshot_page X file_len pos offset end_offset page_size)))"

section \<open>Looking attempts up\<close>

lemma io_line_progress:
  "io (read_snapshot_line X cur endo l ov) w = (Inr (cur', line', ov'), w') \<Longrightarrow>
   cur < endo \<Longrightarrow> endo - cur' < endo - cur"
  by (auto elim!: map_error_InrE dest!: read_snapshot_line_progress)

function contains_loop :: "ext \<Rightarrow> string \<Rightarrow> nat \<Rightarrow> nat \<Rightarrow> bool store" where
  "contains_loop X aid current_offset file_len w =
     (if current_offset < file_len then
        (case io (read_snapshot_line X current_offset file_len [] False) w of
           (Inl e, w') \<Rightarrow> (Inl e, w')
         | (Inr (current', line, oversized), w') \<Rightarrow>
             if oversized then contains_loop X aid current' file_len w'
             else
               (case history_from_slice X line of
                  Inr r \<Rightarrow> if attempt_id r = aid then (Inr True, w')
                          else contains_loop X aid current' file_len w'
                | Inl _ \<Rightarrow> contains_loop X aid current' file_len w'))
      else (Inr False, w))"
  by pat_completeness auto

termination
  by (relation "measure (\<lambda>(X, aid, cur, len, w). len - cur)")
    (auto dest!: sym [of _ "map_error _ _ _"] intro: io_line_progress)

declare contains_loop.simps [simp del]

definition contains_attempt :: "ext \<Rightarrow> string \<Rightarrow> nat \<Rightarrow> bool store" where
  "contains_attempt X aid search_from =
     and_then (attempt (fs_open history_path)) (\<lambda>r.
       case r of
         Inl e \<Rightarrow> if kind_of e = NotFound then ok False else err (Io e)
       | Inr _ \<Rightarrow>
           and_then (io (fs_metadata history_path)) (\<lambda>(_, file_len).
           let offset = min search_from file_len in
           and_then (io fs_call) (\<lambda>_.
           contains_loop X aid offset file_len)))"

definition append_once :: "ext \<Rightarrow> history_record \<Rightarrow> nat \<Rightarrow> unit store" where
  "append_once X r search_from =
     and_then (contains_attempt X (attempt_id r) search_from) (\<lambda>found.
     if found then ok () else history_append X r)"

record await_cursor =
  ac_offset :: u64
  ac_incarnation :: string

definition completes :: "string \<Rightarrow> await_cursor option \<Rightarrow> history_record \<Rightarrow> bool" where
  "completes i cursor r \<longleftrightarrow>
     hr_id r = i \<and> success r
     \<and> (case cursor of None \<Rightarrow> True | Some c \<Rightarrow> hr_incarnation r = ac_incarnation c)"

definition latest_completion :: "ext \<Rightarrow> string \<Rightarrow> await_cursor option \<Rightarrow> history_record option store" where
  "latest_completion X i cursor =
     and_then (open_history_snapshot True) (\<lambda>opened.
       case opened of
         None \<Rightarrow> ok None
       | Some end_offset \<Rightarrow>
           let minimum = (case cursor of None \<Rightarrow> 0 | Some c \<Rightarrow> ac_offset c) in
           and_then (scan_reverse X end_offset minimum (\<lambda>s _ r. (completes i cursor r, s)) ())
             (\<lambda>(r, _). ok r))"

end
