(* ===== verification/Codec_Laws.thy ===== *)
theory Codec_Laws
  imports Store_Types
begin

text \<open>
  What the daemon and the client rely on of \<open>serde_json\<close> and of the UUID generator, as named
  predicates on the parameters. They state documented behaviour: a value written with the
  derived serialiser is read back, the compact form has no raw newline, a truncated document
  does not parse, white space around a document does not matter, the pretty form of an entry
  grows with its fields, and a UUID prints as 36 characters that need no escaping.
\<close>

section \<open>History lines\<close>

text \<open>JSON allows white space behind a value, so a decoder accepts a line with its newline exactly
  when it accepts the line without it.\<close>

definition newline_blind :: "ext \<Rightarrow> bool" where
  "newline_blind X \<longleftrightarrow> (\<forall>l r. history_from_slice X (l @ [newline]) = Inr r \<longleftrightarrow> history_from_slice X l = Inr r)"

text \<open>What the log relies on of the JSON codec of history records: a record survives being written
  and read, its encoding is one line, a truncated encoding is no record, white space alone is
  no record, and a trailing newline makes no difference.\<close>

definition history_codec :: "ext \<Rightarrow> bool" where
  "history_codec X \<longleftrightarrow>
     newline_blind X
     \<and> (\<forall>r v. history_to_vec X r = Inr v \<longrightarrow>
          history_from_slice X v = Inr r \<and> newline \<notin> set v
          \<and> (\<forall>k < length v. \<not> is_ok (history_from_slice X (take k v))))
     \<and> (\<forall>l. list_all is_ascii_whitespace l \<longrightarrow> \<not> is_ok (history_from_slice X l))"

lemma history_codecD:
  assumes "history_codec X"
  shows "newline_blind X"
    and "history_to_vec X r = Inr v \<Longrightarrow> history_from_slice X v = Inr r"
    and "history_to_vec X r = Inr v \<Longrightarrow> newline \<notin> set v"
    and "history_to_vec X r = Inr v \<Longrightarrow> k < length v \<Longrightarrow> history_from_slice X (take k v) \<noteq> Inr q"
    and "list_all is_ascii_whitespace l \<Longrightarrow> history_from_slice X l \<noteq> Inr q"
  using assms by (force simp: history_codec_def)+

section \<open>Entries, journal and deletion markers\<close>

definition entry_codec :: "ext \<Rightarrow> bool" where
  "entry_codec X \<longleftrightarrow> (\<forall>e. \<exists>v. entry_to_vec_pretty X e = Inr v \<and> entry_from_slice X v = Inr e)"

definition completion_codec :: "ext \<Rightarrow> bool" where
  "completion_codec X \<longleftrightarrow>
     (\<forall>c. \<exists>v. completion_to_vec X c = Inr v \<and> valid_utf8 v \<and> completion_from_str X v = Inr c)"

definition deletion_codec :: "ext \<Rightarrow> bool" where
  "deletion_codec X \<longleftrightarrow>
     (\<forall>d. \<exists>v. deletion_to_vec X d = Inr v \<and> deletion_from_slice X v = Inr d)"

text \<open>
  The bytes the three fields a mutation may change take in the pretty form of an entry: the order in
  decimal, the claim as \<open>null\<close> or a string, and the incarnation, which an empty value leaves out
  together with its key, quotes and separators.
\<close>

definition encoded_length :: "ext \<Rightarrow> string \<Rightarrow> nat" where
  "encoded_length X s = (case string_to_vec X s of Inr v \<Rightarrow> length v | Inl _ \<Rightarrow> 0)"

definition field_bytes :: "ext \<Rightarrow> stored_entry \<Rightarrow> nat" where
  "field_bytes X e =
     length (show_int (order e))
     + (case claim_token e of None \<Rightarrow> 4 | Some t \<Rightarrow> encoded_length X t)
     + (if incarnation e = [] then 0 else 19 + encoded_length X (incarnation e))"

text \<open>Two entries that differ in those fields only have pretty forms that differ by their bytes.\<close>

definition entry_sizes :: "ext \<Rightarrow> bool" where
  "entry_sizes X \<longleftrightarrow>
     (\<forall>e order' claim' inc' v v'.
        entry_to_vec_pretty X e = Inr v \<longrightarrow>
        entry_to_vec_pretty X (e\<lparr>order := order', claim_token := claim', incarnation := inc'\<rparr>) = Inr v' \<longrightarrow>
        length v' + field_bytes X e
          = length v + field_bytes X (e\<lparr>order := order', claim_token := claim', incarnation := inc'\<rparr>))"

text \<open>A UUID is not empty and its JSON string has 38 bytes; strings always encode.\<close>

definition uuid_law :: "ext \<Rightarrow> bool" where
  "uuid_law X \<longleftrightarrow>
     (\<forall>n. new_uuid X n \<noteq> [] \<and> encoded_length X (new_uuid X n) = 38)
     \<and> (\<forall>s. \<exists>v. string_to_vec X s = Inr v \<and> 2 \<le> length v)"

end
