(* ===== verification/Reference_Codec.thy ===== *)
theory Reference_Codec
  imports Codec_Laws
begin

text \<open>
  The JSON codecs of \<open>serde_json\<close> are parameters of the development, and its theorems assume laws of
  them: a value survives encoding and decoding, an encoding is one line, a truncated encoding
  decodes to nothing. This theory builds a concrete codec that has those laws, so that every
  theorem with such an assumption can be applied to a concrete instance. The codec is
  assembled from prefix codes: an encoding followed by anything decodes to the value and the
  rest.
\<close>

section \<open>Prefix codes\<close>

type_synonym 'a decoder = "string \<Rightarrow> ('a \<times> string) option"

text \<open>The bytes allowed inside an encoding: neither a newline nor the closing brace.\<close>

definition inner :: "char \<Rightarrow> bool" where
  "inner c \<longleftrightarrow> c \<noteq> newline \<and> c \<noteq> CHR ''}''"

definition prefix_code :: "('a \<Rightarrow> string) \<Rightarrow> 'a decoder \<Rightarrow> bool" where
  "prefix_code enc dec \<longleftrightarrow> (\<forall>x s. dec (enc x @ s) = Some (x, s)) \<and> (\<forall>x. list_all inner (enc x))"

named_theorems codes

lemma prefix_codeD:
  assumes "prefix_code enc dec"
  shows "dec (enc x @ s) = Some (x, s)" and "list_all inner (enc x)"
  using assms by (simp_all add: prefix_code_def)

definition dec_map :: "('a \<Rightarrow> 'b) \<Rightarrow> 'a decoder \<Rightarrow> 'b decoder" where
  "dec_map g dec s = map_option (\<lambda>(x, t). (g x, t)) (dec s)"

lemma prefix_code_map:
  assumes "prefix_code enc dec" "\<And>x. g (f x) = x"
  shows "prefix_code (\<lambda>x. enc (f x)) (dec_map g dec)"
  using assms by (simp add: prefix_code_def dec_map_def)

definition enc_pair :: "('a \<Rightarrow> string) \<Rightarrow> ('b \<Rightarrow> string) \<Rightarrow> 'a \<times> 'b \<Rightarrow> string" where
  "enc_pair ea eb p = ea (fst p) @ eb (snd p)"

definition dec_pair :: "'a decoder \<Rightarrow> 'b decoder \<Rightarrow> ('a \<times> 'b) decoder" where
  "dec_pair da db s =
     (case da s of None \<Rightarrow> None
      | Some (x, t) \<Rightarrow> (case db t of None \<Rightarrow> None | Some (y, u) \<Rightarrow> Some ((x, y), u)))"

lemma prefix_code_pair [codes]:
  "prefix_code ea da \<Longrightarrow> prefix_code eb db \<Longrightarrow> prefix_code (enc_pair ea eb) (dec_pair da db)"
  by (simp add: prefix_code_def enc_pair_def dec_pair_def)

text \<open>Alternatives are marked by a letter.\<close>

definition enc_sum :: "('a \<Rightarrow> string) \<Rightarrow> ('b \<Rightarrow> string) \<Rightarrow> 'a + 'b \<Rightarrow> string" where
  "enc_sum ea eb v = (case v of Inl x \<Rightarrow> CHR ''L'' # ea x | Inr y \<Rightarrow> CHR ''R'' # eb y)"

definition dec_sum :: "'a decoder \<Rightarrow> 'b decoder \<Rightarrow> ('a + 'b) decoder" where
  "dec_sum da db s =
     (case s of [] \<Rightarrow> None
      | c # t \<Rightarrow> if c = CHR ''L'' then dec_map Inl da t
                 else if c = CHR ''R'' then dec_map Inr db t else None)"

lemma prefix_code_sum [codes]:
  "prefix_code ea da \<Longrightarrow> prefix_code eb db \<Longrightarrow> prefix_code (enc_sum ea eb) (dec_sum da db)"
  by (simp add: prefix_code_def enc_sum_def dec_sum_def dec_map_def inner_def newline_def split: sum.splits)

definition enc_unit :: "unit \<Rightarrow> string" where
  "enc_unit u = []"

definition dec_unit :: "unit decoder" where
  "dec_unit s = Some ((), s)"

lemma prefix_code_unit [codes]: "prefix_code enc_unit dec_unit"
  by (simp add: prefix_code_def enc_unit_def dec_unit_def)

section \<open>Strings and numbers\<close>

text \<open>A string ends with a quote; letters, digits and the dash stand for themselves, every other
  byte is a percent sign and two hexadecimal letters.\<close>

definition plain :: "char \<Rightarrow> bool" where
  "plain c \<longleftrightarrow> is_ascii_alphanumeric c \<or> c = CHR ''-''"

definition nibble :: "nat \<Rightarrow> char" where
  "nibble n = char_of (97 + n)"

definition enc_byte :: "char \<Rightarrow> string" where
  "enc_byte c = (if plain c then [c] else [CHR ''%'', nibble (byte c div 16), nibble (byte c mod 16)])"

definition enc_str :: "string \<Rightarrow> string" where
  "enc_str s = concat (map enc_byte s) @ [CHR 0x22]"

fun dec_str :: "string decoder" where
  "dec_str [] = None"
| "dec_str (c # s) =
     (if c = CHR 0x22 then Some ([], s)
      else if c = CHR ''%'' then
        (case s of a # b # r \<Rightarrow>
             map_option (\<lambda>(x, t). (char_of ((byte a - 97) * 16 + (byte b - 97)) # x, t)) (dec_str r)
         | _ \<Rightarrow> None)
      else map_option (\<lambda>(x, t). (c # x, t)) (dec_str s))"

lemma plain_ne: "plain c \<Longrightarrow> c \<noteq> CHR 0x22 \<and> c \<noteq> CHR ''%'' \<and> inner c"
  by (auto simp: plain_def inner_def newline_def is_ascii_alphanumeric_def is_ascii_digit_def byte_def)

lemma byte_nibble: "n < 16 \<Longrightarrow> byte (nibble n) = 97 + n"
  by (simp add: nibble_def)

lemma nibble_inner: "n < 16 \<Longrightarrow> inner (nibble n)"
proof -
  assume "n < 16"
  then have "byte (nibble n) = 97 + n" by (rule byte_nibble)
  moreover have "byte newline = 10" "byte (CHR ''}'') = 125" by (simp_all add: newline_def byte_def)
  ultimately show ?thesis using \<open>n < 16\<close> by (auto simp: inner_def)
qed

lemma dec_str_byte: "dec_str (enc_byte c @ s) = map_option (\<lambda>(x, t). (c # x, t)) (dec_str s)"
proof (cases "plain c")
  case True
  then show ?thesis using plain_ne [OF True] by (simp add: enc_byte_def)
next
  case False
  have n: "byte c div 16 < 16" "byte c mod 16 < 16" using byte_less [of c] by linarith+
  have "byte c div 16 * 16 + byte c mod 16 = byte c" by (rule div_mult_mod_eq)
  moreover have "char_of (byte c) = c" by (simp add: byte_def)
  ultimately show ?thesis using False n by (simp add: enc_byte_def byte_nibble del: byte_char_of)
qed

lemma inner_enc_byte: "list_all inner (enc_byte c)"
proof -
  have n: "byte c div 16 < 16" "byte c mod 16 < 16" using byte_less [of c] by linarith+
  show ?thesis using plain_ne [of c] n by (simp add: enc_byte_def nibble_inner) (simp add: inner_def newline_def)
qed

lemma prefix_code_str [codes]: "prefix_code enc_str dec_str"
proof -
  have "dec_str (enc_str x @ s) = Some (x, s)" for x s
  proof (induction x)
    case Nil
    show ?case by (simp add: enc_str_def)
  next
    case (Cons c x)
    then show ?case using dec_str_byte [of c "enc_str x @ s"] by (simp add: enc_str_def)
  qed
  moreover have "list_all inner (enc_str x)" for x
    using inner_enc_byte by (induction x) (simp_all add: enc_str_def inner_def newline_def)
  ultimately show ?thesis by (simp add: prefix_code_def)
qed

definition enc_nat :: "nat \<Rightarrow> string" where
  "enc_nat n = show_nat n @ '';''"

definition digits_value :: "string \<Rightarrow> nat" where
  "digits_value = foldl (\<lambda>acc c. acc * 10 + (byte c - 48)) 0"

definition dec_nat :: "nat decoder" where
  "dec_nat s = Some (digits_value (takeWhile is_ascii_digit s), tl (dropWhile is_ascii_digit s))"

lemma digits_value_show_nat: "digits_value (show_nat n) = n"
proof (induction n rule: show_nat.induct)
  case (1 n)
  show ?case
  proof (cases "n < 10")
    case True
    then show ?thesis by (subst show_nat.simps) (simp add: digits_value_def)
  next
    case False
    then have "digits_value (show_nat (n div 10)) = n div 10" using 1 by blast
    then show ?thesis using False by (subst show_nat.simps) (simp add: digits_value_def)
  qed
qed

lemma digit_inner: "is_ascii_digit c \<Longrightarrow> inner c"
  by (auto simp: is_ascii_digit_def inner_def newline_def byte_def)

lemma prefix_code_nat [codes]: "prefix_code enc_nat dec_nat"
proof -
  have semi: "\<not> is_ascii_digit (CHR '';'')" by (simp add: is_ascii_digit_def byte_def)
  have "takeWhile is_ascii_digit (show_nat n @ CHR '';'' # s) = show_nat n"
    "dropWhile is_ascii_digit (show_nat n @ CHR '';'' # s) = CHR '';'' # s" for n s
    using show_nat_digits [of _ n] semi by (simp_all add: takeWhile_append2 dropWhile_append2)
  moreover have "list_all inner (enc_nat n)" for n
    using show_nat_digits [of _ n] digit_inner by (auto simp: enc_nat_def list_all_iff inner_def newline_def)
  ultimately show ?thesis by (simp add: prefix_code_def enc_nat_def dec_nat_def digits_value_show_nat)
qed

text \<open>Integers are decimal with a leading minus sign.\<close>

definition enc_int :: "int \<Rightarrow> string" where
  "enc_int i = show_int i @ '';''"

definition dec_int :: "int decoder" where
  "dec_int s = (case s of
       [] \<Rightarrow> None
     | c # t \<Rightarrow> if c = CHR ''-'' then dec_map (\<lambda>n. - int n) dec_nat t else dec_map int dec_nat s)"

lemma prefix_code_int [codes]: "prefix_code enc_int dec_int"
proof -
  have "dec_int (enc_int i @ s) = Some (i, s)" for i s
  proof (cases "i < 0")
    case True
    then show ?thesis using prefix_codeD(1) [OF prefix_code_nat, of "nat (- i)" s]
      by (simp add: enc_int_def enc_nat_def show_int_def dec_int_def dec_map_def)
  next
    case False
    have "hd (show_nat (nat i)) \<noteq> CHR ''-''"
      using hd_show_nat_digit [of "nat i"] by (auto simp: is_ascii_digit_def byte_def)
    then obtain c t where "show_nat (nat i) = c # t" "c \<noteq> CHR ''-''" by (cases "show_nat (nat i)") auto
    then show ?thesis using False prefix_codeD(1) [OF prefix_code_nat, of "nat i" s]
      by (simp add: enc_int_def enc_nat_def show_int_def dec_int_def dec_map_def)
  qed
  moreover have "list_all inner (enc_int i)" for i
    using prefix_codeD(2) [OF prefix_code_nat, of "nat i"] prefix_codeD(2) [OF prefix_code_nat, of "nat (- i)"]
    by (simp add: enc_int_def enc_nat_def show_int_def) (simp add: inner_def newline_def)
  ultimately show ?thesis by (simp add: prefix_code_def)
qed

definition enc_bool :: "bool \<Rightarrow> string" where
  "enc_bool b = enc_sum enc_unit enc_unit (if b then Inr () else Inl ())"

definition dec_bool :: "bool decoder" where
  "dec_bool = dec_map (\<lambda>v. case v of Inr _ \<Rightarrow> True | Inl _ \<Rightarrow> False) (dec_sum dec_unit dec_unit)"

lemma prefix_code_bool [codes]: "prefix_code enc_bool dec_bool"
  unfolding enc_bool_def [abs_def] dec_bool_def by (rule prefix_code_map) (auto intro!: codes)

definition enc_option :: "('a \<Rightarrow> string) \<Rightarrow> 'a option \<Rightarrow> string" where
  "enc_option ea v = enc_sum enc_unit ea (case v of None \<Rightarrow> Inl () | Some x \<Rightarrow> Inr x)"

definition dec_option :: "'a decoder \<Rightarrow> 'a option decoder" where
  "dec_option da = dec_map (\<lambda>v. case v of Inl _ \<Rightarrow> None | Inr x \<Rightarrow> Some x) (dec_sum dec_unit da)"

lemma prefix_code_option [codes]: "prefix_code ea da \<Longrightarrow> prefix_code (enc_option ea) (dec_option da)"
  unfolding enc_option_def [abs_def] dec_option_def
  by (rule prefix_code_map) (auto intro!: codes split: option.splits)

text \<open>A list takes two bytes, its elements, and a separator between two of them.\<close>

fun enc_items :: "('a \<Rightarrow> string) \<Rightarrow> 'a list \<Rightarrow> string" where
  "enc_items ea [] = ''.''"
| "enc_items ea (x # xs) = CHR '','' # ea x @ enc_items ea xs"

definition enc_list :: "('a \<Rightarrow> string) \<Rightarrow> 'a list \<Rightarrow> string" where
  "enc_list ea xs = (case xs of [] \<Rightarrow> ''..'' | x # xs' \<Rightarrow> CHR '','' # ea x @ enc_items ea xs')"

text \<open>The length of the input bounds the number of elements.\<close>

fun dec_items :: "nat \<Rightarrow> 'a decoder \<Rightarrow> 'a list decoder" where
  "dec_items 0 da s = None"
| "dec_items (Suc n) da s =
     (case s of [] \<Rightarrow> None
      | c # t \<Rightarrow> if c = CHR ''.'' then Some ([], t)
                 else (case da t of None \<Rightarrow> None
                       | Some (x, u) \<Rightarrow> map_option (\<lambda>(xs, v). (x # xs, v)) (dec_items n da u)))"

definition dec_list :: "'a decoder \<Rightarrow> 'a list decoder" where
  "dec_list da s =
     (case s of [] \<Rightarrow> None
      | c # t \<Rightarrow> if c = CHR ''.'' then Some ([], tl t) else dec_items (length s) da s)"

lemma dec_items_enc:
  assumes "prefix_code ea da"
  shows "length xs < n \<Longrightarrow> dec_items n da (enc_items ea xs @ s) = Some (xs, s)"
proof (induction xs arbitrary: n)
  case Nil
  then show ?case by (cases n) auto
next
  case (Cons x xs)
  then show ?case using prefix_codeD(1) [OF assms] by (cases n) auto
qed

lemma prefix_code_list [codes]:
  assumes "prefix_code ea da"
  shows "prefix_code (enc_list ea) (dec_list da)"
proof -
  have len: "length xs < length (enc_items ea xs @ s)" for xs s by (induction xs) auto
  have "dec_list da (enc_list ea xs @ s) = Some (xs, s)" for xs s
  proof (cases xs)
    case (Cons x xs')
    then show ?thesis using dec_items_enc [OF assms len, of xs s]
      by (simp add: dec_list_def enc_list_def)
  qed (simp add: dec_list_def enc_list_def)
  moreover have "list_all inner (enc_items ea xs)" for xs
    using prefix_codeD(2) [OF assms] by (induction xs) (auto simp: inner_def newline_def)
  ultimately show ?thesis using prefix_codeD(2) [OF assms]
    by (auto simp: prefix_code_def enc_list_def inner_def newline_def split: list.splits)
qed

lemma length_enc_list:
  "length (enc_list ea xs) = 2 + sum_list (map (\<lambda>x. length (ea x)) xs) + (length xs - 1)"
proof -
  have "length (enc_items ea ys) = 1 + sum_list (map (\<lambda>x. length (ea x)) ys) + length ys" for ys
    by (induction ys) auto
  then show ?thesis by (cases xs) (simp_all add: enc_list_def)
qed

section \<open>Documents\<close>

text \<open>A document is a prefix code closed by a brace; newlines behind it are skipped.\<close>

definition to_doc :: "('a \<Rightarrow> string) \<Rightarrow> 'a \<Rightarrow> string + string" where
  "to_doc enc x = Inr (enc x @ ''}'')"

definition strip_newlines :: "string \<Rightarrow> string" where
  "strip_newlines s = rev (dropWhile (\<lambda>c. c = newline) (rev s))"

definition of_doc :: "'a decoder \<Rightarrow> string \<Rightarrow> string + 'a" where
  "of_doc dec s =
     (let t = strip_newlines s in
      if t = [] \<or> last t \<noteq> CHR ''}'' then Inl ''unexpected end''
      else case dec (butlast t) of Some (x, []) \<Rightarrow> Inr x | _ \<Rightarrow> Inl ''invalid document'')"

lemma strip_newlines_snoc [simp]: "strip_newlines (s @ [newline]) = strip_newlines s"
  by (simp add: strip_newlines_def)

lemma strip_newlines_id: "s = [] \<or> last s \<noteq> newline \<Longrightarrow> strip_newlines s = s"
  by (cases s rule: rev_cases) (auto simp: strip_newlines_def)

lemma set_strip_newlines: "set (strip_newlines s) \<subseteq> set s"
  using set_dropWhileD by (fastforce simp: strip_newlines_def)

lemma brace_not_newline: "CHR ''}'' \<noteq> newline"
  by (simp add: newline_def)

lemma of_to_doc: "prefix_code enc dec \<Longrightarrow> of_doc dec (enc x @ ''}'') = Inr x"
  using prefix_codeD(1) [of enc dec x "[]"]
  by (simp add: of_doc_def strip_newlines_id brace_not_newline butlast_append Let_def)

lemma doc_no_newline: "prefix_code enc dec \<Longrightarrow> newline \<notin> set (enc x @ ''}'')"
  using prefix_codeD(2) [of enc dec x] brace_not_newline by (auto simp: list_all_iff inner_def)

lemma of_doc_truncated:
  assumes "prefix_code enc dec" "k < length (enc x @ ''}'')"
  shows "\<not> is_ok (of_doc dec (take k (enc x @ ''}'')))"
proof -
  have *: "take k (enc x @ ''}'') = take k (enc x)" using assms(2) by simp
  have inner: "c \<in> set (take k (enc x)) \<Longrightarrow> inner c" for c
    using prefix_codeD(2) [OF assms(1), of x] by (auto simp: list_all_iff dest: in_set_takeD)
  show ?thesis
  proof (cases "take k (enc x) = []")
    case False
    then have "inner (last (take k (enc x)))" using inner last_in_set by blast
    then show ?thesis unfolding * by (simp add: of_doc_def strip_newlines_id inner_def)
  qed (simp only: *, simp add: of_doc_def strip_newlines_def)
qed

lemma of_doc_blank:
  assumes "list_all is_ascii_whitespace l"
  shows "\<not> is_ok (of_doc dec l)"
proof -
  have "\<not> is_ascii_whitespace (CHR ''}'')" by (simp add: is_ascii_whitespace_def byte_def)
  then have "CHR ''}'' \<notin> set (strip_newlines l)"
    using assms set_strip_newlines [of l] by (auto simp: list_all_iff)
  then have "strip_newlines l = [] \<or> last (strip_newlines l) \<noteq> CHR ''}''" by (metis last_in_set)
  then show ?thesis by (simp add: of_doc_def Let_def)
qed

section \<open>The records of the store\<close>

definition enc_request :: "comment_request \<Rightarrow> string" where
  "enc_request r = enc_pair enc_str (enc_pair enc_str (enc_pair enc_nat enc_str))
     (owner r, repo r, pr_number r, body r)"

definition dec_request :: "comment_request decoder" where
  "dec_request = dec_map (\<lambda>(a, b, c, d). \<lparr>owner = a, repo = b, pr_number = c, body = d\<rparr>)
     (dec_pair dec_str (dec_pair dec_str (dec_pair dec_nat dec_str)))"

lemma prefix_code_request [codes]: "prefix_code enc_request dec_request"
  unfolding enc_request_def [abs_def] dec_request_def by (rule prefix_code_map) (auto intro!: codes)

definition enc_history :: "history_record \<Rightarrow> string" where
  "enc_history r =
     enc_pair enc_str (enc_pair enc_str (enc_pair enc_nat (enc_pair enc_bool (enc_pair (enc_option enc_str)
       (enc_pair enc_str (enc_pair (enc_option enc_str) (enc_pair enc_str enc_request)))))))
     (attempt_id r, hr_id r, posted_at r, success r, hr_error r, token_hash r, comment_url r,
      hr_incarnation r, hr_request r)"

definition dec_history :: "history_record decoder" where
  "dec_history = dec_map (\<lambda>(a, b, c, d, e, f, g, h, i).
       \<lparr>attempt_id = a, hr_id = b, posted_at = c, success = d, hr_error = e, token_hash = f,
        comment_url = g, hr_incarnation = h, hr_request = i\<rparr>)
     (dec_pair dec_str (dec_pair dec_str (dec_pair dec_nat (dec_pair dec_bool (dec_pair (dec_option dec_str)
       (dec_pair dec_str (dec_pair (dec_option dec_str) (dec_pair dec_str dec_request))))))))"

lemma prefix_code_history [codes]: "prefix_code enc_history dec_history"
  unfolding enc_history_def [abs_def] dec_history_def by (rule prefix_code_map) (auto intro!: codes)

definition enc_completion :: "completion_record \<Rightarrow> string" where
  "enc_completion c =
     enc_pair enc_str (enc_pair enc_nat (enc_pair (enc_option enc_str) (enc_pair (enc_option enc_history)
       (enc_option enc_nat))))
     (cr_id c, cr_posted_at c, cr_claim_token c, cr_history c, cr_history_offset c)"

definition dec_completion :: "completion_record decoder" where
  "dec_completion = dec_map (\<lambda>(a, b, c, d, e).
       \<lparr>cr_id = a, cr_posted_at = b, cr_claim_token = c, cr_history = d, cr_history_offset = e\<rparr>)
     (dec_pair dec_str (dec_pair dec_nat (dec_pair (dec_option dec_str) (dec_pair (dec_option dec_history)
       (dec_option dec_nat)))))"

lemma prefix_code_completion [codes]: "prefix_code enc_completion dec_completion"
  unfolding enc_completion_def [abs_def] dec_completion_def by (rule prefix_code_map) (auto intro!: codes)

definition enc_deletion :: "await_deletion_record \<Rightarrow> string" where
  "enc_deletion d = enc_str (ad_incarnation d)"

definition dec_deletion :: "await_deletion_record decoder" where
  "dec_deletion = dec_map (\<lambda>a. \<lparr>ad_incarnation = a\<rparr>) dec_str"

lemma prefix_code_deletion [codes]: "prefix_code enc_deletion dec_deletion"
  unfolding enc_deletion_def [abs_def] dec_deletion_def by (rule prefix_code_map) (auto intro!: codes)

text \<open>The claim is \<open>null\<close> or a quoted string, the incarnation takes 57 bytes more when it is a UUID.\<close>

definition quoted :: "string \<Rightarrow> string" where
  "quoted s = CHR 0x22 # enc_str s"

definition dec_quoted :: "string decoder" where
  "dec_quoted s = (case s of [] \<Rightarrow> None | c # t \<Rightarrow> dec_str t)"

lemma prefix_code_quoted [codes]: "prefix_code quoted dec_quoted"
  using prefix_code_str
  by (simp add: prefix_code_def quoted_def dec_quoted_def inner_def newline_def)

definition enc_claim :: "string option \<Rightarrow> string" where
  "enc_claim c = (case c of None \<Rightarrow> ''null'' | Some t \<Rightarrow> quoted t)"

definition dec_claim :: "string option decoder" where
  "dec_claim s = (case s of [] \<Rightarrow> None
     | c # t \<Rightarrow> if c = CHR 0x22 then dec_map Some dec_quoted s else Some (None, drop 4 s))"

lemma prefix_code_claim [codes]: "prefix_code enc_claim dec_claim"
  using prefix_code_quoted
  by (auto simp: prefix_code_def enc_claim_def dec_claim_def dec_map_def quoted_def inner_def newline_def
      split: option.splits)

definition enc_incarnation :: "string \<Rightarrow> string" where
  "enc_incarnation s = (if s = [] then ''E'' else CHR ''I'' # replicate 19 (CHR ''.'') @ quoted s)"

definition dec_incarnation :: "string decoder" where
  "dec_incarnation s = (case s of [] \<Rightarrow> None
     | c # t \<Rightarrow> if c = CHR ''E'' then Some ([], t) else dec_quoted (drop 19 t))"

lemma prefix_code_incarnation [codes]: "prefix_code enc_incarnation dec_incarnation"
  using prefix_code_quoted
  by (simp add: prefix_code_def enc_incarnation_def dec_incarnation_def inner_def newline_def list_all_iff)

definition enc_entry :: "stored_entry \<Rightarrow> string" where
  "enc_entry e =
     enc_pair enc_str (enc_pair enc_incarnation (enc_pair enc_int (enc_pair enc_nat (enc_pair enc_nat
       (enc_pair enc_nat (enc_pair enc_claim enc_request))))))
     (ident e, incarnation e, order e, flutter_seconds e, enqueued_at e, not_before e, claim_token e,
      request e)"

definition dec_entry :: "stored_entry decoder" where
  "dec_entry = dec_map (\<lambda>(a, b, c, d, e, f, g, h).
       \<lparr>ident = a, incarnation = b, order = c, flutter_seconds = d, enqueued_at = e, not_before = f,
        claim_token = g, request = h\<rparr>)
     (dec_pair dec_str (dec_pair dec_incarnation (dec_pair dec_int (dec_pair dec_nat (dec_pair dec_nat
       (dec_pair dec_nat (dec_pair dec_claim dec_request)))))))"

lemma prefix_code_entry [codes]: "prefix_code enc_entry dec_entry"
  unfolding enc_entry_def [abs_def] dec_entry_def by (rule prefix_code_map) (auto intro!: codes)

section \<open>The instance\<close>

text \<open>The \<open>n\<close>-th identifier is the number \<open>n\<close>, padded to 36 characters; readers hand out four bytes
  at a time.\<close>

definition ref_uuid :: "nat \<Rightarrow> string" where
  "ref_uuid n = replicate (36 - length (show_nat n)) (CHR ''-'') @ drop (length (show_nat n) - 36) (show_nat n)"

definition ref_ext :: ext where
  "ref_ext = \<lparr>new_uuid = ref_uuid, chunk = (\<lambda>_. 3),
     entry_to_vec_pretty = to_doc enc_entry, entry_from_slice = of_doc dec_entry,
     string_to_vec = (\<lambda>s. Inr (quoted s)),
     history_to_vec = to_doc enc_history, history_from_slice = of_doc dec_history,
     completion_to_vec = to_doc enc_completion, completion_from_str = of_doc dec_completion,
     deletion_to_vec = to_doc enc_deletion, deletion_from_slice = of_doc dec_deletion\<rparr>"

lemma ref_history_codec: "history_codec ref_ext"
  unfolding history_codec_def newline_blind_def
  using of_to_doc [OF prefix_code_history] doc_no_newline [OF prefix_code_history]
    of_doc_truncated [OF prefix_code_history] of_doc_blank [of _ dec_history]
  by (simp add: ref_ext_def to_doc_def of_doc_def)

lemma ascii_docs: "prefix_code enc dec \<Longrightarrow> list_all (\<lambda>c. byte c < 128) (enc x) \<Longrightarrow> valid_utf8 (enc x @ ''}'')"
  by (rule ascii_valid_utf8) (auto simp: list_all_iff byte_def)

lemma ref_entry_codec: "entry_codec ref_ext"
  using of_to_doc [OF prefix_code_entry] by (simp add: entry_codec_def ref_ext_def to_doc_def)

lemma ref_deletion_codec: "deletion_codec ref_ext"
  using of_to_doc [OF prefix_code_deletion] by (simp add: deletion_codec_def ref_ext_def to_doc_def)

text \<open>Every byte of an encoding is ASCII.\<close>

definition ascii_code :: "('a \<Rightarrow> string) \<Rightarrow> bool" where
  "ascii_code enc \<longleftrightarrow> (\<forall>x. list_all (\<lambda>c. byte c < 128) (enc x))"

lemma ascii_plain: "plain c \<Longrightarrow> byte c < 128"
  by (auto simp: plain_def is_ascii_alphanumeric_def is_ascii_digit_def byte_def)

lemma ascii_enc_byte: "list_all (\<lambda>c. byte c < 128) (enc_byte c)"
proof -
  have n: "byte c div 16 < 16" "byte c mod 16 < 16" using byte_less [of c] by linarith+
  then have "byte (nibble (byte c div 16)) < 128" "byte (nibble (byte c mod 16)) < 128"
    by (simp_all only: byte_nibble)
  moreover have "byte (CHR ''%'') < 128" by (simp add: byte_def)
  ultimately show ?thesis using ascii_plain [of c] by (simp add: enc_byte_def)
qed

lemma ascii_codes:
  "ascii_code enc_str" "ascii_code enc_nat" "ascii_code enc_bool" "ascii_code quoted"
  "ascii_code ea \<Longrightarrow> ascii_code (enc_option ea)"
  "ascii_code ea \<Longrightarrow> ascii_code eb \<Longrightarrow> ascii_code (enc_pair ea eb)"
proof -
  show str: "ascii_code enc_str"
    using ascii_enc_byte by (auto simp: ascii_code_def enc_str_def list_all_iff byte_def)
  show "ascii_code enc_nat"
    using show_nat_digits by (fastforce simp: ascii_code_def enc_nat_def list_all_iff is_ascii_digit_def byte_def)
  show "ascii_code enc_bool" by (simp add: ascii_code_def enc_bool_def enc_sum_def enc_unit_def byte_def)
  show "ascii_code quoted" using str by (simp add: ascii_code_def quoted_def byte_def)
  show "ascii_code ea \<Longrightarrow> ascii_code (enc_option ea)"
    by (simp add: ascii_code_def enc_option_def enc_sum_def enc_unit_def byte_def split: option.splits)
  show "ascii_code ea \<Longrightarrow> ascii_code eb \<Longrightarrow> ascii_code (enc_pair ea eb)"
    by (simp add: ascii_code_def enc_pair_def)
qed

lemma ascii_map: "ascii_code enc \<Longrightarrow> ascii_code (\<lambda>x. enc (f x))"
  by (simp add: ascii_code_def)

lemma ascii_completion: "ascii_code enc_completion"
proof -
  have r: "ascii_code enc_request"
    unfolding enc_request_def [abs_def] by (rule ascii_map) (intro ascii_codes)
  have h: "ascii_code enc_history"
    unfolding enc_history_def [abs_def] by (rule ascii_map) (intro ascii_codes r)
  show ?thesis
    unfolding enc_completion_def [abs_def] by (rule ascii_map) (intro ascii_codes h)
qed

lemma ref_completion_codec: "completion_codec ref_ext"
proof -
  have "valid_utf8 (enc_completion c @ ''}'')" for c
    using ascii_completion by (intro ascii_docs [OF prefix_code_completion]) (simp add: ascii_code_def)
  then show ?thesis
    using of_to_doc [OF prefix_code_completion] by (simp add: completion_codec_def ref_ext_def to_doc_def)
qed

lemma ref_encoded_length: "encoded_length ref_ext s = length (quoted s)"
  by (simp add: encoded_length_def ref_ext_def)

lemma ref_entry_sizes: "entry_sizes ref_ext"
proof -
  define rest :: "stored_entry \<Rightarrow> nat" where "rest = (\<lambda>e. length (enc_str (ident e)) + length (enc_nat (flutter_seconds e))
      + length (enc_nat (enqueued_at e)) + length (enc_nat (not_before e)) + length (enc_request (request e)) + 2)"
  have "length (enc_entry e) = rest e + field_bytes ref_ext e" for e
    by (simp add: enc_entry_def enc_pair_def rest_def field_bytes_def ref_encoded_length enc_int_def
        enc_claim_def enc_incarnation_def split: option.splits)
  moreover have "rest (e\<lparr>order := o', claim_token := c', incarnation := i'\<rparr>) = rest e" for e o' c' i'
    by (simp add: rest_def)
  ultimately show ?thesis by (simp add: entry_sizes_def ref_ext_def [unfolded to_doc_def])
qed

lemma ref_uuid_chars: "length (ref_uuid n) = 36" "list_all plain (ref_uuid n)"
  using show_nat_digits [of _ n]
  by (auto simp: ref_uuid_def list_all_iff plain_def is_ascii_alphanumeric_def dest: in_set_dropD)

lemma length_quoted_plain: "list_all plain s \<Longrightarrow> length (quoted s) = length s + 2"
  by (induction s) (simp_all add: quoted_def enc_str_def enc_byte_def)

lemma ref_uuid_law: "uuid_law ref_ext"
proof -
  have "ref_uuid n \<noteq> []" for n using ref_uuid_chars(1) [of n] by auto
  moreover have "length (quoted (ref_uuid n)) = 38" for n
    using length_quoted_plain [OF ref_uuid_chars(2), of n] ref_uuid_chars(1) [of n] by simp
  moreover have "2 \<le> length (quoted s)" for s by (simp add: quoted_def enc_str_def)
  ultimately show ?thesis by (simp add: uuid_law_def encoded_length_def ref_ext_def)
qed

section \<open>Wire messages\<close>

definition enc_cursor :: "history_cursor \<Rightarrow> string" where
  "enc_cursor c = enc_pair enc_nat enc_nat (hc_offset c, hc_end_offset c)"

definition dec_cursor :: "history_cursor decoder" where
  "dec_cursor = dec_map (\<lambda>(a, b). \<lparr>hc_offset = a, hc_end_offset = b\<rparr>) (dec_pair dec_nat dec_nat)"

lemma prefix_code_cursor [codes]: "prefix_code enc_cursor dec_cursor"
  unfolding enc_cursor_def [abs_def] dec_cursor_def by (rule prefix_code_map) (auto intro!: codes)

definition enc_pending :: "pending_entry \<Rightarrow> string" where
  "enc_pending p = enc_pair enc_str (enc_pair enc_nat (enc_pair enc_str (enc_pair enc_str (enc_pair enc_nat enc_str))))
     (pe_id p, eta_seconds p, pe_owner p, pe_repo p, pe_pr_number p, pe_body p)"

definition dec_pending :: "pending_entry decoder" where
  "dec_pending = dec_map (\<lambda>(a, b, c, d, e, f).
       \<lparr>pe_id = a, eta_seconds = b, pe_owner = c, pe_repo = d, pe_pr_number = e, pe_body = f\<rparr>)
     (dec_pair dec_str (dec_pair dec_nat (dec_pair dec_str (dec_pair dec_str (dec_pair dec_nat dec_str)))))"

lemma prefix_code_pending [codes]: "prefix_code enc_pending dec_pending"
  unfolding enc_pending_def [abs_def] dec_pending_def by (rule prefix_code_map) (auto intro!: codes)

definition enc_hentry :: "history_entry \<Rightarrow> string" where
  "enc_hentry h =
     enc_pair enc_str (enc_pair enc_nat (enc_pair enc_bool (enc_pair (enc_option enc_str) (enc_pair enc_str
       (enc_pair enc_str (enc_pair enc_str (enc_pair enc_nat enc_str)))))))
     (he_id h, he_posted_at h, he_success h, he_error h, he_token_hash h, he_owner h, he_repo h,
      he_pr_number h, he_body h)"

definition dec_hentry :: "history_entry decoder" where
  "dec_hentry = dec_map (\<lambda>(a, b, c, d, e, f, g, h, i).
       \<lparr>he_id = a, he_posted_at = b, he_success = c, he_error = d, he_token_hash = e, he_owner = f,
        he_repo = g, he_pr_number = h, he_body = i\<rparr>)
     (dec_pair dec_str (dec_pair dec_nat (dec_pair dec_bool (dec_pair (dec_option dec_str) (dec_pair dec_str
       (dec_pair dec_str (dec_pair dec_str (dec_pair dec_nat dec_str))))))))"

lemma prefix_code_hentry [codes]: "prefix_code enc_hentry dec_hentry"
  unfolding enc_hentry_def [abs_def] dec_hentry_def by (rule prefix_code_map) (auto intro!: codes)

definition enc_response :: "response \<Rightarrow> string" where
  "enc_response r =
     enc_sum enc_str (enc_pair (enc_option enc_pending) (enc_pair (enc_option (enc_list enc_pending))
       (enc_pair (enc_option (enc_list enc_hentry)) (enc_option enc_cursor))))
     (case r of RespError m \<Rightarrow> Inl m | RespOk e es hs c \<Rightarrow> Inr (e, es, hs, c))"

definition dec_response :: "response decoder" where
  "dec_response = dec_map (\<lambda>v. case v of Inl m \<Rightarrow> RespError m | Inr (e, es, hs, c) \<Rightarrow> RespOk e es hs c)
     (dec_sum dec_str (dec_pair (dec_option dec_pending) (dec_pair (dec_option (dec_list dec_pending))
       (dec_pair (dec_option (dec_list dec_hentry)) (dec_option dec_cursor)))))"

lemma prefix_code_response [codes]: "prefix_code enc_response dec_response"
  unfolding enc_response_def [abs_def] dec_response_def
  by (rule prefix_code_map) (auto intro!: codes split: response.splits)

definition enc_event :: "await_event \<Rightarrow> string" where
  "enc_event ev = enc_sum enc_nat (enc_sum enc_str enc_str)
     (case ev of Waiting n \<Rightarrow> Inl n | PostedEvent u \<Rightarrow> Inr (Inl u) | ErrorEvent m \<Rightarrow> Inr (Inr m))"

definition dec_event :: "await_event decoder" where
  "dec_event = dec_map (\<lambda>v. case v of Inl n \<Rightarrow> Waiting n | Inr (Inl u) \<Rightarrow> PostedEvent u | Inr (Inr m) \<Rightarrow> ErrorEvent m)
     (dec_sum dec_nat (dec_sum dec_str dec_str))"

lemma prefix_code_event [codes]: "prefix_code enc_event dec_event"
  unfolding enc_event_def [abs_def] dec_event_def
  by (rule prefix_code_map) (auto intro!: codes split: await_event.splits)

definition enc_req :: "request \<Rightarrow> string" where
  "enc_req r =
     enc_sum (enc_pair enc_request enc_bool) (enc_sum enc_unit (enc_sum enc_str (enc_sum enc_str
       (enc_sum enc_str (enc_sum enc_str (enc_pair (enc_option enc_nat) (enc_option enc_cursor)))))))
     (case r of Put c b \<Rightarrow> Inl (c, b) | ListReq \<Rightarrow> Inr (Inl ()) | Bump i \<Rightarrow> Inr (Inr (Inl i))
      | Bust i \<Rightarrow> Inr (Inr (Inr (Inl i))) | Del i \<Rightarrow> Inr (Inr (Inr (Inr (Inl i))))
      | Await i \<Rightarrow> Inr (Inr (Inr (Inr (Inr (Inl i)))))
      | Hist l c \<Rightarrow> Inr (Inr (Inr (Inr (Inr (Inr (l, c)))))))"

definition dec_req :: "request decoder" where
  "dec_req = dec_map (\<lambda>v. case v of Inl (c, b) \<Rightarrow> Put c b | Inr (Inl _) \<Rightarrow> ListReq | Inr (Inr (Inl i)) \<Rightarrow> Bump i
      | Inr (Inr (Inr (Inl i))) \<Rightarrow> Bust i | Inr (Inr (Inr (Inr (Inl i)))) \<Rightarrow> Del i
      | Inr (Inr (Inr (Inr (Inr (Inl i))))) \<Rightarrow> Await i
      | Inr (Inr (Inr (Inr (Inr (Inr (l, c)))))) \<Rightarrow> Hist l c)
     (dec_sum (dec_pair dec_request dec_bool) (dec_sum dec_unit (dec_sum dec_str (dec_sum dec_str
       (dec_sum dec_str (dec_sum dec_str (dec_pair (dec_option dec_nat) (dec_option dec_cursor))))))))"

lemma prefix_code_req [codes]: "prefix_code enc_req dec_req"
  unfolding enc_req_def [abs_def] dec_req_def
  by (rule prefix_code_map) (auto intro!: codes split: request.splits)

definition ref_wire :: wire where
  "ref_wire = \<lparr>request_to_vec = to_doc enc_req, request_from_slice = of_doc dec_req,
     response_to_vec = to_doc enc_response, response_from_slice = of_doc dec_response,
     pending_to_vec = (\<lambda>p. Inr (enc_pending p)), history_entry_to_vec = (\<lambda>h. Inr (enc_hentry h)),
     event_to_vec = to_doc enc_event, event_from_slice = of_doc dec_event\<rparr>"

end
