(* ===== verification/History_Props.thy ===== *)
theory History_Props
  imports History Reference_Codec
begin

text \<open>
  What the history log's readers and writers compute. The reference description of a log is
  the list of its lines, each with its final newline, of which the decodable ones are its
  records.
\<close>

section \<open>Lines of a file\<close>

fun lines_of :: "string \<Rightarrow> string list" where
  "lines_of [] = []"
| "lines_of (c # cs) =
     (if c = newline then [c] # lines_of cs
      else case lines_of cs of [] \<Rightarrow> [[c]] | l # ls \<Rightarrow> (c # l) # ls)"

definition first_line :: "string \<Rightarrow> string" where
  "first_line bs = takeWhile (\<lambda>c. c \<noteq> newline) bs @ (if newline \<in> set bs then [newline] else [])"

lemma first_line_Nil [simp]: "first_line [] = []"
  by (simp add: first_line_def)

lemma first_line_Cons:
  "first_line (c # cs) = (if c = newline then [c] else c # first_line cs)"
  by (auto simp: first_line_def)

lemma first_line_append: "newline \<notin> set p \<Longrightarrow> first_line (p @ q) = p @ first_line q"
  by (induction p) (auto simp: first_line_Cons)

lemma first_line_newline:
  "newline \<notin> set p \<Longrightarrow> first_line (p @ newline # q) = p @ [newline]"
  by (simp add: first_line_append first_line_Cons)

lemma length_first_line_pos: "bs \<noteq> [] \<Longrightarrow> 0 < length (first_line bs)"
  by (cases bs) (auto simp: first_line_Cons)

lemma length_first_line_le: "length (first_line bs) \<le> length bs"
  by (induction bs) (auto simp: first_line_Cons)

lemma lines_of_unfold:
  "bs \<noteq> [] \<Longrightarrow> lines_of bs = first_line bs # lines_of (drop (length (first_line bs)) bs)"
proof (induction bs)
  case (Cons c cs)
  show ?case
  proof (cases "c = newline \<or> cs = []")
    case True
    then show ?thesis by (auto simp: first_line_Cons)
  next
    case False
    with Cons show ?thesis by (simp add: first_line_Cons)
  qed
qed simp

lemma concat_lines_of [simp]: "concat (lines_of bs) = bs"
  by (induction bs) (auto split: list.splits)

lemma lines_of_eq_Nil [simp]: "lines_of bs = [] \<longleftrightarrow> bs = []"
  by (cases bs) (auto split: list.splits)

lemma lines_of_append:
  assumes "xs = [] \<or> last xs = newline"
  shows "lines_of (xs @ ys) = lines_of xs @ lines_of ys"
  using assms
proof (induction xs)
  case (Cons c cs)
  then show ?case by (cases "cs = []") (auto split: list.splits)
qed simp

lemma lines_of_single: "newline \<notin> set l \<Longrightarrow> lines_of (l @ [newline]) = [l @ [newline]]"
  by (induction l) auto

lemma position_first_line:
  assumes "position (\<lambda>b. b = newline) (take v rest) = Some i"
  shows "first_line rest = take (Suc i) rest"
proof -
  let ?p = "take i (take v rest)"
  have i: "i < length (take v rest)" "take v rest ! i = newline"
    "takeWhile (\<lambda>b. b \<noteq> newline) (take v rest) = ?p"
    using position_SomeD [OF assms] by auto
  then have nl: "newline \<notin> set ?p"
    by (metis (mono_tags, lifting) set_takeWhileD)
  have "rest = ?p @ newline # drop (Suc i) rest"
    using i by (metis (no_types, lifting) append_take_drop_id id_take_nth_drop length_take min_less_iff_conj
        nth_take take_take min.strict_order_iff min.commute)
  then show ?thesis
    using first_line_newline [OF nl] i
    by (metis (no_types, lifting) append_Cons append_Nil append_assoc append_eq_conv_conj length_append_singleton
        length_take min.absorb4 length_take min_less_iff_conj)
qed

section \<open>The buffered line reader\<close>

lemma fill_buf_result:
  "fill_buf X off w = (Inr av, w') \<Longrightarrow>
   av = take (Suc (chunk X off)) (drop off (bytes_at w history_path))"
  by (auto simp: fill_buf_def fs_read_at_def syscall_def split: list.splits option.splits)

lemma fill_buf_reads [reads]: "reads_only (fill_buf X off)"
  by (auto simp: fill_buf_def intro: reads)

lemma fill_buf_quiet:
  "quiet w \<Longrightarrow> fill_buf X off w = (Inr (take (Suc (chunk X off)) (drop off (bytes_at w history_path))), w)"
  by (simp add: fill_buf_def run_simps)

text \<open>The bytes of a snapshot a reader at \<open>cur\<close> still has before it.\<close>

definition snapshot_rest :: "string \<Rightarrow> nat \<Rightarrow> nat \<Rightarrow> string" where
  "snapshot_rest bs cur end_offset = take (end_offset - cur) (drop cur bs)"

lemma snapshot_rest_drop: "drop n (snapshot_rest bs cur e) = snapshot_rest bs (cur + n) e"
  by (simp add: snapshot_rest_def drop_take add.commute)

lemma length_snapshot_rest: "e \<le> length bs \<Longrightarrow> length (snapshot_rest bs cur e) = e - cur"
  by (simp add: snapshot_rest_def)

lemma take_buffer_parts:
  assumes "take_buffer av remaining line ov = (n, ended, l, o')"
  defines "v \<equiv> min (length av) remaining"
  shows "n = (case position (\<lambda>b. b = newline) (take v av) of None \<Rightarrow> v | Some i \<Rightarrow> i + 1)"
    and "ended \<longleftrightarrow> position (\<lambda>b. b = newline) (take v av) \<noteq> None"
    and "o' \<longleftrightarrow> ov \<or> length line + n > MAX_HISTORY_LINE_BYTES"
    and "\<not> o' \<Longrightarrow> l = line @ take n av"
proof -
  let ?p = "position (\<lambda>b. b = newline) (take v av)"
  let ?n = "case ?p of None \<Rightarrow> v | Some i \<Rightarrow> i + 1"
  have eq: "(n, ended, l, o') = (if \<not> ov \<and> length line + ?n \<le> MAX_HISTORY_LINE_BYTES
         then (?n, ?p \<noteq> None, line @ take ?n av, ov) else (?n, ?p \<noteq> None, line, True))"
    using assms(1) unfolding take_buffer_def Let_def v_def by (rule sym)
  then show n: "n = ?n" and ended: "ended \<longleftrightarrow> ?p \<noteq> None" by (simp_all only: prod.inject split: if_splits)
  have "\<not> ov \<and> length line + n \<le> MAX_HISTORY_LINE_BYTES \<Longrightarrow> l = line @ take n av \<and> o' = ov"
    "\<not> (\<not> ov \<and> length line + n \<le> MAX_HISTORY_LINE_BYTES) \<Longrightarrow> o' = True"
    using eq unfolding n [symmetric] ended [symmetric] by (auto split: if_splits)
  then show "o' \<longleftrightarrow> ov \<or> length line + n > MAX_HISTORY_LINE_BYTES" "\<not> o' \<Longrightarrow> l = line @ take n av"
    by (metis not_le)+
qed

lemma take_buffer_spec:
  assumes tb: "take_buffer av (e - cur) line ov = (n, ended, l, o')"
    and av: "av = take (Suc k) (drop cur bs)" and cur: "cur < e" "e \<le> length bs"
  shows "ended \<Longrightarrow> first_line (snapshot_rest bs cur e) = take n (snapshot_rest bs cur e)"
    and "\<not> ended \<Longrightarrow> first_line (snapshot_rest bs cur e)
           = take n (snapshot_rest bs cur e) @ first_line (snapshot_rest bs (cur + n) e)"
    and "o' \<longleftrightarrow> ov \<or> length line + n > MAX_HISTORY_LINE_BYTES"
    and "\<not> o' \<Longrightarrow> l = line @ take n (snapshot_rest bs cur e)"
    and "n \<le> e - cur"
proof -
  let ?rest = "snapshot_rest bs cur e"
  let ?v = "min (length av) (e - cur)"
  let ?p = "position (\<lambda>b. b = newline) (take ?v av)"
  have n: "n = (case ?p of None \<Rightarrow> ?v | Some i \<Rightarrow> i + 1)" and ended: "ended \<longleftrightarrow> ?p \<noteq> None"
    and o': "o' \<longleftrightarrow> ov \<or> length line + n > MAX_HISTORY_LINE_BYTES"
    and l: "\<not> o' \<Longrightarrow> l = line @ take n av"
    using take_buffer_parts [OF tb] by blast+
  have n_le: "n \<le> ?v"
  proof (cases ?p)
    case (Some i)
    then show ?thesis using n position_SomeD(1) [OF Some] by simp
  qed (simp add: n)
  have pre: "take m av = take m ?rest" if "m \<le> ?v" for m
    using that av cur by (auto simp: snapshot_rest_def min_def split: if_splits)
  show "ended \<Longrightarrow> first_line ?rest = take n ?rest"
    using ended n position_first_line [of ?v ?rest] pre [of ?v] by auto
  show "\<not> ended \<Longrightarrow> first_line ?rest = take n ?rest @ first_line (snapshot_rest bs (cur + n) e)"
  proof -
    assume "\<not> ended"
    then have "?p = None" "n = ?v" using ended n by auto
    then have "newline \<notin> set (take n ?rest)"
      using pre [of ?v] by (metis (mono_tags, lifting) order_refl position_None_iff)
    then show ?thesis
      by (metis append_take_drop_id first_line_append snapshot_rest_drop)
  qed
  show "o' \<longleftrightarrow> ov \<or> length line + n > MAX_HISTORY_LINE_BYTES" by (rule o')
  show "\<not> o' \<Longrightarrow> l = line @ take n ?rest" using l pre [OF n_le] by simp
  show "n \<le> e - cur" using n_le by simp
qed

lemma read_snapshot_line_reads [reads]: "reads_only (read_snapshot_line X cur e line ov)"
proof (rule reads_onlyI)
  fix w r w'
  show "read_snapshot_line X cur e line ov w = (r, w') \<Longrightarrow>
    \<exists>s. w' = w\<lparr>script := s\<rparr> \<and> suffix s (script w)"
  proof (induction X cur e line ov w arbitrary: r w' rule: read_snapshot_line.induct)
    case (1 X cur e line ov w)
    show ?case
    proof (cases "cur < e")
      case False
      then show ?thesis using "1.prems" by (simp add: read_snapshot_line.simps [of X cur])
    next
      case True
      obtain q w1 where q: "fill_buf X cur w = (q, w1)" by fastforce
      then obtain s where s: "w1 = w\<lparr>script := s\<rparr>" "suffix s (script w)"
        using fill_buf_reads by (blast elim: reads_onlyE)
      consider (err) e' where "q = Inl e'" | (eof) "q = Inr []" | (av) av where "q = Inr av" "av \<noteq> []"
        by (cases q) auto
      then show ?thesis
      proof cases
        case err
        then show ?thesis using "1.prems" True q s by (auto simp: read_snapshot_line.simps [of X cur])
      next
        case eof
        then show ?thesis using "1.prems" True q s by (auto simp: read_snapshot_line.simps [of X cur])
      next
        case av
        obtain n ended l o' where tb: "take_buffer av (e - cur) line ov = (n, ended, l, o')"
          using prod_cases4 by blast
        show ?thesis
        proof (cases ended)
          case True
          then show ?thesis using "1.prems" \<open>cur < e\<close> q s av tb
            by (auto simp: read_snapshot_line.simps [of X cur])
        next
          case False
          then have "read_snapshot_line X (cur + n) e l o' w1 = (r, w')"
            using "1.prems" \<open>cur < e\<close> q av tb by (simp add: read_snapshot_line.simps [of X cur])
          then show ?thesis
            using "1.IH" [OF True q [symmetric] av(1) av(2) tb [symmetric] refl refl False] s by fastforce
        qed
      qed
    qed
  qed
qed

lemma read_snapshot_line_result:
  assumes "read_snapshot_line X cur e line ov w = (Inr (cur', line', ov'), w')"
    and "cur \<le> e" "e \<le> length (bytes_at w history_path)"
  shows "cur' = cur + length (first_line (snapshot_rest (bytes_at w history_path) cur e))
    \<and> (ov' \<longleftrightarrow> ov \<or> length line + length (first_line (snapshot_rest (bytes_at w history_path) cur e))
               > MAX_HISTORY_LINE_BYTES \<and> cur < e)
    \<and> (\<not> ov' \<longrightarrow> line' = line @ first_line (snapshot_rest (bytes_at w history_path) cur e))"
  using assms
proof (induction X cur e line ov w arbitrary: cur' line' ov' w' rule: read_snapshot_line.induct)
  case (1 X cur e line ov w)
  let ?bs = "bytes_at w history_path"
  show ?case
  proof (cases "cur < e")
    case False
    then show ?thesis using "1.prems"
      unfolding read_snapshot_line.simps [of X cur] by (auto simp: snapshot_rest_def)
  next
    case True
    obtain q w1 where q: "fill_buf X cur w = (q, w1)" by fastforce
    with "1.prems" True obtain av where av: "q = Inr av" "av \<noteq> []"
      by (cases q) (auto simp: read_snapshot_line.simps [of X cur] split: if_splits)
    have w1: "bytes_at w1 history_path = ?bs"
      by (rule reads_only_frame(1) [OF fill_buf_reads q])
    have eq: "av = take (Suc (chunk X cur)) (drop cur ?bs)"
      using fill_buf_result q av by simp
    obtain n ended l o' where tb: "take_buffer av (e - cur) line ov = (n, ended, l, o')"
      using prod_cases4 by blast
    note spec = take_buffer_spec [OF tb eq True "1.prems"(3)]
    have len: "length (take n (snapshot_rest ?bs cur e)) = n"
      using spec(5) "1.prems"(3) by (simp add: length_snapshot_rest)
    show ?thesis
    proof (cases ended)
      case True
      then show ?thesis using "1.prems" \<open>cur < e\<close> q av tb spec len
        by (auto simp: read_snapshot_line.simps [of X cur])
    next
      case False
      then have "read_snapshot_line X (cur + n) e l o' w1 = (Inr (cur', line', ov'), w')"
        using "1.prems" \<open>cur < e\<close> q av tb by (simp add: read_snapshot_line.simps [of X cur])
      note ih = "1.IH" [OF \<open>cur < e\<close> q [symmetric] av(1) av(2) tb [symmetric] refl refl False this]
      have "cur + n \<le> e" using spec(5) \<open>cur < e\<close> by simp
      note ih = ih [OF this, unfolded w1, OF "1.prems"(3)]
      define T where "T = take n (snapshot_rest ?bs cur e)"
      define R where "R = first_line (snapshot_rest ?bs (cur + n) e)"
      have fl: "first_line (snapshot_rest ?bs cur e) = T @ R"
        using spec(2) [OF False] by (simp add: T_def R_def)
      have "cur + n < e \<or> R = []"
        by (cases "cur + n < e") (simp_all add: R_def snapshot_rest_def)
      moreover have "length T = n" using len by (simp add: T_def)
      moreover have "\<not> o' \<Longrightarrow> l = line @ T" using spec(4) by (simp add: T_def)
      ultimately show ?thesis
        using ih spec(3) \<open>cur < e\<close> unfolding fl R_def [symmetric] by auto
    qed
  qed
qed

lemma read_snapshot_line_total:
  assumes "quiet w" "cur \<le> e" "e \<le> length (bytes_at w history_path)"
  shows "\<exists>r. read_snapshot_line X cur e line ov w = (Inr r, w)"
  using assms
proof (induction X cur e line ov w rule: read_snapshot_line.induct)
  case (1 X cur e line ov w)
  show ?case
  proof (cases "cur < e")
    case False
    then show ?thesis unfolding read_snapshot_line.simps [of X cur] by simp
  next
    case True
    let ?av = "take (Suc (chunk X cur)) (drop cur (bytes_at w history_path))"
    have q: "fill_buf X cur w = (Inr ?av, w)" by (rule fill_buf_quiet [OF "1.prems"(1)])
    have ne: "?av \<noteq> []" using True "1.prems"(3) by simp
    obtain n ended l o' where tb: "take_buffer ?av (e - cur) line ov = (n, ended, l, o')"
      using prod_cases4 by blast
    have n: "cur + n \<le> e" using take_buffer_spec(5) [OF tb refl True "1.prems"(3)] True by simp
    have step: "read_snapshot_line X cur e line ov w
        = (if ended then (Inr (cur + n, l, o'), w) else read_snapshot_line X (cur + n) e l o' w)"
      unfolding read_snapshot_line.simps [of X cur] q using True ne tb by (simp del: take_eq_Nil)
    show ?thesis
    proof (cases ended)
      case False
      then show ?thesis unfolding step
        using "1.IH" [OF True q [symmetric] refl ne tb [symmetric] refl refl False] "1.prems" n by simp
    qed (simp add: step)
  qed
qed

section \<open>Records and pages\<close>

text \<open>What a line means to the forward reader, and the records of a list of lines, each with the
  position behind it.\<close>

definition decode_line :: "ext \<Rightarrow> string \<Rightarrow> history_record option" where
  "decode_line X l =
     (if length l > MAX_HISTORY_LINE_BYTES \<or> list_all is_ascii_whitespace l then None
      else case history_from_slice X l of Inr r \<Rightarrow> Some r | Inl _ \<Rightarrow> None)"

fun located :: "ext \<Rightarrow> nat \<Rightarrow> string list \<Rightarrow> nat \<Rightarrow> history_record_at list" where
  "located X e [] off = []"
| "located X e (l # ls) off =
     (case decode_line X l of
        None \<Rightarrow> []
      | Some r \<Rightarrow> [\<lparr>record_of = r,
                   position_after = \<lparr>hp_offset = off + length l, hp_end_offset = e\<rparr>\<rparr>])
     @ located X e ls (off + length l)"

definition history_from :: "ext \<Rightarrow> string \<Rightarrow> nat \<Rightarrow> nat \<Rightarrow> history_record_at list" where
  "history_from X bs off e = located X e (lines_of (snapshot_rest bs off e)) off"

text \<open>The records of a log: its decodable lines.\<close>

definition log_records :: "ext \<Rightarrow> string \<Rightarrow> history_record list" where
  "log_records X bs = List.map_filter (decode_line X) (lines_of bs)"

lemma map_record_located:
  "map record_of (located X e ls off) = List.map_filter (decode_line X) ls"
  by (induction ls arbitrary: off) (auto simp: map_filter_simps split: option.splits)

lemma history_from_records:
  "map record_of (history_from X bs off (length bs)) = log_records X (drop off bs)"
  by (simp add: history_from_def map_record_located log_records_def snapshot_rest_def)

lemma history_from_step:
  assumes "off < e" "e \<le> length bs"
  defines "l \<equiv> first_line (snapshot_rest bs off e)"
  shows "history_from X bs off e =
    (case decode_line X l of None \<Rightarrow> []
     | Some r \<Rightarrow> [\<lparr>record_of = r, position_after = \<lparr>hp_offset = off + length l, hp_end_offset = e\<rparr>\<rparr>])
    @ history_from X bs (off + length l) e"
proof -
  have "snapshot_rest bs off e \<noteq> []"
    using assms(1,2) length_snapshot_rest [of e bs off] by auto
  then show ?thesis
    unfolding l_def by (simp add: history_from_def lines_of_unfold snapshot_rest_drop)
qed

lemma history_from_end [simp]: "e \<le> off \<Longrightarrow> history_from X bs off e = []"
  by (simp add: history_from_def snapshot_rest_def)

lemma history_from_append:
  "e \<le> length bs \<Longrightarrow> history_from X (bs @ new) off e = history_from X bs off e"
  by (cases "off \<le> length bs") (simp_all add: history_from_def snapshot_rest_def)

lemma first_line_snapshot_le:
  "off \<le> e \<Longrightarrow> e \<le> length bs \<Longrightarrow> off + length (first_line (snapshot_rest bs off e)) \<le> e"
  using length_first_line_le [of "snapshot_rest bs off e"] length_snapshot_rest [of e bs off] by simp

text \<open>A position is on a line boundary when it is the start or follows a newline.\<close>

definition on_boundary :: "string \<Rightarrow> nat \<Rightarrow> bool" where
  "on_boundary bs off \<longleftrightarrow> off = 0 \<or> off \<le> length bs \<and> bs ! (off - 1) = newline"

lemma first_line_last:
  "bs \<noteq> [] \<Longrightarrow> first_line bs = bs \<or> last (first_line bs) = newline"
proof (induction bs)
  case (Cons c cs)
  then show ?case by (cases cs) (auto simp: first_line_Cons)
qed simp

lemma first_line_boundary:
  assumes "off < e" "e \<le> length bs"
  defines "off' \<equiv> off + length (first_line (snapshot_rest bs off e))"
  shows "off' = e \<or> on_boundary bs off'"
proof -
  let ?r = "snapshot_rest bs off e"
  let ?l = "first_line ?r"
  have ne: "?r \<noteq> []" using assms(1,2) length_snapshot_rest [of e bs off] by auto
  have le: "off' \<le> e" using first_line_snapshot_le [of off e bs] assms by simp
  have pos: "0 < length ?l" using length_first_line_pos [OF ne] .
  have take_l: "?l = take (length ?l) ?r"
    by (metis append_eq_conv_conj concat.simps(2) concat_lines_of lines_of_unfold ne)
  from first_line_last [OF ne] show ?thesis
  proof
    assume "?l = ?r"
    then show ?thesis using assms length_snapshot_rest [of e bs off] by simp
  next
    assume nl: "last ?l = newline"
    have "last ?l = ?l ! (length ?l - 1)" using pos by (simp add: last_conv_nth)
    also have "\<dots> = ?r ! (length ?l - 1)" using pos by (metis diff_less nth_take take_l zero_less_one)
    also have "\<dots> = bs ! (off' - 1)"
    proof -
      have "length ?l - 1 < e - off" "off + (length ?l - 1) = off' - 1" "off + (length ?l - 1) \<le> length bs"
        using pos le assms by linarith+
      then show ?thesis by (metis add_leD1 nth_drop nth_take snapshot_rest_def)
    qed
    finally show ?thesis using nl le assms by (simp add: on_boundary_def)
  qed
qed

lemma read_record_reads [reads]: "reads_only (read_record X cur e)"
  by (auto simp: read_record_def intro!: reads)

lemma read_record_result:
  assumes "read_record X cur e w = (Inr (item, cur'), w')"
    and "cur < e" "e \<le> length (bytes_at w history_path)"
  defines "l \<equiv> first_line (snapshot_rest (bytes_at w history_path) cur e)"
  shows "cur' = cur + length l"
    and "item = map_option (\<lambda>r. \<lparr>record_of = r,
           position_after = \<lparr>hp_offset = cur + length l, hp_end_offset = e\<rparr>\<rparr>) (decode_line X l)"
proof -
  from assms(1) obtain t w1 where t: "read_snapshot_line X cur e [] False w = (Inr t, w1)"
    and k: "(case t of (c, line, ov) \<Rightarrow>
          if ov then ok (None, c)
          else if list_all is_ascii_whitespace line then ok (None, c)
          else case history_from_slice X line of
                 Inr r \<Rightarrow> ok (Some \<lparr>record_of = r,
                                  position_after = \<lparr>hp_offset = c, hp_end_offset = e\<rparr>\<rparr>, c)
               | Inl _ \<Rightarrow> ok (None, c)) w1 = ((Inr (item, cur') :: store_error + _), w')"
    unfolding read_record_def by (elim and_then_InrE map_error_InrE)
  obtain c line ov where rd: "read_snapshot_line X cur e [] False w = (Inr (c, line, ov), w1)"
    and tc: "t = (c, line, ov)" using t by (cases t) auto
  have c: "c = cur + length l" and ov: "ov \<longleftrightarrow> length l > MAX_HISTORY_LINE_BYTES"
    and line: "\<not> ov \<Longrightarrow> line = l"
    using read_snapshot_line_result [OF rd _ assms(3)] assms(2) by (simp_all add: l_def)
  show "cur' = cur + length l"
    using k c tc by (auto simp: run_simps split: if_splits sum.splits)
  show "item = map_option (\<lambda>r. \<lparr>record_of = r,
           position_after = \<lparr>hp_offset = cur + length l, hp_end_offset = e\<rparr>\<rparr>) (decode_line X l)"
  proof (cases ov)
    case True
    then show ?thesis using k ov tc by (simp add: run_simps decode_line_def)
  next
    case False
    then show ?thesis using k ov line c tc
      by (auto simp: run_simps decode_line_def split: if_splits sum.splits)
  qed
qed

lemma read_record_total:
  assumes "quiet w" "cur \<le> e" "e \<le> length (bytes_at w history_path)"
  shows "\<exists>r. read_record X cur e w = (Inr r, w)"
proof -
  obtain c line ov where "read_snapshot_line X cur e [] False w = (Inr (c, line, ov), w)"
    using read_snapshot_line_total [OF assms] by (metis prod_cases3)
  then show ?thesis by (auto simp: read_record_def run_simps split: sum.splits)
qed

lemma read_records_reads [reads]: "reads_only (read_records X cur e n recs)"
proof (rule reads_onlyI)
  fix w r w'
  show "read_records X cur e n recs w = (r, w') \<Longrightarrow>
    \<exists>s. w' = w\<lparr>script := s\<rparr> \<and> suffix s (script w)"
  proof (induction X cur e n recs w arbitrary: r w' rule: read_records.induct)
    case (1 X cur e n recs w)
    obtain q w1 where q: "read_record X cur e w = (q, w1)" by fastforce
    then obtain s where s: "w1 = w\<lparr>script := s\<rparr>" "suffix s (script w)"
      using read_record_reads by (blast elim: reads_onlyE)
    show ?case
    proof (cases "cur < e \<and> length recs < n")
      case False
      then show ?thesis using "1.prems" unfolding read_records.simps [of X cur] by auto
    next
      case True
      show ?thesis
      proof (cases q)
        case (Inl a)
        then show ?thesis using "1.prems" True q s unfolding read_records.simps [of X cur] by auto
      next
        case (Inr p)
        obtain item cur' where p: "p = (item, cur')" by fastforce
        have "read_records X cur' e n (case item of None \<Rightarrow> recs | Some r \<Rightarrow> recs @ [r]) w1 = (r, w')"
          using "1.prems" True q Inr p unfolding read_records.simps [of X cur] by simp
        then show ?thesis
          using "1.IH" [OF True q [symmetric] Inr p [symmetric]] s by fastforce
      qed
    qed
  qed
qed

text \<open>The reader splits the records still to come: those it returns and those behind the offset it
  stops at. It stops at the end of the snapshot or with a full page, on a line boundary.\<close>

lemma read_records_result:
  assumes "read_records X cur e n recs w = (Inr (recs', cur'), w')"
    and "cur \<le> e" "e \<le> length (bytes_at w history_path)" "length recs \<le> n"
  shows "recs' @ history_from X (bytes_at w history_path) cur' e
           = recs @ history_from X (bytes_at w history_path) cur e
    \<and> length recs' \<le> n \<and> (cur' < e \<longrightarrow> length recs' = n)
    \<and> cur \<le> cur' \<and> cur' \<le> e \<and> (cur < e \<and> length recs < n \<longrightarrow> cur < cur')
    \<and> (cur' = cur \<or> cur' = e \<or> on_boundary (bytes_at w history_path) cur')"
  using assms
proof (induction X cur e n recs w arbitrary: recs' cur' w' rule: read_records.induct)
  case (1 X cur e n recs w)
  let ?bs = "bytes_at w history_path"
  show ?case
  proof (cases "cur < e \<and> length recs < n")
    case False
    then show ?thesis using "1.prems" unfolding read_records.simps [of X cur] by auto
  next
    case True
    obtain q w1 where q: "read_record X cur e w = (q, w1)" by fastforce
    with "1.prems"(1) True obtain item c where p: "q = Inr (item, c)"
      unfolding read_records.simps [of X cur] by (cases q) auto
    define recs1 where "recs1 = (case item of None \<Rightarrow> recs | Some r \<Rightarrow> recs @ [r])"
    have rest: "read_records X c e n recs1 w1 = (Inr (recs', cur'), w')"
      using "1.prems"(1) True q p unfolding read_records.simps [of X cur] by (simp add: recs1_def)
    have bs: "bytes_at w1 history_path = ?bs" by (rule reads_only_frame(1) [OF read_record_reads q])
    note rr = read_record_result [OF q [unfolded p] conjunct1 [OF True] "1.prems"(3)]
    have c: "cur < c" using read_record_progress q p True by blast
    have ce: "c \<le> e" using rr(1) first_line_snapshot_le [of cur e ?bs] True "1.prems"(3) by simp
    have bnd: "c = e \<or> on_boundary ?bs c"
      using first_line_boundary [of cur e ?bs] rr(1) True "1.prems"(3) by simp
    have step: "recs1 @ history_from X ?bs c e = recs @ history_from X ?bs cur e"
      using history_from_step [OF conjunct1 [OF True] "1.prems"(3), of X] rr
      by (auto simp: recs1_def split: option.splits)
    have "length recs1 \<le> n" using True by (simp add: recs1_def split: option.splits)
    note ih = "1.IH" [OF True q [symmetric] p refl rest [unfolded recs1_def], unfolded bs,
        folded recs1_def, OF ce "1.prems"(3) this]
    show ?thesis using ih step c bnd by auto
  qed
qed

lemma read_records_total:
  assumes "quiet w" "cur \<le> e" "e \<le> length (bytes_at w history_path)"
  shows "\<exists>r. read_records X cur e n recs w = (Inr r, w)"
  using assms
proof (induction X cur e n recs w rule: read_records.induct)
  case (1 X cur e n recs w)
  show ?case
  proof (cases "cur < e \<and> length recs < n")
    case False
    then show ?thesis unfolding read_records.simps [of X cur] by auto
  next
    case True
    obtain item c where q: "read_record X cur e w = (Inr (item, c), w)"
      using read_record_total [OF "1.prems"] by (metis prod.collapse)
    have "c \<le> e"
      using read_record_result(1) [OF q conjunct1 [OF True] "1.prems"(3)]
        first_line_snapshot_le [OF "1.prems"(2,3)] by simp
    then show ?thesis
      using "1.IH" [OF True q [symmetric] refl refl "1.prems"(1) _ "1.prems"(3)] True q
      unfolding read_records.simps [of X cur] by simp
  qed
qed

text \<open>The cursors a page accepts: inside the file, on a line boundary.\<close>

definition valid_position :: "string \<Rightarrow> history_position \<Rightarrow> bool" where
  "valid_position bs p \<longleftrightarrow>
     hp_offset p \<le> hp_end_offset p \<and> hp_end_offset p \<le> length bs \<and> on_boundary bs (hp_offset p)"

lemma fs_read_exact_quiet [run_simps]:
  "quiet w \<Longrightarrow> fs_read_exact p off n w =
     (if off + n \<le> length (bytes_at w p) \<or> n = 0 then (Inr (take n (drop off (bytes_at w p))), w)
      else (Inl (IoError UnexpectedEof ''failed to fill whole buffer''), w))"
  by (auto simp: fs_read_exact_def run_simps and_then_def)

lemma validate_position_quiet:
  assumes "quiet w"
  shows "validate_position p (length (bytes_at w history_path)) w =
    (if valid_position (bytes_at w history_path) p then Inr () else Inl (Io invalid_position), w)"
proof -
  let ?bs = "bytes_at w history_path"
  show ?thesis
  proof (cases "hp_offset p > hp_end_offset p \<or> hp_end_offset p > length ?bs")
    case True
    then show ?thesis by (auto simp: validate_position_def valid_position_def run_simps)
  next
    case False
    then have "drop (hp_offset p - Suc 0) ?bs ! 0 = ?bs ! (hp_offset p - Suc 0)"
      by (subst nth_drop) auto
    then show ?thesis using False assms
      by (auto simp: validate_position_def valid_position_def on_boundary_def run_simps)
  qed
qed

lemma open_history_snapshot_quiet:
  assumes "quiet w" "node_at w history_path = Some (Regular bs)"
  shows "open_history_snapshot b w = (Inr (Some (length bs)), w)"
  using assms by (simp add: open_history_snapshot_def run_simps node_len_def)

lemma open_history_snapshot_missing:
  assumes "quiet w" "node_at w history_path = None"
  shows "open_history_snapshot b w = (if b then Inr None else Inl (Io not_found), w)"
  using assms by (simp add: open_history_snapshot_def run_simps not_found_def)

lemma read_snapshot_page_quiet:
  assumes w: "quiet w" and bs: "bytes_at w history_path = bs"
    and pos: "case pos of None \<Rightarrow> off \<le> e \<and> e \<le> length bs
              | Some p \<Rightarrow> valid_position bs p \<and> off = hp_offset p \<and> e = hp_end_offset p"
    and n: "0 < n"
  shows "\<exists>page. read_snapshot_page X (length bs) pos off e n w = (Inr page, w)
    \<and> records page @ (case next_pos page of None \<Rightarrow> [] | Some q \<Rightarrow> history_from X bs (hp_offset q) (hp_end_offset q))
        = history_from X bs off e
    \<and> length (records page) \<le> n
    \<and> (case next_pos page of None \<Rightarrow> True
       | Some q \<Rightarrow> valid_position bs q \<and> hp_end_offset q = e \<and> off < hp_offset q \<and> hp_offset q < e
                  \<and> length (records page) = n)"
proof -
  have le: "off \<le> e" "e \<le> length bs" using pos by (auto simp: valid_position_def split: option.splits)
  have v: "(case pos of Some p \<Rightarrow> validate_position p (length bs) | None \<Rightarrow> ok ()) w = (Inr (), w)"
    using validate_position_quiet [OF w] bs pos by (auto simp: run_simps split: option.splits)
  show ?thesis
  proof (cases "e \<le> off")
    case True
    then show ?thesis using v le by (simp add: read_snapshot_page_def run_simps empty_page_def)
  next
    case False
    obtain recs cur where rr: "read_records X off e n [] w = (Inr (recs, cur), w)"
      using read_records_total [OF w, of off e] le bs by (metis prod.collapse)
    note res = read_records_result [OF rr, unfolded bs, OF le]
    have "on_boundary bs cur" if "cur < e" using res that False n by auto
    then show ?thesis
      using res rr v w False n le
      by (auto simp: read_snapshot_page_def run_simps valid_position_def)
  qed
qed

text \<open>Paging with a cursor: a page and what its cursor leads to are the records of the cursor it
  was asked for.\<close>

lemma read_page_cursor:
  assumes "quiet w" "node_at w history_path = Some (Regular bs)" "valid_position bs p" "0 < n"
  shows "\<exists>page. read_page X (Some p) limit n w = (Inr page, w)
    \<and> records page @ (case next_pos page of None \<Rightarrow> [] | Some q \<Rightarrow> history_from X bs (hp_offset q) (hp_end_offset q))
        = history_from X bs (hp_offset p) (hp_end_offset p)
    \<and> length (records page) \<le> n
    \<and> (case next_pos page of None \<Rightarrow> True
       | Some q \<Rightarrow> valid_position bs q \<and> hp_end_offset q = hp_end_offset p
                  \<and> hp_offset p < hp_offset q \<and> hp_offset q < hp_end_offset p
                  \<and> length (records page) = n)"
proof -
  have "bytes_at w history_path = bs" using assms(2) by (simp add: bytes_at_def)
  from read_snapshot_page_quiet [OF assms(1) this, where pos = "Some p" and off = "hp_offset p"
      and e = "hp_end_offset p" and n = n and X = X]
  show ?thesis using assms
    by (auto simp: read_page_def page_offsets_def run_simps open_history_snapshot_quiet)
qed

section \<open>The reverse scanner\<close>

text \<open>Read backwards, a line is its bytes without the final newline, and a record is known by the
  offset at which its line starts.\<close>

definition line_content :: "string \<Rightarrow> string" where
  "line_content l = (if l \<noteq> [] \<and> last l = newline then butlast l else l)"

fun line_starts :: "ext \<Rightarrow> string list \<Rightarrow> nat \<Rightarrow> (nat \<times> history_record) list" where
  "line_starts X [] off = []"
| "line_starts X (l # ls) off =
     (case decode_line X (line_content l) of None \<Rightarrow> [] | Some r \<Rightarrow> [(off, r)])
     @ line_starts X ls (off + length l)"

text \<open>What the closure sees: the records from the newest to the oldest.\<close>

fun offer :: "('s \<Rightarrow> nat \<Rightarrow> history_record \<Rightarrow> bool \<times> 's) \<Rightarrow> (nat \<times> history_record) list \<Rightarrow> 's
    \<Rightarrow> history_record option \<times> 's" where
  "offer accept [] st = (None, st)"
| "offer accept ((off, r) # rs) st =
     (case accept st off r of (True, st') \<Rightarrow> (Some r, st') | (False, st') \<Rightarrow> offer accept rs st')"

lemma line_starts_append:
  "line_starts X (ls @ ks) off = line_starts X ls off @ line_starts X ks (off + length (concat ls))"
  by (induction ls arbitrary: off) (simp_all add: add.assoc)

lemma decode_line_Nil [simp]: "decode_line X [] = None"
  by (simp add: decode_line_def)

lemma lines_of_no_newline: "newline \<notin> set p \<Longrightarrow> lines_of p = (if p = [] then [] else [p])"
  by (induction p) auto

lemma last_line_split:
  obtains ys p where "xs = ys @ p" "ys = [] \<or> last ys = newline" "newline \<notin> set p"
proof (cases "newline \<in> set xs")
  case True
  then obtain ys p where "xs = ys @ newline # p" "newline \<notin> set p" by (meson split_list_last)
  then show ?thesis using that [of "ys @ [newline]" p] by simp
next
  case False
  then show ?thesis using that [of "[]" xs] by simp
qed

lemma line_content_simps [simp]:
  "line_content (p @ [newline]) = p" "newline \<notin> set p \<Longrightarrow> line_content p = p"
  by (auto simp: line_content_def dest: last_in_set)

lemma line_starts_newline:
  "line_starts X (lines_of (xs @ [newline])) off = line_starts X (lines_of xs) off"
proof -
  obtain ys p where xs: "xs = ys @ p" "ys = [] \<or> last ys = newline" "newline \<notin> set p"
    by (rule last_line_split)
  have "lines_of (xs @ [newline]) = lines_of ys @ [p @ [newline]]" "lines_of xs = lines_of ys @ lines_of p"
    using xs by (simp_all add: lines_of_append lines_of_single)
  then show ?thesis using xs(3) by (simp add: line_starts_append lines_of_no_newline)
qed

text \<open>The scanner's variables stand for the part \<open>p\<close> of a line it has already passed.\<close>

definition passed :: "string \<Rightarrow> nat \<Rightarrow> string \<Rightarrow> nat option \<Rightarrow> bool \<Rightarrow> bool" where
  "passed p off reversed_line line_start ov \<longleftrightarrow>
     (ov \<longleftrightarrow> length p > MAX_HISTORY_LINE_BYTES) \<and> (\<not> ov \<longrightarrow> reversed_line = rev p)
     \<and> line_start = (if p = [] then None else Some off)"

lemma passed_Nil [simp]: "passed [] off [] None False"
  by (simp add: passed_def)

lemma finish_line_passed:
  "passed p off rl ls ov \<Longrightarrow> finish_line X ls rl ov = decode_line X p"
  by (auto simp: passed_def finish_line_def decode_line_def)

definition scan_end ::
  "ext \<Rightarrow> ('s \<Rightarrow> nat \<Rightarrow> history_record \<Rightarrow> bool \<times> 's) \<Rightarrow> nat
     \<Rightarrow> (history_record \<times> 's) + ('s \<times> string \<times> nat option \<times> bool) \<Rightarrow> history_record option \<times> 's" where
  "scan_end X accept m res = (case res of
     Inl (r, st) \<Rightarrow> (Some r, st)
   | Inr (st, rl, ls, ov) \<Rightarrow>
       (case finish_line X ls rl ov of None \<Rightarrow> (None, st) | Some r \<Rightarrow> offer accept [(m, r)] st))"

lemma scan_bytes_lines:
  assumes "passed p (m + length xs) rl ls ov" "newline \<notin> set p"
  shows "scan_end X accept m (scan_bytes X accept (rev (zip [m..<m + length xs] xs)) st rl ls ov)
    = offer accept (rev (line_starts X (lines_of (xs @ p)) m)) st"
  using assms
proof (induction xs arbitrary: p rl ls ov st rule: rev_induct)
  case Nil
  then show ?case
    using lines_of_no_newline [of p]
    by (auto simp: scan_end_def finish_line_passed split: option.splits)
next
  case (snoc b xs)
  let ?o = "m + length xs"
  have zip: "rev (zip [m..<m + length (xs @ [b])] (xs @ [b])) = (?o, b) # rev (zip [m..<?o] xs)"
    by simp
  show ?case
  proof (cases "b = newline")
    case True
    have "line_starts X (lines_of ((xs @ [b]) @ p)) m
        = line_starts X (lines_of xs) m @ line_starts X (lines_of p) (Suc ?o)"
      using True lines_of_append [of "xs @ [newline]" p]
      by (simp add: line_starts_append line_starts_newline)
    moreover have "line_starts X (lines_of p) (Suc ?o)
        = (case decode_line X p of None \<Rightarrow> [] | Some r \<Rightarrow> [(Suc ?o, r)])"
      using snoc.prems(2) by (simp add: lines_of_no_newline)
    ultimately show ?thesis
      using True snoc.IH [of "[]" "[]" None False] finish_line_passed [OF snoc.prems(1), of X]
      unfolding zip by (auto simp: scan_end_def split: option.splits prod.splits bool.splits)
  next
    case False
    obtain rl' ov' where step: "passed (b # p) ?o rl' (Some ?o) ov'"
      "scan_bytes X accept ((?o, b) # rev (zip [m..<?o] xs)) st rl ls ov
         = scan_bytes X accept (rev (zip [m..<?o] xs)) st rl' (Some ?o) ov'"
    proof (cases "ov \<or> length rl = MAX_HISTORY_LINE_BYTES")
      case True
      then show ?thesis
        using that [of rl True] that [of "[]" True] snoc.prems(1) False by (auto simp: passed_def)
    next
      case ov: False
      then show ?thesis
        using that [of "rl @ [b]" False] snoc.prems(1) False by (auto simp: passed_def)
    qed
    show ?thesis
      using snoc.IH [OF step(1)] snoc.prems(2) False unfolding zip step(2) by simp
  qed
qed

lemma scan_bytes_append:
  "scan_bytes X accept (xs @ ys) st rl ls ov =
     (case scan_bytes X accept xs st rl ls ov of
        Inl res \<Rightarrow> Inl res
      | Inr (st', rl', ls', ov') \<Rightarrow> scan_bytes X accept ys st' rl' ls' ov')"
  by (induction X accept xs st rl ls ov rule: scan_bytes.induct)
    (auto split: option.splits prod.splits bool.splits)

text \<open>The chunks make no difference: the scan is one pass over the bytes from the end.\<close>

lemma scan_chunks_quiet:
  assumes "quiet w" "m \<le> e" "e \<le> length (bytes_at w history_path)"
  shows "scan_chunks X accept e m st rl ls ov w =
    (Inr (scan_end X accept m (scan_bytes X accept
        (rev (zip [m..<e] (snapshot_rest (bytes_at w history_path) m e))) st rl ls ov)), w)"
  using assms
proof (induction X accept e m st rl ls ov w rule: scan_chunks.induct)
  case (1 X accept e m st rl ls ov w)
  let ?bs = "bytes_at w history_path"
  show ?case
  proof (cases "e > m")
    case False
    then show ?thesis using "1.prems"
      unfolding scan_chunks.simps [of X accept e]
      by (auto simp: scan_end_def split: option.splits prod.splits bool.splits)
  next
    case True
    define c where "c = max (e - REVERSE_CHUNK_BYTES) m"
    have c: "m \<le> c" "c < e" using True by (auto simp: c_def limits)
    have rd: "and_then (io fs_call) (\<lambda>_. io (fs_read_exact history_path c (e - c))) w
        = (Inr (snapshot_rest ?bs c e), w)"
      using "1.prems" c by (simp add: run_simps snapshot_rest_def)
    have split: "rev (zip [m..<e] (snapshot_rest ?bs m e))
        = rev (zip [c..<e] (snapshot_rest ?bs c e)) @ rev (zip [m..<c] (snapshot_rest ?bs m c))"
    proof -
      have "[m..<e] = [m..<c] @ [c..<e]" using c by (metis le_add_diff_inverse less_imp_le upt_add_eq_append)
      moreover have "snapshot_rest ?bs m e = snapshot_rest ?bs m c @ snapshot_rest ?bs c e"
      proof -
        have "snapshot_rest ?bs m e = take (c - m) (snapshot_rest ?bs m e) @ drop (c - m) (snapshot_rest ?bs m e)"
          by simp
        also have "take (c - m) (snapshot_rest ?bs m e) = snapshot_rest ?bs m c"
          using c by (simp add: snapshot_rest_def min_def)
        finally show ?thesis using c by (simp add: snapshot_rest_drop)
      qed
      moreover have "length (snapshot_rest ?bs m c) = length [m..<c]"
        using "1.prems" c by (simp add: length_snapshot_rest)
      ultimately show ?thesis by (simp add: zip_append)
    qed
    show ?thesis
    proof (cases "scan_bytes X accept (rev (zip [c..<e] (snapshot_rest ?bs c e))) st rl ls ov")
      case (Inl res)
      then show ?thesis using True rd unfolding scan_chunks.simps [of X accept e] split
        by (auto simp: scan_bytes_append scan_end_def Let_def c_def [symmetric] split: prod.splits)
    next
      case (Inr q)
      obtain st' rl' ls' ov' where q: "q = (st', rl', ls', ov')" by (cases q)
      have "scan_chunks X accept e m st rl ls ov w = scan_chunks X accept c m st' rl' ls' ov' w"
        using True rd Inr q unfolding scan_chunks.simps [of X accept e]
        by (simp add: Let_def c_def [symmetric])
      also note "1.IH" [OF True c_def rd [symmetric] refl Inr q [symmetric] refl refl "1.prems"(1) c(1)]
      finally show ?thesis using "1.prems" c Inr q unfolding split
        by (simp add: scan_bytes_append)
    qed
  qed
qed

lemma scan_reverse_quiet:
  assumes "quiet w" "e \<le> length (bytes_at w history_path)"
  shows "scan_reverse X e m accept st w =
    (Inr (offer accept (rev (line_starts X (lines_of (snapshot_rest (bytes_at w history_path) m e)) m)) st), w)"
proof (cases "m \<le> e")
  case True
  let ?r = "snapshot_rest (bytes_at w history_path) m e"
  have "m + length ?r = e" using assms(2) True by (simp add: length_snapshot_rest)
  then show ?thesis
    using scan_chunks_quiet [OF assms(1) True assms(2), of X accept st "[]" None False]
      scan_bytes_lines [of "[]" m ?r "[]" None False X accept st]
    by (simp add: scan_reverse_def)
next
  case False
  then show ?thesis
    by (simp add: scan_reverse_def scan_chunks.simps [of X accept e] snapshot_rest_def finish_line_def)
qed

text \<open>The two readers agree on a log when every line means the same with and without its newline.\<close>

definition same_both_ways :: "ext \<Rightarrow> string \<Rightarrow> bool" where
  "same_both_ways X bs \<longleftrightarrow> (\<forall>l \<in> set (lines_of bs). decode_line X (line_content l) = decode_line X l)"

lemma ok_eqI:
  assumes "\<And>r. a = Inr r \<longleftrightarrow> b = Inr r"
  shows "(case a of Inr r \<Rightarrow> Some r | Inl _ \<Rightarrow> None) = (case b of Inr r \<Rightarrow> Some r | Inl _ \<Rightarrow> None)"
proof (cases b)
  case (Inl y)
  with assms show ?thesis by (cases a) auto
next
  case (Inr y)
  with assms [of y] show ?thesis by simp
qed

lemma decode_line_content:
  assumes "newline_blind X" "length l \<noteq> Suc MAX_HISTORY_LINE_BYTES"
  shows "decode_line X (line_content l) = decode_line X l"
proof (cases "l \<noteq> [] \<and> last l = newline")
  case True
  then obtain c where l: "l = c @ [newline]" by (metis append_butlast_last_id)
  have "is_ascii_whitespace newline" by (simp add: is_ascii_whitespace_def newline_def byte_def)
  moreover have "(case history_from_slice X (c @ [newline]) of Inr r \<Rightarrow> Some r | Inl _ \<Rightarrow> None)
      = (case history_from_slice X c of Inr r \<Rightarrow> Some r | Inl _ \<Rightarrow> None)"
    using assms(1) by (intro ok_eqI) (simp add: newline_blind_def)
  ultimately show ?thesis
    using assms(2) unfolding l by (auto simp: decode_line_def not_less le_Suc_eq)
next
  case False
  then show ?thesis by (auto simp: line_content_def)
qed

lemma same_both_waysI:
  assumes "newline_blind X" "\<forall>l \<in> set (lines_of bs). length l \<noteq> Suc MAX_HISTORY_LINE_BYTES"
  shows "same_both_ways X bs"
  using assms by (simp add: same_both_ways_def decode_line_content)

lemma length_line_starts:
  "\<forall>l \<in> set ls. decode_line X (line_content l) = decode_line X l \<Longrightarrow>
   map snd (line_starts X ls off) = List.map_filter (decode_line X) ls"
  by (induction ls arbitrary: off) (auto simp: map_filter_simps split: option.splits)

lemma located_from_start:
  assumes "\<forall>l \<in> set ls. decode_line X (line_content l) = decode_line X l"
    and "i < length (line_starts X ls off)"
  shows "\<exists>k. fst (line_starts X ls off ! i) = off + length (concat (take k ls))
    \<and> located X e (drop k ls) (off + length (concat (take k ls))) = drop i (located X e ls off)"
  using assms
proof (induction ls arbitrary: off i)
  case (Cons l ls)
  show ?case
  proof (cases "decode_line X l")
    case None
    then obtain k where "fst (line_starts X ls (off + length l) ! i) = off + length l + length (concat (take k ls))"
      "located X e (drop k ls) (off + length l + length (concat (take k ls))) = drop i (located X e ls (off + length l))"
      using Cons.IH [of i "off + length l"] Cons.prems by auto
    then show ?thesis using None Cons.prems by (intro exI [of _ "Suc k"]) (simp add: add.assoc)
  next
    case (Some r)
    show ?thesis
    proof (cases i)
      case 0
      then show ?thesis using Some Cons.prems by (intro exI [of _ 0]) simp
    next
      case (Suc j)
      then obtain k where "fst (line_starts X ls (off + length l) ! j) = off + length l + length (concat (take k ls))"
        "located X e (drop k ls) (off + length l + length (concat (take k ls))) = drop j (located X e ls (off + length l))"
        using Cons.IH [of j "off + length l"] Cons.prems Some by auto
      then show ?thesis using Some Suc Cons.prems by (intro exI [of _ "Suc k"]) (simp add: add.assoc)
    qed
  qed
qed simp

lemma lines_of_drop:
  "lines_of (drop (length (concat (take k (lines_of bs)))) bs) = drop k (lines_of bs)"
proof (induction k arbitrary: bs)
  case (Suc k)
  show ?case
  proof (cases "bs = []")
    case False
    then show ?thesis
      using Suc [of "drop (length (first_line bs)) bs"] lines_of_unfold [OF False]
      by (simp add: add.commute)
  qed simp
qed simp

lemma offer_count_recent:
  "seen < limit \<Longrightarrow>
   offer (count_recent limit) rs (seen, oldest) =
     (if limit - seen \<le> length rs
      then (Some (snd (rs ! (limit - seen - 1))), (limit, fst (rs ! (limit - seen - 1))))
      else (None, (seen + length rs, if rs = [] then oldest else fst (last rs))))"
proof (induction rs arbitrary: seen oldest)
  case (Cons p rs)
  obtain off r where p: "p = (off, r)" by fastforce
  show ?case
  proof (cases "Suc seen = limit")
    case True
    then show ?thesis by (auto simp: p count_recent_def)
  next
    case False
    then have "limit - seen - 1 = Suc (limit - Suc seen - 1)" using Cons.prems by simp
    then show ?thesis using Cons.IH [of "Suc seen" off] Cons.prems False
      by (auto simp: p count_recent_def)
  qed
qed simp

lemma recent_start_quiet:
  assumes "quiet w" "bytes_at w history_path = bs" "same_both_ways X bs" "0 < limit"
  shows "\<exists>off. recent_start X (length bs) limit w = (Inr off, w) \<and> off \<le> length bs
    \<and> history_from X bs off (length bs)
        = drop (length (log_records X bs) - limit) (history_from X bs 0 (length bs))"
proof -
  let ?e = "length bs"
  define ls where "ls = lines_of bs"
  define ss where "ss = line_starts X ls 0"
  have rest: "snapshot_rest bs 0 ?e = bs" by (simp add: snapshot_rest_def)
  have same: "\<forall>l \<in> set ls. decode_line X (line_content l) = decode_line X l"
    using assms(3) by (simp add: same_both_ways_def ls_def)
  have len: "length ss = length (log_records X bs)"
    using length_line_starts [OF same, of 0] by (metis length_map log_records_def ls_def ss_def)
  define off where "off = (if ss = [] then ?e else fst (ss ! (length ss - limit)))"
  have "recent_start X ?e limit w = (Inr off, w)"
    using scan_reverse_quiet [OF assms(1), of ?e X 0 "count_recent limit" "(0, ?e)"] assms
      offer_count_recent [OF assms(4), of "rev ss" ?e]
    by (auto simp: recent_start_def run_simps rest ls_def [symmetric] ss_def [symmetric] off_def
        rev_nth last_rev hd_conv_nth)
  moreover have "off \<le> ?e \<and> history_from X bs off ?e
      = drop (length ss - limit) (history_from X bs 0 ?e)"
  proof (cases "ss = []")
    case True
    then have "history_from X bs 0 ?e = []"
      using len history_from_records [of X bs 0] by simp
    then show ?thesis using True by (simp add: off_def)
  next
    case False
    then have "length ss - limit < length ss" using assms(4) by simp
    then obtain k where k: "off = length (concat (take k ls))"
      "located X ?e (drop k ls) off = drop (length ss - limit) (located X ?e ls 0)"
      using located_from_start [OF same, of "length ss - limit" 0 ?e] False
      by (auto simp: ss_def off_def)
    have "length (concat (take k ls)) \<le> length (concat ls)"
      by (metis append_take_drop_id concat_append le_add1 length_append)
    then have "off \<le> ?e" using k(1) by (simp add: ls_def)
    then show ?thesis
      using k lines_of_drop [of k bs]
      by (simp add: history_from_def snapshot_rest_def ls_def)
  qed
  ultimately show ?thesis using len by auto
qed

lemma offer_find:
  "offer (\<lambda>(_ :: unit) _ r. (P r, ())) rs () = (List.find P (map snd rs), ())"
  by (induction rs) auto

lemma latest_completion_quiet:
  assumes "quiet w" "node_at w history_path = Some (Regular bs)"
  shows "latest_completion X i cursor w =
    (Inr (List.find (completes i cursor)
       (rev (map snd (line_starts X
          (lines_of (drop (case cursor of None \<Rightarrow> 0 | Some c \<Rightarrow> ac_offset c) bs))
          (case cursor of None \<Rightarrow> 0 | Some c \<Rightarrow> ac_offset c))))), w)"
proof -
  have bs: "bytes_at w history_path = bs" using assms(2) by (simp add: bytes_at_def)
  have "snapshot_rest bs m (length bs) = drop m bs" for m by (simp add: snapshot_rest_def)
  then show ?thesis
    using assms bs
    by (simp add: latest_completion_def run_simps open_history_snapshot_quiet scan_reverse_quiet
        offer_find rev_map Let_def)
qed

lemma latest_completion_missing:
  assumes "quiet w" "node_at w history_path = None"
  shows "latest_completion X i cursor w = (Inr None, w)"
  using assms by (simp add: latest_completion_def run_simps open_history_snapshot_missing)

section \<open>Appending\<close>

text \<open>The delimiter the writer supplies when the last line has none.\<close>

definition repair :: "string \<Rightarrow> string" where
  "repair bs = (if bs \<noteq> [] \<and> last bs \<noteq> newline then [newline] else [])"

lemma has_final_newline_result:
  assumes "has_final_newline n w = (Inr b, w')" "n = length (bytes_at w history_path)" "0 < n"
  shows "b \<longleftrightarrow> last (bytes_at w history_path) = newline"
proof -
  from assms(1) obtain w1 bs where c: "fs_call w = (Inr (), w1)"
    and rd: "fs_read_at history_path (n - 1) 1 w1 = (Inr bs, w')" and bs: "length bs = 1" "b \<longleftrightarrow> bs ! 0 = newline"
    unfolding has_final_newline_def fs_read_exact_def
    by (auto elim!: and_then_InrE simp: run_simps split: if_splits)
  have eq: "bytes_at w1 history_path = bytes_at w history_path"
    by (rule reads_only_frame(1) [OF reads_only_calls(1) c])
  have "bs = take 1 (drop (n - 1) (bytes_at w1 history_path))"
    using rd by (auto simp: fs_read_at_def syscall_def split: list.splits option.splits)
  then have "bs ! 0 = bytes_at w history_path ! (n - 1)" using eq assms(2,3) by simp
  then show ?thesis using bs assms(2,3) by (simp add: last_conv_nth)
qed

lemma has_final_newline_reads [reads]: "reads_only (has_final_newline n)"
  by (auto simp: has_final_newline_def intro!: reads)

lemma log_write_outcome:
  assumes "io (fs_write_all history_path bs) w = (r, w')" "node_at w history_path = Some (Regular old)"
  shows "\<exists>k. node_at w' history_path = Some (Regular (old @ take k bs)) \<and> (r = Inr () \<longrightarrow> take k bs = bs)"
proof -
  obtain q where "fs_write_all history_path bs w = (q, w')" "r = map_err Io q"
    using assms(1) by (auto simp: map_error_def split: prod.splits)
  then show ?thesis using fs_write_all_outcome [OF _ assms(2)] by (cases q) fastforce+
qed

lemma io_call_frame: "io fs_call w = (r, w') \<Longrightarrow> node_at w' p = node_at w p"
  by (rule reads_only_frame(2) [of "io fs_call"]) (intro reads, simp)

lemma repair_step_outcome:
  assumes "(if length old > 0
            then and_then (io (has_final_newline (length old))) (\<lambda>b.
                   if \<not> b then io (fs_write_all history_path [newline]) else ok ())
            else ok ()) w = (r, w')"
    and node: "node_at w history_path = Some (Regular old)"
  shows "\<exists>k. node_at w' history_path = Some (Regular (old @ take k (repair old)))
    \<and> (r = Inr () \<longrightarrow> take k (repair old) = repair old)"
proof (cases "old = []")
  case True
  then show ?thesis using assms by (auto simp: run_simps repair_def)
next
  case False
  have old: "bytes_at w history_path = old" using node by (simp add: bytes_at_def)
  obtain q w1 where q: "io (has_final_newline (length old)) w = (q, w1)" by fastforce
  have node1: "node_at w1 history_path = Some (Regular old)"
    using reads_only_frame(2) [OF reads_only_map_error [OF has_final_newline_reads] q] node by simp
  show ?thesis
  proof (cases q)
    case (Inl e)
    then have "r = Inl e" "w' = w1" using assms(1) False q by (simp_all add: and_then_def)
    then show ?thesis using node1 by (intro exI [of _ 0]) simp
  next
    case (Inr b)
    have "has_final_newline (length old) w = (Inr b, w1)"
      using q unfolding Inr by (rule map_error_InrE)
    from has_final_newline_result [OF this] have b: "b \<longleftrightarrow> last old = newline"
      using False by (simp add: old)
    show ?thesis
    proof (cases b)
      case True
      then have "r = Inr ()" "w' = w1" using assms(1) False q Inr by (simp_all add: and_then_def run_simps)
      then show ?thesis using node1 b True by (intro exI [of _ 0]) (simp add: repair_def)
    next
      case nb: False
      then have wr: "io (fs_write_all history_path [newline]) w1 = (r, w')"
        using assms(1) False q Inr by (simp add: and_then_def)
      have "repair old = [newline]" using b nb False by (simp add: repair_def)
      then show ?thesis using log_write_outcome [OF wr node1] by simp
    qed
  qed
qed

lemma append_line_outcome:
  assumes "append_line line (length old) w = (r, w')"
    and node: "node_at w history_path = Some (Regular old)"
  shows "\<exists>k. node_at w' history_path = Some (Regular (old @ take k (repair old @ line)))
    \<and> (r = Inr () \<longrightarrow> take k (repair old @ line) = repair old @ line)"
proof -
  obtain q1 w1 where one: "(if length old > 0
            then and_then (io (has_final_newline (length old))) (\<lambda>b.
                   if \<not> b then io (fs_write_all history_path [newline]) else ok ())
            else ok ()) w = (q1, w1)" by fastforce
  from repair_step_outcome [OF one node] obtain k1
    where k1: "node_at w1 history_path = Some (Regular (old @ take k1 (repair old)))"
      "q1 = Inr () \<Longrightarrow> take k1 (repair old) = repair old" by blast
  show ?thesis
  proof (cases q1)
    case (Inl e)
    then have "r = Inl e" "w' = w1" using assms(1) one by (simp_all add: append_line_def and_then_def)
    then show ?thesis using k1
      by (intro exI [of _ "min k1 (length (repair old))"]) (auto simp: min_def)
  next
    case (Inr u)
    obtain q2 w2 where two: "io (fs_write_all history_path line) w1 = (q2, w2)" by fastforce
    obtain k2 where k2: "node_at w2 history_path = Some (Regular (old @ repair old @ take k2 line))"
      "q2 = Inr () \<Longrightarrow> take k2 line = line"
      using log_write_outcome [OF two k1(1)] k1(2) Inr by auto
    have "node_at w' history_path = node_at w2 history_path \<and> (r = Inr () \<longrightarrow> q2 = Inr ())"
      using assms(1) one two Inr io_call_frame
      by (cases q2) (auto simp: append_line_def and_then_def)
    then show ?thesis using k2 by (intro exI [of _ "length (repair old) + k2"]) auto
  qed
qed

lemma fs_open_append_outcome:
  assumes "fs_open_append p w = (r, w')"
  shows "bytes_at w' p = bytes_at w p"
    and "r = Inr () \<Longrightarrow> node_at w' p = Some (Regular (bytes_at w p))"
    and "node_at w p \<noteq> Some Special \<Longrightarrow> node_at w' p \<noteq> Some Special"
  using assms
  by (auto simp: fs_open_append_def syscall_def bytes_at_def
      split: list.splits option.splits node.splits)

lemma fs_metadata_result:
  "fs_metadata p w = (Inr (b, n), w') \<Longrightarrow> \<exists>x. node_at w p = Some x \<and> n = node_len x \<and> (b \<longleftrightarrow> x \<noteq> Special)"
  by (auto simp: fs_metadata_def syscall_def split: list.splits option.splits)

lemma sync_parent_reads [reads]: "reads_only sync_parent_directory"
  by (simp add: sync_parent_directory_def reads)

text \<open>An append, however it ends, leaves the old log followed by a prefix of the new line.\<close>

lemma history_append_outcome:
  assumes "history_append X r w = (res, w')" "history_to_vec X r = Inr v"
  defines "old \<equiv> bytes_at w history_path"
  shows "\<exists>k. bytes_at w' history_path = old @ take k (repair old @ v @ [newline])
    \<and> (res = Inr () \<longrightarrow> node_at w' history_path = Some (Regular (old @ repair old @ v @ [newline])))
    \<and> (node_at w history_path \<noteq> Some Special \<longrightarrow> node_at w' history_path \<noteq> Some Special)"
proof -
  obtain q1 w1 where one: "fs_open_append history_path w = (q1, w1)" by fastforce
  note opened = fs_open_append_outcome [OF one]
  show ?thesis
  proof (cases q1)
    case (Inl e)
    then have "res = Inl (Io e)" "w' = w1"
      using assms(1,2) one by (simp_all add: history_append_def and_then_def run_simps)
    then show ?thesis using opened by (intro exI [of _ 0]) (simp add: old_def)
  next
    case (Inr u)
    have node1: "node_at w1 history_path = Some (Regular old)" using opened(2) Inr by (simp add: old_def)
    obtain q2 w2 where two: "fs_metadata history_path w1 = (q2, w2)" by fastforce
    have node2: "node_at w2 history_path = Some (Regular old)"
      using reads_only_frame(2) [OF reads_only_calls(4) two] node1 by simp
    show ?thesis
    proof (cases q2)
      case (Inl e)
      then have "res = Inl (Io e)" "w' = w2"
        using assms(1,2) one two Inr by (simp_all add: history_append_def and_then_def run_simps)
      then show ?thesis using node2 by (intro exI [of _ 0]) (simp add: bytes_at_def)
    next
      case q2: (Inr md)
      obtain b where md: "md = (b, length old)"
        using fs_metadata_result [of history_path w1] two q2 node1
        by (cases md) (auto simp: node_len_def)
      obtain q3 w3 where three: "append_line (v @ [newline]) (length old) w2 = (q3, w3)" by fastforce
      obtain k where k: "node_at w3 history_path = Some (Regular (old @ take k (repair old @ v @ [newline])))"
        "q3 = Inr () \<Longrightarrow> take k (repair old @ v @ [newline]) = repair old @ v @ [newline]"
        using append_line_outcome [OF three node2] by blast
      have "node_at w' history_path = node_at w3 history_path \<and> (res = Inr () \<longrightarrow> q3 = Inr ())"
      proof (cases q3)
        case (Inl e)
        then show ?thesis using assms(1,2) one two Inr q2 md three
          by (simp add: history_append_def and_then_def run_simps)
      next
        case q3: (Inr u)
        then have "(if length old = 0 then sync_parent_directory else ok ()) w3 = (res, w')"
          using assms(1,2) one two Inr q2 md three
          by (simp add: history_append_def and_then_def run_simps)
        then show ?thesis using reads_only_frame(2) [OF sync_parent_reads] q3
          by (auto simp: run_simps split: if_splits)
      qed
      then show ?thesis using k by (auto simp: bytes_at_def)
    qed
  qed
qed

text \<open>The readers disagree about a line whose content has exactly the maximal length; the laws of
  appending are stated for logs without one.\<close>

definition no_edge_line :: "string \<Rightarrow> bool" where
  "no_edge_line bs \<longleftrightarrow> (\<forall>l \<in> set (lines_of bs). length (line_content l) \<noteq> MAX_HISTORY_LINE_BYTES)"

lemma no_edge_line_same:
  assumes "newline_blind X" "no_edge_line bs"
  shows "same_both_ways X bs"
  unfolding same_both_ways_def
proof
  fix l assume l: "l \<in> set (lines_of bs)"
  show "decode_line X (line_content l) = decode_line X l"
  proof (cases "l \<noteq> [] \<and> last l = newline")
    case True
    then show ?thesis using l assms
      by (intro decode_line_content) (auto simp: no_edge_line_def line_content_def)
  qed (auto simp: line_content_def)
qed

lemma log_records_append:
  "xs = [] \<or> last xs = newline \<Longrightarrow> log_records X (xs @ ys) = log_records X xs @ log_records X ys"
  by (simp add: log_records_def lines_of_append map_filter_append)

lemma log_records_Nil [simp]: "log_records X [] = []"
  by (simp add: log_records_def map_filter_simps)

lemma log_records_line:
  "newline \<notin> set p \<Longrightarrow> log_records X p = (case decode_line X p of None \<Rightarrow> [] | Some r \<Rightarrow> [r])"
  "newline \<notin> set p \<Longrightarrow>
   log_records X (p @ [newline]) = (case decode_line X (p @ [newline]) of None \<Rightarrow> [] | Some r \<Rightarrow> [r])"
  by (auto simp: log_records_def lines_of_no_newline lines_of_single map_filter_simps split: option.splits)

lemma log_records_newline:
  assumes "newline_blind X" "no_edge_line bs"
  shows "log_records X (bs @ [newline]) = log_records X bs"
proof -
  obtain ys p where bs: "bs = ys @ p" "ys = [] \<or> last ys = newline" "newline \<notin> set p"
    by (rule last_line_split)
  have "decode_line X (p @ [newline]) = decode_line X p"
  proof (cases "p = []")
    case False
    then have "p \<in> set (lines_of bs)" using bs by (simp add: lines_of_append lines_of_no_newline)
    then have "length p \<noteq> MAX_HISTORY_LINE_BYTES" using assms(2) bs(3) by (auto simp: no_edge_line_def)
    then show ?thesis using decode_line_content [OF assms(1), of "p @ [newline]"] by simp
  qed (simp add: decode_line_def is_ascii_whitespace_def newline_def byte_def)
  then show ?thesis
    using bs by (simp add: log_records_append log_records_line)
qed

lemma repaired_boundary: "bs @ repair bs = [] \<or> last (bs @ repair bs) = newline"
  by (simp add: repair_def)

lemma log_records_repair:
  "newline_blind X \<Longrightarrow> no_edge_line bs \<Longrightarrow> log_records X (bs @ repair bs) = log_records X bs"
  by (simp add: repair_def log_records_newline)

lemma decode_encoded:
  assumes "history_codec X" "history_to_vec X r = Inr v" "length v < MAX_HISTORY_LINE_BYTES"
  shows "decode_line X v = Some r" "decode_line X (v @ [newline]) = Some r"
proof -
  have from_v: "history_from_slice X v = Inr r" using history_codecD(2) assms by blast
  have "\<not> list_all is_ascii_whitespace v" using history_codecD(5) [OF assms(1)] from_v by blast
  then show v: "decode_line X v = Some r" using assms(3) from_v by (simp add: decode_line_def)
  show "decode_line X (v @ [newline]) = Some r"
    using decode_line_content [OF history_codecD(1) [OF assms(1)], of "v @ [newline]"] assms(3) v by simp
qed

lemma torn_line_records:
  assumes "history_codec X" "history_to_vec X r = Inr v" "length v < MAX_HISTORY_LINE_BYTES"
  shows "log_records X (take k (v @ [newline])) = (if k < length v then [] else [r])"
proof -
  have nl: "newline \<notin> set v" using history_codecD(3) assms by blast
  consider "k < length v" | "k = length v" | "k > length v" by linarith
  then show ?thesis
  proof cases
    case 1
    have "newline \<notin> set (take k v)" using nl by (meson in_set_takeD)
    moreover have "decode_line X (take k v) = None"
      using history_codecD(4) [OF assms(1,2) 1] by (auto simp: decode_line_def split: sum.splits)
    ultimately show ?thesis using 1 by (simp add: log_records_line)
  next
    case 2
    then show ?thesis using nl decode_encoded(1) [OF assms] by (simp add: log_records_line)
  next
    case 3
    then have "take k (v @ [newline]) = v @ [newline]" by simp
    then show ?thesis using 3 nl decode_encoded(2) [OF assms] by (simp add: log_records_line)
  qed
qed

lemma torn_append_records:
  assumes codec: "history_codec X" "history_to_vec X r = Inr v" "length v < MAX_HISTORY_LINE_BYTES"
    and edge: "no_edge_line xs" and old: "xs = [] \<or> last xs = last old \<and> old \<noteq> []"
  shows "log_records X (xs @ take k (repair old @ v @ [newline]))
    = log_records X xs @ (if k < length (repair old @ v) then [] else [r])"
proof (cases "repair old = []")
  case True
  then have "xs = [] \<or> last xs = newline" using old by (auto simp: repair_def split: if_splits)
  then show ?thesis using True torn_line_records [OF codec] by (simp add: log_records_append)
next
  case False
  then have rep: "repair old = [newline]" by (simp add: repair_def split: if_splits)
  note blind = history_codecD(1) [OF codec(1)]
  show ?thesis
  proof (cases k)
    case (Suc j)
    have "log_records X ((xs @ [newline]) @ take j (v @ [newline]))
        = log_records X (xs @ [newline]) @ log_records X (take j (v @ [newline]))"
      by (rule log_records_append) simp
    then show ?thesis
      using Suc torn_line_records [OF codec, of j] log_records_newline [OF blind edge] by (simp add: rep)
  qed (simp add: rep)
qed

text \<open>Appending is atomic on the records of the log: it adds the record or nothing, and after a
  success it has added it.\<close>

lemma history_append_records:
  assumes codec: "history_codec X" "history_to_vec X r = Inr v" "length v < MAX_HISTORY_LINE_BYTES"
    and run: "history_append X r w = (res, w')" and edge: "no_edge_line (bytes_at w history_path)"
  shows "log_records X (bytes_at w' history_path) \<in>
      {log_records X (bytes_at w history_path), log_records X (bytes_at w history_path) @ [r]}
    \<and> (res = Inr () \<longrightarrow>
       log_records X (bytes_at w' history_path) = log_records X (bytes_at w history_path) @ [r])"
proof -
  let ?old = "bytes_at w history_path"
  obtain k where k: "bytes_at w' history_path = ?old @ take k (repair ?old @ v @ [newline])"
    and whole: "res = Inr () \<longrightarrow> node_at w' history_path = Some (Regular (?old @ repair ?old @ v @ [newline]))"
    using history_append_outcome [OF run codec(2)] by blast
  have torn: "log_records X (?old @ take j (repair ?old @ v @ [newline]))
    = log_records X ?old @ (if j < length (repair ?old @ v) then [] else [r])" for j
    by (rule torn_append_records [OF codec edge]) auto
  have "log_records X (bytes_at w' history_path) = log_records X ?old @ [r]" if "res = Inr ()"
    using torn [of "length (repair ?old @ v @ [newline])"] whole that by (simp add: bytes_at_def)
  then show ?thesis using torn [of k] k by simp
qed

section \<open>Looking an attempt up\<close>

definition is_attempt :: "ext \<Rightarrow> string \<Rightarrow> string \<Rightarrow> bool" where
  "is_attempt X aid l \<longleftrightarrow> (case history_from_slice X l of Inr r \<Rightarrow> attempt_id r = aid | Inl _ \<Rightarrow> False)"

lemma contains_loop_step:
  assumes "cur < e"
  shows "contains_loop X aid cur e w =
    (case io (read_snapshot_line X cur e [] False) w of
       (Inl a, w') \<Rightarrow> (Inl a, w')
     | (Inr (c, l, ov), w') \<Rightarrow>
         if \<not> ov \<and> is_attempt X aid l then (Inr True, w') else contains_loop X aid c e w')"
proof -
  obtain q w1 where "io (read_snapshot_line X cur e [] False) w = (q, w1)" by fastforce
  then show ?thesis
    using assms unfolding contains_loop.simps [of X aid cur]
    by (cases q) (auto simp: is_attempt_def split: sum.splits)
qed

lemma contains_loop_end: "\<not> cur < e \<Longrightarrow> contains_loop X aid cur e w = (Inr False, w)"
  by (simp add: contains_loop.simps)

lemma contains_loop_reads [reads]: "reads_only (contains_loop X aid cur e)"
proof (rule reads_onlyI)
  fix w r w'
  show "contains_loop X aid cur e w = (r, w') \<Longrightarrow>
    \<exists>s. w' = w\<lparr>script := s\<rparr> \<and> suffix s (script w)"
  proof (induction "e - cur" arbitrary: cur w r w' rule: less_induct)
    case less
    show ?case
    proof (cases "cur < e")
      case False
      then show ?thesis using less.prems by (auto simp: contains_loop_end)
    next
      case True
      obtain q w1 where q: "io (read_snapshot_line X cur e [] False) w = (q, w1)" by fastforce
      obtain s where s: "w1 = w\<lparr>script := s\<rparr>" "suffix s (script w)"
        using reads_onlyD [OF reads_only_map_error [OF read_snapshot_line_reads] q] by blast
      consider (stop) "w' = w1"
        | (go) c l ov where "q = Inr (c, l, ov)" "contains_loop X aid c e w1 = (r, w')"
        using less.prems q by (auto simp: contains_loop_step [OF True] split: sum.splits if_splits)
      then show ?thesis
      proof cases
        case stop
        then show ?thesis using s by blast
      next
        case go
        then have "e - c < e - cur" using io_line_progress q True by blast
        then show ?thesis using less.hyps go(2) s by fastforce
      qed
    qed
  qed
qed

lemma is_attempt_decode:
  assumes "history_codec X"
  shows "length l \<le> MAX_HISTORY_LINE_BYTES \<and> is_attempt X aid l
    \<longleftrightarrow> (\<exists>r. decode_line X l = Some r \<and> attempt_id r = aid)"
  using history_codecD(5) [OF assms, of l]
  by (auto simp: is_attempt_def decode_line_def split: sum.splits)

lemma contains_loop_result:
  assumes "history_codec X" "contains_loop X aid cur e w = (Inr b, w')"
    and "cur \<le> e" "e = length (bytes_at w history_path)"
  shows "b \<longleftrightarrow> aid \<in> attempt_id ` set (log_records X (drop cur (bytes_at w history_path)))"
  using assms(2-4)
proof (induction "e - cur" arbitrary: cur w rule: less_induct)
  case less
  let ?bs = "bytes_at w history_path"
  show ?case
  proof (cases "cur < e")
    case False
    then show ?thesis using less.prems by (auto simp: contains_loop_end)
  next
    case True
    have rest: "snapshot_rest ?bs cur e = drop cur ?bs" using less.prems(3) by (simp add: snapshot_rest_def)
    define fl where "fl = first_line (drop cur ?bs)"
    obtain q w1 where q: "io (read_snapshot_line X cur e [] False) w = (q, w1)" by fastforce
    with less.prems(1) obtain c l ov where p: "q = Inr (c, l, ov)"
      by (cases q) (auto simp: contains_loop_step [OF True])
    have rd: "read_snapshot_line X cur e [] False w = (Inr (c, l, ov), w1)"
      using q unfolding p by (rule map_error_InrE)
    have res: "c = cur + length fl" "ov \<longleftrightarrow> length fl > MAX_HISTORY_LINE_BYTES" "\<not> ov \<Longrightarrow> l = fl"
      using read_snapshot_line_result [OF rd less.prems(2)] less.prems(3) rest True
      by (simp_all add: fl_def)
    have bs1: "bytes_at w1 history_path = ?bs" by (rule reads_only_frame(1) [OF read_snapshot_line_reads rd])
    have recs: "log_records X (drop cur ?bs)
        = (case decode_line X fl of None \<Rightarrow> [] | Some r \<Rightarrow> [r]) @ log_records X (drop c ?bs)"
      using True less.prems(3) lines_of_unfold [of "drop cur ?bs"] res(1)
      by (simp add: log_records_def map_filter_simps fl_def add.commute split: option.splits)
    have ce: "c \<le> e" using first_line_snapshot_le [of cur e ?bs] less.prems rest res(1) by (simp add: fl_def)
    show ?thesis
    proof (cases "\<not> ov \<and> is_attempt X aid l")
      case found: True
      then have "b" using less.prems(1) q p by (simp add: contains_loop_step [OF True])
      moreover have "\<exists>r. decode_line X fl = Some r \<and> attempt_id r = aid"
        using found res is_attempt_decode [OF assms(1), of fl aid] by auto
      ultimately show ?thesis using recs by auto
    next
      case miss: False
      then have "contains_loop X aid c e w1 = (Inr b, w')"
        using less.prems(1) q p by (auto simp: contains_loop_step [OF True])
      moreover have "e - c < e - cur" using io_line_progress q p True by blast
      ultimately have "b \<longleftrightarrow> aid \<in> attempt_id ` set (log_records X (drop c ?bs))"
        using less.hyps [of c w1] ce less.prems(3) bs1 by simp
      moreover have "\<nexists>r. decode_line X fl = Some r \<and> attempt_id r = aid"
        using miss res is_attempt_decode [OF assms(1), of fl aid] by auto
      ultimately show ?thesis using recs by (auto split: option.splits)
    qed
  qed
qed

lemma contains_loop_total:
  assumes "quiet w" "cur \<le> e" "e = length (bytes_at w history_path)"
  shows "\<exists>b. contains_loop X aid cur e w = (Inr b, w)"
  using assms(2)
proof (induction "e - cur" arbitrary: cur rule: less_induct)
  case less
  show ?case
  proof (cases "cur < e")
    case False
    then show ?thesis by (auto simp: contains_loop_end)
  next
    case True
    obtain c l ov where rd: "read_snapshot_line X cur e [] False w = (Inr (c, l, ov), w)"
      using read_snapshot_line_total [OF assms(1) less.prems] assms(3) by (metis order_refl prod_cases3)
    then have q: "io (read_snapshot_line X cur e [] False) w = (Inr (c, l, ov), w)"
      by (simp add: run_simps)
    have "c \<le> e"
      using read_snapshot_line_result [OF rd less.prems] first_line_snapshot_le [OF less.prems] assms(3)
      by simp
    moreover have "e - c < e - cur" using io_line_progress q True by blast
    ultimately show ?thesis using less.hyps q by (auto simp: contains_loop_step [OF True])
  qed
qed

lemma contains_attempt_reads [reads]: "reads_only (contains_attempt X aid off)"
  by (auto simp: contains_attempt_def intro!: reads)

lemma fs_open_honest:
  assumes "fs_open p w = (Inl e, w')" "honest w" "kind_of e = NotFound"
  shows "node_at w p = None"
  using assms
  by (auto simp: fs_open_def syscall_def honest_def not_found_def
      split: list.splits option.splits if_splits)

lemma contains_attempt_result:
  assumes "history_codec X" "contains_attempt X aid off w = (Inr b, w')" "honest w"
    and reg: "node_at w history_path \<noteq> Some Special"
  shows "b \<longleftrightarrow> aid \<in> attempt_id ` set (log_records X (drop off (bytes_at w history_path)))"
proof -
  let ?bs = "bytes_at w history_path"
  obtain q w1 where q: "fs_open history_path w = (q, w1)" by fastforce
  show ?thesis
  proof (cases q)
    case (Inl e)
    then have "kind_of e = NotFound \<and> \<not> b"
      using assms(2) q by (auto simp: contains_attempt_def and_then_def attempt_def run_simps split: if_splits)
    then have "?bs = []" "\<not> b" using fs_open_honest q Inl assms(3) by (auto simp: bytes_at_def)
    then show ?thesis by simp
  next
    case (Inr u)
    with assms(2) q obtain md w2 w3
      where md: "fs_metadata history_path w1 = (Inr md, w2)" and c: "fs_call w2 = (Inr (), w3)"
        and loop: "contains_loop X aid (min off (snd md)) (snd md) w3 = (Inr b, w')"
      unfolding contains_attempt_def
      by (auto elim!: and_then_InrE map_error_InrE simp: attempt_def Let_def split: prod.splits)
    have node: "node_at w1 history_path = node_at w history_path"
      by (rule reads_only_frame(2) [OF reads_only_calls(3) q])
    have bs3: "bytes_at w3 history_path = ?bs"
      using reads_only_frame(2) [OF reads_only_calls(4) md] reads_only_frame(2) [OF reads_only_calls(1) c] node
      by (simp add: bytes_at_def)
    have len: "snd md = length ?bs"
    proof -
      obtain x where "node_at w history_path = Some x" "snd md = node_len x"
        using fs_metadata_result [of history_path w1 "fst md" "snd md" w2] md node by auto
      then show ?thesis using reg by (cases x) (auto simp: bytes_at_def node_len_def)
    qed
    have "drop (min off (length ?bs)) ?bs = drop off ?bs" by (simp add: min_def)
    then show ?thesis
      using contains_loop_result [OF assms(1) loop] len bs3 by simp
  qed
qed

lemma contains_attempt_total:
  assumes "quiet w" "node_at w history_path \<noteq> Some Special"
  shows "\<exists>b. contains_attempt X aid off w = (Inr b, w)"
proof (cases "node_at w history_path")
  case None
  then show ?thesis using assms by (auto simp: contains_attempt_def run_simps not_found_def)
next
  case (Some n)
  then obtain bs where bs: "n = Regular bs" using assms(2) by (cases n) auto
  then have "length bs = length (bytes_at w history_path)" using Some by (simp add: bytes_at_def)
  from contains_loop_total [OF assms(1) min.cobounded2 this]
  obtain b where "contains_loop X aid (min off (length bs)) (length bs) w = (Inr b, w)" by blast
  then show ?thesis using assms Some bs
    by (simp add: contains_attempt_def run_simps Let_def node_len_def)
qed

text \<open>An attempt recorded with \<open>append_once\<close> at an offset behind which it does not occur ends up in
  the log exactly once, even when the first try dies half way and a second one follows.\<close>

lemma append_once_reads_frame:
  assumes "append_once X r off w = (res, w')" "history_to_vec X r = Inr v"
  shows "\<exists>k. bytes_at w' history_path
    = bytes_at w history_path @ take k (repair (bytes_at w history_path) @ v @ [newline])"
proof -
  obtain q w1 where q: "contains_attempt X (attempt_id r) off w = (q, w1)" by fastforce
  have bs: "bytes_at w1 history_path = bytes_at w history_path"
    by (rule reads_only_frame(1) [OF contains_attempt_reads q])
  consider "w' = w1" | "history_append X r w1 = (res, w')"
    using assms(1) q by (cases q) (auto simp: append_once_def and_then_def run_simps split: if_splits)
  then show ?thesis
  proof cases
    case 1
    then show ?thesis using bs by (intro exI [of _ 0]) simp
  next
    case 2
    then show ?thesis using history_append_outcome [OF 2 assms(2)] bs by auto
  qed
qed

lemma append_once_records:
  assumes codec: "history_codec X" "history_to_vec X r = Inr v" "length v < MAX_HISTORY_LINE_BYTES"
    and run: "append_once X r off w = (Inr (), w')" and w: "honest w" "node_at w history_path \<noteq> Some Special"
    and edge: "no_edge_line (bytes_at w history_path)"
  defines "old \<equiv> bytes_at w history_path"
  shows "log_records X (bytes_at w' history_path) =
    (if attempt_id r \<in> attempt_id ` set (log_records X (drop off old))
     then log_records X old else log_records X old @ [r])"
proof -
  from run obtain b w1 where q: "contains_attempt X (attempt_id r) off w = (Inr b, w1)"
    and k: "(if b then ok () else history_append X r) w1 = (Inr (), w')"
    unfolding append_once_def by (elim and_then_InrE)
  have bs: "bytes_at w1 history_path = old"
    using reads_only_frame(1) [OF contains_attempt_reads q] by (simp add: old_def)
  have b: "b \<longleftrightarrow> attempt_id r \<in> attempt_id ` set (log_records X (drop off old))"
    using contains_attempt_result [OF codec(1) q w] by (simp add: old_def)
  show ?thesis
  proof (cases b)
    case True
    then show ?thesis using k b bs by (auto simp: run_simps)
  next
    case False
    then show ?thesis using k b bs history_append_records [OF codec, of w1 "Inr ()" w'] edge
      by (auto simp: old_def)
  qed
qed

lemma lines_of_line_set:
  "newline \<notin> set p \<Longrightarrow> ys = [] \<or> last ys = newline \<Longrightarrow>
   set (lines_of (ys @ p)) = set (lines_of ys) \<union> (if p = [] then {} else {p})"
  by (simp add: lines_of_append lines_of_no_newline)

lemma no_edge_line_append:
  "xs = [] \<or> last xs = newline \<Longrightarrow> no_edge_line (xs @ ys) \<longleftrightarrow> no_edge_line xs \<and> no_edge_line ys"
  by (auto simp: no_edge_line_def lines_of_append)

lemma no_edge_line_short:
  assumes "length p < MAX_HISTORY_LINE_BYTES" "newline \<notin> set p"
  shows "no_edge_line p" "no_edge_line (p @ [newline])"
  using assms by (auto simp: no_edge_line_def lines_of_no_newline lines_of_single)

lemma no_edge_line_newline: "no_edge_line bs \<Longrightarrow> no_edge_line (bs @ [newline])"
proof -
  assume edge: "no_edge_line bs"
  obtain ys p where bs: "bs = ys @ p" "ys = [] \<or> last ys = newline" "newline \<notin> set p"
    by (rule last_line_split)
  have "length p \<noteq> MAX_HISTORY_LINE_BYTES"
  proof (cases "p = []")
    case False
    then show ?thesis using edge bs by (auto simp: no_edge_line_def lines_of_line_set)
  qed (simp add: limits)
  then have "no_edge_line (p @ [newline])" using bs(3) by (simp add: no_edge_line_def lines_of_single)
  then show ?thesis using edge bs no_edge_line_append [OF bs(2)] by simp
qed

lemma no_edge_line_torn:
  assumes "no_edge_line old" "newline \<notin> set v" "length v < MAX_HISTORY_LINE_BYTES"
  shows "no_edge_line (old @ take k (repair old @ v @ [newline]))"
proof -
  have torn: "no_edge_line (take j (v @ [newline]))" for j
  proof (cases "j \<le> length v")
    case True
    have "newline \<notin> set (take j v)" using assms(2) by (meson in_set_takeD)
    then show ?thesis using True assms(3) no_edge_line_short(1) [of "take j v"] by simp
  next
    case False
    then show ?thesis using assms by (simp add: no_edge_line_short(2))
  qed
  show ?thesis
  proof (cases "repair old = []")
    case True
    then show ?thesis using torn assms(1) no_edge_line_append [of old]
      by (auto simp: repair_def split: if_splits)
  next
    case False
    then have rep: "repair old = [newline]" by (simp add: repair_def split: if_splits)
    show ?thesis
    proof (cases k)
      case (Suc j)
      then show ?thesis
        using torn [of j] no_edge_line_newline [OF assms(1)] no_edge_line_append [of "old @ [newline]"]
        by (simp add: rep)
    qed (simp add: assms(1))
  qed
qed

lemma append_once_retried:
  assumes codec: "history_codec X" "history_to_vec X r = Inr v" "length v < MAX_HISTORY_LINE_BYTES"
    and old: "old = bytes_at w history_path" "no_edge_line old" "off \<le> length old" "no_edge_line (drop off old)"
    and new: "attempt_id r \<notin> attempt_id ` set (log_records X (drop off old))"
    and first: "append_once X r off w = (res, w1)"
    and again: "bytes_at w2 history_path = bytes_at w1 history_path"
      "honest w2" "node_at w2 history_path \<noteq> Some Special" "append_once X r off w2 = (Inr (), w3)"
  shows "log_records X (bytes_at w3 history_path) = log_records X old @ [r]"
proof -
  obtain k where k: "bytes_at w1 history_path = old @ take k (repair old @ v @ [newline])"
    using append_once_reads_frame [OF first codec(2)] old(1) by blast
  let ?mid = "old @ take k (repair old @ v @ [newline])"
  have edge: "no_edge_line ?mid"
    using no_edge_line_torn [OF old(2) history_codecD(3) [OF codec(1,2)] codec(3)] .
  have torn: "log_records X ?mid = log_records X old @ (if k < length (repair old @ v) then [] else [r])"
    by (rule torn_append_records [OF codec old(2)]) auto
  have "drop off old = [] \<or> last (drop off old) = last old \<and> old \<noteq> []"
    by (cases "off < length old") auto
  from torn_append_records [OF codec old(4) this, of k]
  have "log_records X (drop off ?mid)
      = log_records X (drop off old) @ (if k < length (repair old @ v) then [] else [r])"
    using old(3) by simp
  then have "attempt_id r \<in> attempt_id ` set (log_records X (drop off ?mid)) \<longleftrightarrow> \<not> k < length (repair old @ v)"
    using new by auto
  then show ?thesis
    using append_once_records [OF codec again(4,2,3)] again(1) k edge torn by (auto split: if_splits)
qed

end
