(* ===== verification/History_Log.thy ===== *)
theory History_Log
  imports History_Props
begin

text \<open>
  The contract of the posting-history log: pages cover the log without gaps or repetitions,
  the backward readers find what a forward reading would, an append is atomic on records and
  a retried one counts once, and a failure reason is cut to its bound without breaking a
  character.
\<close>

section \<open>Cutting text at a character boundary\<close>

lemma utf8_first:
  assumes "utf8_bytes_ok (b # bs)"
  obtains cs r where "bs = cs @ r" "list_all is_cont cs" "utf8_bytes_ok r"
    "\<And>r'. utf8_bytes_ok (b # cs @ r') = utf8_bytes_ok r'"
proof -
  consider "b < 128" | "128 \<le> b" "b \<le> 223" | "224 \<le> b" "b \<le> 239" | "240 \<le> b" by linarith
  then show ?thesis
  proof cases
    case 1
    then show ?thesis using assms that [of "[]" bs] by simp
  next
    case 2
    then obtain c r where "bs = c # r" using assms by (cases bs) (simp_all split: if_splits)
    then show ?thesis using assms 2 that [of "[c]" r] by (simp split: if_splits)
  next
    case 3
    then obtain c d r where bs: "bs = c # d # r"
      using assms by (cases bs; cases "tl bs") simp_all
    then show ?thesis using assms 3 that [of "[c, d]" r] by (simp add: is_cont_def split: if_splits)
  next
    case 4
    then obtain c d e r where bs: "bs = c # d # e # r"
      using assms by (cases bs; cases "tl bs"; cases "tl (tl bs)") (simp_all split: if_splits)
    then show ?thesis using assms 4 that [of "[c, d, e]" r] by (simp add: is_cont_def split: if_splits)
  qed
qed

lemma utf8_take:
  "utf8_bytes_ok bs \<Longrightarrow> n < length bs \<longrightarrow> \<not> is_cont (bs ! n) \<Longrightarrow> utf8_bytes_ok (take n bs)"
proof (induction bs arbitrary: n rule: length_induct)
  case (1 bs)
  show ?case
  proof (cases "bs = [] \<or> n = 0")
    case False
    then obtain b bs' m where bs: "bs = b # bs'" and n: "n = Suc m" by (cases bs; cases n) auto
    obtain cs r where f: "bs' = cs @ r" "list_all is_cont cs" "utf8_bytes_ok r"
        "\<And>r'. utf8_bytes_ok (b # cs @ r') = utf8_bytes_ok r'"
      using utf8_first "1.prems"(1) bs by metis
    have "\<not> m < length cs"
    proof
      assume "m < length cs"
      then show False using "1.prems"(2) bs n f(1,2) by (simp add: nth_append list_all_length)
    qed
    moreover have "utf8_bytes_ok (take (m - length cs) r)"
      using "1.IH" [rule_format, of r "m - length cs"] "1.prems"(2) bs n f(1,3) calculation
      by (simp add: nth_append)
    ultimately show ?thesis using bs n f(1,4) by simp
  qed auto
qed

lemma utf8_append: "utf8_bytes_ok xs \<Longrightarrow> utf8_bytes_ok ys \<Longrightarrow> utf8_bytes_ok (xs @ ys)"
proof (induction xs rule: length_induct)
  case (1 xs)
  show ?case
  proof (cases xs)
    case (Cons b bs)
    then obtain cs r where f: "bs = cs @ r" "utf8_bytes_ok r" "\<And>r'. utf8_bytes_ok (b # cs @ r') = utf8_bytes_ok r'"
      using utf8_first "1.prems"(1) by metis
    then have "utf8_bytes_ok (r @ ys)" using "1.IH" [rule_format, of r] "1.prems"(2) Cons by simp
    then show ?thesis using f Cons by simp
  qed (simp add: "1.prems")
qed

lemma valid_utf8_cut:
  assumes "valid_utf8 e" "is_char_boundary e n"
  shows "valid_utf8 (take n e @ ''...'')"
proof -
  have "utf8_bytes_ok (take n (map byte e))"
    using assms by (cases "n = 0") (auto simp: valid_utf8_def is_char_boundary_def intro!: utf8_take)
  then have "utf8_bytes_ok (take n (map byte e) @ map byte ''...'')" by (rule utf8_append) (simp add: byte_def)
  then show ?thesis by (simp add: valid_utf8_def take_map)
qed

lemma floor_char_boundary_spec:
  "i \<le> length e \<Longrightarrow> floor_char_boundary e i \<le> i \<and> is_char_boundary e (floor_char_boundary e i)
   \<and> (\<forall>j. floor_char_boundary e i < j \<and> j \<le> i \<longrightarrow> \<not> is_char_boundary e j)"
proof (induction e i rule: floor_char_boundary.induct)
  case (1 e i)
  show ?case
  proof (cases "is_char_boundary e i")
    case True
    then have "floor_char_boundary e i = i" by (simp add: floor_char_boundary.simps [of e i])
    then show ?thesis using True by auto
  next
    case False
    then have "floor_char_boundary e i = floor_char_boundary e (i - 1)"
      by (simp add: floor_char_boundary.simps [of e i])
    moreover have "j = i \<or> j \<le> i - 1" if "j \<le> i" for j using that by linarith
    ultimately show ?thesis using "1.IH" [OF False] "1.prems" False by fastforce
  qed
qed

section \<open>A working file system\<close>

lemma has_final_newline_quiet:
  assumes "quiet w" "bytes_at w history_path = bs" "bs \<noteq> []"
  shows "has_final_newline (length bs) w = (Inr (last bs = newline), w)"
proof -
  have "length bs - 1 + 1 \<le> length (bytes_at w history_path)" using assms by (cases bs) auto
  moreover have "drop (length bs - 1) bs = [last bs]" using assms(3) by (cases bs rule: rev_cases) auto
  ultimately have "fs_read_exact history_path (length bs - 1) 1 w = (Inr [last bs], w)"
    using assms fs_read_exact_quiet [OF assms(1), of history_path "length bs - 1" 1]
    by simp
  then show ?thesis using assms(1) by (simp add: has_final_newline_def run_simps)
qed

lemma history_append_quiet:
  assumes w: "quiet w" and node: "node_at w history_path \<noteq> Some Special" and v: "history_to_vec X r = Inr v"
  shows "\<exists>w'. history_append X r w = (Inr (), w')"
proof -
  let ?old = "bytes_at w history_path"
  obtain w1 where open1: "fs_open_append history_path w = (Inr (), w1)" "quiet w1"
      "node_at w1 history_path = Some (Regular ?old)"
  proof (cases "node_at w history_path")
    case None
    have "fs_open_append history_path w = (Inr (), set_node history_path (Regular []) w)"
      using w None by (simp add: run_simps)
    moreover have "quiet (set_node history_path (Regular []) w)" using w by simp
    moreover have "node_at (set_node history_path (Regular []) w) history_path = Some (Regular ?old)"
      using None by (simp add: bytes_at_def)
    ultimately show ?thesis by (rule that)
  next
    case (Some n)
    then have n: "n = Regular ?old" using node by (cases n) (simp_all add: bytes_at_def)
    have "fs_open_append history_path w = (Inr (), w)" using w Some n by (simp add: run_simps)
    then show ?thesis using w Some n by (intro that [of w]) simp_all
  qed
  have md: "fs_metadata history_path w1 = (Inr (True, length ?old), w1)"
    using open1 by (simp add: run_simps node_len_def)
  have bs1: "bytes_at w1 history_path = ?old" using open1(3) by (simp add: bytes_at_def)
  have "\<exists>w2. append_line (v @ [newline]) (length ?old) w1 = (Inr (), w2) \<and> quiet w2"
  proof (cases "?old = []")
    case True
    then show ?thesis using open1(2) by (simp add: append_line_def run_simps)
  next
    case False
    then show ?thesis
      using open1(2) has_final_newline_quiet [OF open1(2) bs1]
      by (cases "last ?old = newline") (simp_all add: append_line_def run_simps)
  qed
  then obtain w2 where two: "append_line (v @ [newline]) (length ?old) w1 = (Inr (), w2)" "quiet w2" by blast
  then have "history_append X r w = (Inr (), w2)"
    using v open1(1) md by (simp add: history_append_def run_simps Let_def sync_parent_directory_def)
  then show ?thesis by blast
qed

lemma append_once_regular:
  assumes "append_once X r off w = (res, w')" "history_to_vec X r = Inr v" "node_at w history_path \<noteq> Some Special"
  shows "node_at w' history_path \<noteq> Some Special"
proof -
  obtain q w1 where q: "contains_attempt X (attempt_id r) off w = (q, w1)" by fastforce
  have n1: "node_at w1 history_path = node_at w history_path"
    by (rule reads_only_frame(2) [OF contains_attempt_reads q])
  consider "w' = w1" | "history_append X r w1 = (res, w')"
    using assms(1) q by (cases q) (auto simp: append_once_def and_then_def run_simps split: if_splits)
  then show ?thesis
  proof cases
    case 1
    then show ?thesis using n1 assms(3) by simp
  next
    case 2
    then show ?thesis using history_append_outcome [OF 2 assms(2)] n1 assms(3) by auto
  qed
qed

lemma latest_completion_forward:
  assumes w: "quiet w" "node_at w history_path = Some (Regular bs)"
    and same: "same_both_ways X (drop (case cursor of None \<Rightarrow> 0 | Some c \<Rightarrow> ac_offset c) bs)"
  shows "latest_completion X i cursor w =
    (Inr (List.find (completes i cursor)
       (rev (log_records X (drop (case cursor of None \<Rightarrow> 0 | Some c \<Rightarrow> ac_offset c) bs)))), w)"
  unfolding latest_completion_quiet [OF w] log_records_def
  using same length_line_starts by (simp add: same_both_ways_def)

section \<open>Sample log\<close>

definition sample_record :: history_record where
  "sample_record = \<lparr>attempt_id = ref_uuid 0, hr_id = ''0000abcd'', posted_at = 500, success = True,
     hr_error = None, token_hash = ''h'', comment_url = None, hr_incarnation = ref_uuid 1,
     hr_request = \<lparr>owner = ''octo'', repo = ''cat'', pr_number = 7, body = ''hello''\<rparr>\<rparr>"

definition sample_line :: string where
  "sample_line = enc_history sample_record @ ''}''"

definition log_world :: world where
  "log_world = \<lparr>dirs = (\<lambda>d. if d = QueueDir then [(''history.jsonl'', Regular (sample_line @ [newline]))] else []),
     script = [], uuids_used = 0\<rparr>"

lemma sample_line_encoded: "history_to_vec ref_ext sample_record = Inr sample_line"
  by (simp add: ref_ext_def to_doc_def sample_line_def)

lemma sample_line_length: "length sample_line < 1000"
  by code_simp

lemma sample_line_short: "length sample_line < MAX_HISTORY_LINE_BYTES"
  using sample_line_length by (simp add: limits)

lemmas sample_codec = ref_history_codec sample_line_encoded sample_line_short

lemma sample_newline: "newline \<notin> set sample_line"
  using history_codecD(3) [OF ref_history_codec sample_line_encoded] .

lemma log_world_node: "quiet log_world" "node_at log_world history_path = Some (Regular (sample_line @ [newline]))"
  by (simp_all add: log_world_def node_at_def history_path_def)

lemma sample_log_records: "log_records ref_ext (sample_line @ [newline]) = [sample_record]"
  using sample_newline decode_encoded [OF sample_codec] by (simp add: log_records_line)

lemma sample_log_lines: "no_edge_line (sample_line @ [newline])" "same_both_ways ref_ext (sample_line @ [newline])"
  using no_edge_line_short(2) [OF sample_line_short sample_newline]
    no_edge_line_same [OF history_codecD(1) [OF ref_history_codec]] by blast+

lemma read_page_recent:
  assumes w: "quiet w" "node_at w history_path = Some (Regular bs)" and same: "same_both_ways X bs"
    and n: "0 < n" "0 < limit"
  shows "\<exists>page. read_page X None (Some limit) n w = (Inr page, w)
    \<and> map record_of (records page @ (case next_pos page of None \<Rightarrow> []
          | Some q \<Rightarrow> history_from X bs (hp_offset q) (hp_end_offset q)))
        = drop (length (log_records X bs) - limit) (log_records X bs)
    \<and> length (records page) \<le> n
    \<and> (case next_pos page of None \<Rightarrow> True
       | Some q \<Rightarrow> valid_position bs q \<and> hp_end_offset q = length bs \<and> length (records page) = n)"
proof -
  have bs: "bytes_at w history_path = bs" using w(2) by (simp add: bytes_at_def)
  obtain off where off: "recent_start X (length bs) limit w = (Inr off, w)" "off \<le> length bs"
      "history_from X bs off (length bs) = drop (length (log_records X bs) - limit) (history_from X bs 0 (length bs))"
    using recent_start_quiet [OF w(1) bs same n(2)] by blast
  obtain page where page: "read_snapshot_page X (length bs) None off (length bs) n w = (Inr page, w)"
      "records page @ (case next_pos page of None \<Rightarrow> [] | Some q \<Rightarrow> history_from X bs (hp_offset q) (hp_end_offset q))
        = history_from X bs off (length bs)" "length (records page) \<le> n"
      "case next_pos page of None \<Rightarrow> True
       | Some q \<Rightarrow> valid_position bs q \<and> hp_end_offset q = length bs \<and> off < hp_offset q \<and> hp_offset q < length bs
                  \<and> length (records page) = n"
    using read_snapshot_page_quiet [OF w(1) bs, where pos = None and off = off and e = "length bs" and n = n and X = X] off(2) n(1)
    by (simp only: option.case) blast
  have "read_page X None (Some limit) n w = (Inr page, w)"
    using w n off(1) page(1) open_history_snapshot_quiet [OF w]
    by (simp add: read_page_def page_offsets_def run_simps)
  moreover have "map record_of (history_from X bs off (length bs)) = drop (length (log_records X bs) - limit) (log_records X bs)"
    using history_from_records [of X bs 0] unfolding off(3) by (simp add: drop_map [symmetric])
  moreover have "case next_pos page of None \<Rightarrow> True
      | Some q \<Rightarrow> valid_position bs q \<and> hp_end_offset q = length bs \<and> length (records page) = n"
    using page(4) by (auto split: option.splits)
  ultimately show ?thesis using page(2,3) by (intro exI [of _ page]) (simp only: simp_thms)
qed

section \<open>Properties\<close>

text \<open>C20. Paging through the log is lossless: a page holds at most the requested number of records, in
  the order of the log, and its cursor, which lies strictly further on and within the same
  snapshot, leads to exactly the records that are left; without a cursor none is left.\<close>

theorem history_pages_lossless:
  assumes "quiet w" "node_at w history_path = Some (Regular bs)" "valid_position bs p" "0 < n"
  shows "\<exists>page. read_page X (Some p) limit n w = (Inr page, w)
    \<and> records page @ (case next_pos page of None \<Rightarrow> [] | Some q \<Rightarrow> history_from X bs (hp_offset q) (hp_end_offset q))
        = history_from X bs (hp_offset p) (hp_end_offset p)
    \<and> length (records page) \<le> n
    \<and> (case next_pos page of None \<Rightarrow> True
       | Some q \<Rightarrow> valid_position bs q \<and> hp_end_offset q = hp_end_offset p
                  \<and> hp_offset p < hp_offset q \<and> hp_offset q < hp_end_offset p
                  \<and> length (records page) = n)"
  using assms by (rule read_page_cursor)

theorem history_pages_lossless_witness:
  "\<exists>page. read_page ref_ext (Some \<lparr>hp_offset = 0, hp_end_offset = length (sample_line @ [newline])\<rparr>) None 5 log_world
     = (Inr page, log_world) \<and> length (records page) \<le> 5"
proof -
  have "valid_position (sample_line @ [newline]) \<lparr>hp_offset = 0, hp_end_offset = length (sample_line @ [newline])\<rparr>"
    by (simp add: valid_position_def on_boundary_def)
  from history_pages_lossless [OF log_world_node this, of 5 ref_ext None] show ?thesis by auto
qed

text \<open>C19. Asking for the most recent records finds where they start by scanning backwards, and the pages
  from there deliver exactly the last so many records a forward reading of the log gives.\<close>

theorem recent_page_suffix:
  assumes "quiet w" "node_at w history_path = Some (Regular bs)" and "same_both_ways X bs"
    and "0 < n" "0 < limit"
  shows "\<exists>page. read_page X None (Some limit) n w = (Inr page, w)
    \<and> map record_of (records page @ (case next_pos page of None \<Rightarrow> []
          | Some q \<Rightarrow> history_from X bs (hp_offset q) (hp_end_offset q)))
        = drop (length (log_records X bs) - limit) (log_records X bs)
    \<and> length (records page) \<le> n"
  using read_page_recent [OF assms] by blast

theorem recent_page_suffix_witness:
  "\<exists>page. read_page ref_ext None (Some 1) 5 log_world = (Inr page, log_world)
     \<and> map record_of (records page @ (case next_pos page of None \<Rightarrow> []
          | Some q \<Rightarrow> history_from ref_ext (sample_line @ [newline]) (hp_offset q) (hp_end_offset q))) = [sample_record]"
  using recent_page_suffix [OF log_world_node sample_log_lines(2), of 5 1] by (auto simp: sample_log_records)

text \<open>C9. An append is atomic on the records of the log, whichever system call fails: afterwards the log
  holds the old records, with the new one behind them or without it, and a reported success
  means that it is there. A line torn by a crash is never read as a record.\<close>

theorem history_append_atomic:
  assumes "history_codec X" "history_to_vec X r = Inr v" "length v < MAX_HISTORY_LINE_BYTES"
    and "history_append X r w = (res, w')" "no_edge_line (bytes_at w history_path)"
  shows "log_records X (bytes_at w' history_path) \<in>
      {log_records X (bytes_at w history_path), log_records X (bytes_at w history_path) @ [r]}
    \<and> (res = Inr () \<longrightarrow>
       log_records X (bytes_at w' history_path) = log_records X (bytes_at w history_path) @ [r])"
  using assms by (rule history_append_records)

theorem history_append_atomic_witness:
  "\<exists>res w'. history_append ref_ext sample_record (log_world\<lparr>script := [None, None, None, None, Some (not_found, 7)]\<rparr>)
       = (res, w')
     \<and> log_records ref_ext (bytes_at w' history_path) \<in> {[sample_record], [sample_record, sample_record]}"
proof -
  let ?w = "log_world\<lparr>script := [None, None, None, None, Some (not_found, 7)]\<rparr>"
  obtain res w' where run: "history_append ref_ext sample_record ?w = (res, w')" by fastforce
  have "node_at ?w history_path = node_at log_world history_path" by (simp add: node_at_def)
  then have "bytes_at ?w history_path = sample_line @ [newline]" by (simp add: log_world_node bytes_at_def)
  then show ?thesis
    using history_append_atomic [OF sample_codec run] run by (auto simp: sample_log_records sample_log_lines)
qed

text \<open>C8. Recording an attempt counts exactly once: if the first try stops anywhere, a second one on a
  working file system succeeds and leaves the old records followed by the new one, once.\<close>

theorem append_once_exactly_once:
  assumes codec: "history_codec X" "history_to_vec X r = Inr v" "length v < MAX_HISTORY_LINE_BYTES"
    and old: "old = bytes_at w history_path" "no_edge_line old" "off \<le> length old" "no_edge_line (drop off old)"
    and new: "attempt_id r \<notin> attempt_id ` set (log_records X (drop off old))"
    and first: "append_once X r off w = (res, w1)" and reg: "node_at w1 history_path \<noteq> Some Special"
  shows "\<exists>w3. append_once X r off (w1\<lparr>script := []\<rparr>) = (Inr (), w3)
    \<and> log_records X (bytes_at w3 history_path) = log_records X old @ [r]"
proof -
  let ?w2 = "w1\<lparr>script := []\<rparr>"
  have n2: "node_at ?w2 p = node_at w1 p" for p by (simp add: node_at_def)
  have w2: "quiet ?w2" "honest ?w2" "node_at ?w2 history_path \<noteq> Some Special"
    using reg n2 by (simp_all add: honest_def)
  obtain b where b: "contains_attempt X (attempt_id r) off ?w2 = (Inr b, ?w2)"
    using contains_attempt_total [OF w2(1,3)] by blast
  obtain w4 where "history_append X r ?w2 = (Inr (), w4)" using history_append_quiet [OF w2(1,3) codec(2)] by blast
  then obtain w3 where run: "append_once X r off ?w2 = (Inr (), w3)"
    using b by (cases b) (simp_all add: append_once_def run_simps and_then_def)
  have "bytes_at ?w2 history_path = bytes_at w1 history_path" by (simp add: bytes_at_def n2)
  from append_once_retried [OF codec old new first this w2(2,3) run] run show ?thesis by blast
qed

theorem append_once_exactly_once_witness:
  "\<exists>res w1 w3. append_once ref_ext (sample_record\<lparr>attempt_id := ref_uuid 2\<rparr>) (length (sample_line @ [newline]))
       (log_world\<lparr>script := [None, None, Some (not_found, 0)]\<rparr>) = (res, w1)
     \<and> append_once ref_ext (sample_record\<lparr>attempt_id := ref_uuid 2\<rparr>) (length (sample_line @ [newline]))
         (w1\<lparr>script := []\<rparr>) = (Inr (), w3)
     \<and> log_records ref_ext (bytes_at w3 history_path) = [sample_record, sample_record\<lparr>attempt_id := ref_uuid 2\<rparr>]"
proof -
  let ?r = "sample_record\<lparr>attempt_id := ref_uuid 2\<rparr>" and ?log = "sample_line @ [newline]"
  let ?w = "log_world\<lparr>script := [None, None, Some (not_found, 0)]\<rparr>"
  have v: "history_to_vec ref_ext ?r = Inr (enc_history ?r @ ''}'')" by (simp add: ref_ext_def to_doc_def)
  have "length (enc_history ?r @ ''}'') < 1000" by code_simp
  then have short: "length (enc_history ?r @ ''}'') < MAX_HISTORY_LINE_BYTES" by (simp add: limits)
  have node: "node_at ?w history_path = Some (Regular ?log)"
    using log_world_node(2) by (simp add: node_at_def)
  obtain res w1 where run: "append_once ref_ext ?r (length ?log) ?w = (res, w1)" by fastforce
  have "node_at w1 history_path \<noteq> Some Special"
    using append_once_regular [OF run v] node by simp
  moreover have log: "?log = bytes_at ?w history_path" using node by (simp add: bytes_at_def)
  moreover have "no_edge_line (drop (length ?log) ?log)"
    "attempt_id ?r \<notin> attempt_id ` set (log_records ref_ext (drop (length ?log) ?log))"
    by (simp_all add: no_edge_line_def)
  ultimately obtain w3 where "append_once ref_ext ?r (length ?log) (w1\<lparr>script := []\<rparr>) = (Inr (), w3)"
      "log_records ref_ext (bytes_at w3 history_path) = log_records ref_ext ?log @ [?r]"
    using append_once_exactly_once [OF ref_history_codec v short log sample_log_lines(1) le_refl _ _ run] by blast
  then show ?thesis using run by (auto simp: sample_log_records)
qed

text \<open>C21. The backward search behind \<open>await\<close> is equivalent to reading the log forwards: it returns the
  last record behind the cursor's offset that completes the entry, and none if there is none.\<close>

theorem latest_completion_is_last:
  assumes w: "quiet w" "node_at w history_path = Some (Regular bs)"
    and same: "same_both_ways X (drop (case cursor of None \<Rightarrow> 0 | Some c \<Rightarrow> ac_offset c) bs)"
  shows "latest_completion X i cursor w =
    (Inr (List.find (completes i cursor)
       (rev (log_records X (drop (case cursor of None \<Rightarrow> 0 | Some c \<Rightarrow> ac_offset c) bs)))), w)"
  using assms by (rule latest_completion_forward)

theorem latest_completion_is_last_witness:
  "latest_completion ref_ext ''0000abcd'' None log_world = (Inr (Some sample_record), log_world)"
  using latest_completion_is_last [OF log_world_node, of ref_ext None] sample_log_lines(2)
  by (simp add: sample_log_records completes_def sample_record_def)

text \<open>C39. A stored failure reason never exceeds its bound, is unchanged when it already fits, keeps
  as many whole characters as fit otherwise, and stays valid UTF-8.\<close>

theorem bounded_error_fits:
  "length (bounded_error e) \<le> MAX_HISTORY_ERROR_BYTES
   \<and> (if length e \<le> MAX_HISTORY_ERROR_BYTES then bounded_error e = e
      else \<exists>n. bounded_error e = take n e @ ''...'' \<and> is_char_boundary e n
         \<and> \<not> (\<exists>j. n < j \<and> j \<le> MAX_HISTORY_ERROR_BYTES - 3 \<and> is_char_boundary e j))
   \<and> (valid_utf8 e \<longrightarrow> valid_utf8 (bounded_error e))"
proof (cases "length e \<le> MAX_HISTORY_ERROR_BYTES")
  case True
  then show ?thesis by (simp add: bounded_error_def)
next
  case False
  let ?n = "floor_char_boundary e (MAX_HISTORY_ERROR_BYTES - 3)"
  have n: "?n \<le> MAX_HISTORY_ERROR_BYTES - 3" "is_char_boundary e ?n"
      "\<not> (\<exists>j. ?n < j \<and> j \<le> MAX_HISTORY_ERROR_BYTES - 3 \<and> is_char_boundary e j)"
    using floor_char_boundary_spec [of "MAX_HISTORY_ERROR_BYTES - 3" e] False by auto
  have cut: "bounded_error e = take ?n e @ ''...''" using False by (simp add: bounded_error_def)
  have "3 \<le> MAX_HISTORY_ERROR_BYTES" by (simp add: limits)
  then have "length (bounded_error e) \<le> MAX_HISTORY_ERROR_BYTES" unfolding cut using n(1) by simp
  then show ?thesis using False cut n valid_utf8_cut [OF _ n(2)] by auto
qed

theorem bounded_error_fits_witness:
  "valid_utf8 ''not found'' \<and> bounded_error ''not found'' = ''not found'' \<and> valid_utf8 (bounded_error ''not found'')"
proof -
  have "valid_utf8 ''not found''" by code_simp
  then show ?thesis using bounded_error_fits [of "''not found''"] by (simp add: limits)
qed

end
