(* ===== verification/Bounds.thy ===== *)
theory Bounds
  imports Store_Types
begin

text \<open>
  Bounded access to the queue-entry files (\<open>crates/comenqd/src/store/bounds.rs\<close>, and from
  \<open>store.rs\<close> the helpers \<open>write_atomic\<close> and \<open>find\<close>): scanning the entries directory under the
  count and byte limits, reading one entry, admitting a write against the durable byte budget,
  and replacing a file through a temporary sibling.
\<close>

section \<open>Limits\<close>

definition MAX_ENTRY_BYTES :: u64 where
  [limits]: "MAX_ENTRY_BYTES = 2 * 1024 * 1024"

definition MAX_QUEUE_BYTES :: u64 where
  [limits]: "MAX_QUEUE_BYTES = 32 * 1024 * 1024"

definition ENTRY_MUTATION_HEADROOM_BYTES :: u64 where
  [limits]: "ENTRY_MUTATION_HEADROOM_BYTES = 80"

record queue_usage =
  entry_count :: usize
  bytes :: u64
  headroom_bytes :: u64

definition accounted_bytes :: "queue_usage \<Rightarrow> u64" where
  "accounted_bytes u = sat_add (bytes u) (headroom_bytes u)"

definition ensure_entry_size :: "u64 \<Rightarrow> u64 \<Rightarrow> unit store" where
  "ensure_entry_size n limit = (if n > limit then err (EntryTooLarge n limit) else ok ())"

definition ensure_queue_bytes :: "u64 \<Rightarrow> u64 \<Rightarrow> unit store" where
  "ensure_queue_bytes used requested =
     (if sat_add used requested > MAX_QUEUE_BYTES
      then err (QueueByteBudgetExceeded used requested MAX_QUEUE_BYTES) else ok ())"

definition incarnation_growth :: "stored_entry \<Rightarrow> u64" where
  "incarnation_growth entry = (if incarnation entry = [] then 57 else 0)"

definition entry_headroom :: "ext \<Rightarrow> stored_entry \<Rightarrow> u64" where
  "entry_headroom X entry =
     (let order_growth = length (show_int (order entry)) - 1;
          claim_growth = (case claim_token entry of
              None \<Rightarrow> 0
            | Some token \<Rightarrow>
                (case string_to_vec X token of Inl _ \<Rightarrow> u64_max | Inr encoded \<Rightarrow> length encoded - 4))
      in sat_add (ENTRY_MUTATION_HEADROOM_BYTES - order_growth - claim_growth)
           (incarnation_growth entry))"

definition maximum_mutation_growth :: "ext \<Rightarrow> stored_entry \<Rightarrow> u64" where
  "maximum_mutation_growth X entry =
     (let order_growth = 20 - length (show_int (order entry));
          claim_bytes = (case claim_token entry of
              None \<Rightarrow> 4
            | Some token \<Rightarrow>
                (case string_to_vec X token of Inl _ \<Rightarrow> u64_max | Inr encoded \<Rightarrow> length encoded));
          claim_growth = 38 - claim_bytes
      in sat_add (sat_add order_growth claim_growth) (incarnation_growth entry))"

section \<open>Reading\<close>

definition not_regular :: store_error where
  "not_regular = Io (IoError InvalidData ''queue entry path is not a regular file'')"

definition read_entry :: "ext \<Rightarrow> path \<Rightarrow> stored_entry store" where
  "read_entry X p =
     and_then (io (fs_metadata p)) (\<lambda>(is_file, len).
     if \<not> is_file then err not_regular
     else
       and_then (ensure_entry_size len MAX_ENTRY_BYTES) (\<lambda>_.
       and_then (io (fs_open p)) (\<lambda>_.
       and_then (io (fs_read_at p 0 (MAX_ENTRY_BYTES + 1))) (\<lambda>bs.
       and_then (ensure_entry_size (length bs) MAX_ENTRY_BYTES) (\<lambda>_.
       serde (entry_from_slice X bs))))))"

definition path_matches_id :: "path \<Rightarrow> string \<Rightarrow> bool" where
  "path_matches_id p i \<longleftrightarrow> file_stem (snd p) = Some i"

text \<open>The loop of \<open>scan_entry_files\<close> over the directory entries.\<close>

fun scan_dirents :: "string list \<Rightarrow> path list \<Rightarrow> u64 \<Rightarrow> (path list \<times> u64) store" where
  "scan_dirents [] paths acc = ok (paths, acc)"
| "scan_dirents (name # names) paths acc =
     and_then (io fs_call) (\<lambda>_.
     let p = (EntriesDir, name) in
     if extension name \<noteq> Some ''json'' then scan_dirents names paths acc
     else
       and_then (io (fs_metadata p)) (\<lambda>(is_file, _).
       if \<not> is_file then scan_dirents names paths acc
       else if length paths = MAX_QUEUE_ENTRIES then err (QueueFull MAX_QUEUE_ENTRIES)
       else
         and_then (io (fs_metadata p)) (\<lambda>(_, file_bytes).
         and_then (ensure_queue_bytes acc file_bytes) (\<lambda>_.
         scan_dirents names (paths @ [p]) (sat_add acc file_bytes)))))"

definition scan_entry_files :: "(path list \<times> queue_usage) store" where
  "scan_entry_files =
     and_then (io (fs_read_dir EntriesDir)) (\<lambda>names.
     and_then (scan_dirents names [] 0) (\<lambda>(paths, acc).
     ok (paths, \<lparr>entry_count = length paths, bytes = acc, headroom_bytes = 0\<rparr>)))"

text \<open>The loop of \<open>entries_with_usage\<close> over the scanned files.\<close>

fun read_entries ::
  "ext \<Rightarrow> path list \<Rightarrow> stored_entry list \<Rightarrow> queue_usage \<Rightarrow> (stored_entry list \<times> queue_usage) store" where
  "read_entries X [] es usage = ok (es, usage)"
| "read_entries X (p # ps) es usage =
     and_then (attempt (read_entry X p)) (\<lambda>r.
       case r of
         Inr entry \<Rightarrow>
           if \<not> is_valid_id (ident entry) then read_entries X ps es usage
           else if path_matches_id p (ident entry) then
             and_then (attempt (fs_metadata p)) (\<lambda>md.
               case md of
                 Inl _ \<Rightarrow> read_entries X ps es usage
               | Inr (_, file_bytes) \<Rightarrow>
                   let required_bytes = sat_add file_bytes (maximum_mutation_growth X entry) in
                   if required_bytes > MAX_ENTRY_BYTES
                   then err (EntryTooLarge required_bytes MAX_ENTRY_BYTES)
                   else read_entries X ps (es @ [entry])
                          (usage\<lparr>headroom_bytes := sat_add (headroom_bytes usage) (entry_headroom X entry)\<rparr>))
           else read_entries X ps es usage
       | Inl _ \<Rightarrow> read_entries X ps es usage)"

definition entry_key :: "stored_entry \<Rightarrow> i64 \<times> u64 \<times> string" where
  "entry_key e = (order e, enqueued_at e, ident e)"

definition entries_with_usage :: "ext \<Rightarrow> (stored_entry list \<times> queue_usage) store" where
  "entries_with_usage X =
     and_then scan_entry_files (\<lambda>(files, usage).
     and_then (read_entries X files [] usage) (\<lambda>(es, usage').
     ok (sort_key entry_key es, usage')))"

definition entries :: "ext \<Rightarrow> stored_entry list store" where
  "entries X = and_then (entries_with_usage X) (\<lambda>(es, _). ok es)"

definition validate_existing_limits :: "ext \<Rightarrow> unit store" where
  "validate_existing_limits X =
     and_then (entries_with_usage X) (\<lambda>(_, usage).
     ensure_queue_bytes (bytes usage) (headroom_bytes usage))"

definition queue_metrics_snapshot :: "ext \<Rightarrow> (usize \<times> u64) store" where
  "queue_metrics_snapshot X =
     and_then (entries_with_usage X) (\<lambda>(es, usage). ok (length es, accounted_bytes usage))"

text \<open>\<open>QueueStore::find\<close>.\<close>

definition find_entry :: "ext \<Rightarrow> string \<Rightarrow> stored_entry store" where
  "find_entry X i =
     and_then (entry_path i) (\<lambda>p.
     and_then (attempt (read_entry X p)) (\<lambda>r.
       case r of
         Inr entry \<Rightarrow> if ident entry \<noteq> i then err (InvalidId (ident entry)) else ok entry
       | Inl (Io e) \<Rightarrow> if kind_of e = NotFound then err (UnknownId i) else err (Io e)
       | Inl e \<Rightarrow> err e))"

section \<open>Writing\<close>

definition tmp_path :: "path \<Rightarrow> path" where
  "tmp_path p = (fst p, with_extension (snd p) ''tmp'')"

definition write_atomic :: "path \<Rightarrow> string \<Rightarrow> unit store" where
  "write_atomic p bs =
     and_then (io (fs_create (tmp_path p))) (\<lambda>_.
     and_then (io (fs_write_all (tmp_path p) bs)) (\<lambda>_.
     and_then (io fs_call) (\<lambda>_.
     and_then (io fs_call) (\<lambda>_.
     and_then (io fs_call) (\<lambda>_.
     and_then (io fs_call) (\<lambda>_.
     and_then (io (fs_rename (tmp_path p) p)) (\<lambda>_.
     io fs_call)))))))"

definition write_entry_with_usage :: "ext \<Rightarrow> stored_entry \<Rightarrow> queue_usage \<Rightarrow> unit store" where
  "write_entry_with_usage X entry usage =
     and_then (serde (entry_to_vec_pretty X entry)) (\<lambda>bs.
     let new_bytes = length bs in
     and_then (entry_path (ident entry)) (\<lambda>p.
     and_then (attempt (fs_metadata p)) (\<lambda>md.
     and_then (case md of
                 Inr (True, len) \<Rightarrow> ok (Some len)
               | Inr (False, _) \<Rightarrow> err not_regular
               | Inl e \<Rightarrow> if kind_of e = NotFound then ok None else err (Io e)) (\<lambda>previous_bytes.
     let n = entry_count usage + (if previous_bytes = None then 1 else 0) in
     if n > MAX_QUEUE_ENTRIES then err (QueueFull MAX_QUEUE_ENTRIES)
     else
       let entry_limit = (if previous_bytes = None
                          then MAX_ENTRY_BYTES - ENTRY_MUTATION_HEADROOM_BYTES else MAX_ENTRY_BYTES) in
       and_then (ensure_entry_size new_bytes entry_limit) (\<lambda>_.
       let used_bytes = bytes usage - (case previous_bytes of None \<Rightarrow> 0 | Some n \<Rightarrow> n) in
       and_then (if previous_bytes \<noteq> None
                 then and_then (read_entry X p) (\<lambda>old. ok (entry_headroom X old))
                 else ok 0) (\<lambda>previous_headroom.
       let other_headroom = headroom_bytes usage - previous_headroom;
           requested_bytes = sat_add (sat_add new_bytes other_headroom) (entry_headroom X entry) in
       and_then (ensure_queue_bytes used_bytes requested_bytes) (\<lambda>_.
       write_atomic p bs)))))))"

definition write_entry :: "ext \<Rightarrow> stored_entry \<Rightarrow> unit store" where
  "write_entry X entry =
     and_then (entries_with_usage X) (\<lambda>(_, usage). write_entry_with_usage X entry usage)"

end
