(* ===== verification/Completion.thy ===== *)
theory Completion
  imports Bounds History
begin

text \<open>
  Deletion markers and the completion journal (\<open>store/await_deletions.rs\<close>,
  \<open>store/completion.rs\<close>): a post that succeeded is first written to the \<open>completion\<close> file, then
  reflected in the history log, the deletion markers, the entry file and the last-post marker,
  and only then is the journal removed. \<open>reconcile_completion\<close> is both the second half of a
  completion and the recovery of one that stopped early.
\<close>

section \<open>Deletion markers\<close>

definition await_lifetime_was_deleted :: "string \<Rightarrow> bool store" where
  "await_lifetime_was_deleted i =
     and_then (await_deletion_path i) (\<lambda>p.
     and_then (attempt (fs_read p)) (\<lambda>r.
       case r of
         Inr _ \<Rightarrow> ok True
       | Inl e \<Rightarrow> if kind_of e = NotFound then ok False else err (Io e)))"

definition write_await_deletion :: "ext \<Rightarrow> stored_entry \<Rightarrow> unit store" where
  "write_await_deletion X entry =
     and_then (serde (deletion_to_vec X \<lparr>ad_incarnation = incarnation entry\<rparr>)) (\<lambda>marker.
     and_then (await_deletion_path (ident entry)) (\<lambda>p.
     write_atomic p marker))"

definition clear_await_deletion :: "ext \<Rightarrow> string \<Rightarrow> string \<Rightarrow> unit store" where
  "clear_await_deletion X i inc =
     and_then (await_deletion_path i) (\<lambda>p.
     and_then (attempt (fs_read p)) (\<lambda>r.
       case r of
         Inr bs \<Rightarrow>
           and_then (serde (deletion_from_slice X bs)) (\<lambda>marker.
           and_then (attempt (find_entry X i)) (\<lambda>found.
           and_then (case found of
                       Inr entry \<Rightarrow> ok (incarnation entry = inc)
                     | Inl (UnknownId _) \<Rightarrow> ok False
                     | Inl e \<Rightarrow> err e) (\<lambda>current_matches.
           if ad_incarnation marker \<noteq> inc \<and> \<not> current_matches then ok ()
           else
             and_then (io (fs_remove_file p)) (\<lambda>_.
             and_then (io fs_call) (\<lambda>_.
             io fs_call)))))
       | Inl e \<Rightarrow> if kind_of e = NotFound then ok () else err (Io e)))"

fun reconcile_markers :: "stored_entry list \<Rightarrow> bool \<Rightarrow> bool store" where
  "reconcile_markers [] removed_marker = ok removed_marker"
| "reconcile_markers (entry # es) removed_marker =
     and_then (await_deletion_path (ident entry)) (\<lambda>p.
     and_then (attempt (fs_read p)) (\<lambda>r.
       case r of
         Inr _ \<Rightarrow> and_then (io (fs_remove_file p)) (\<lambda>_. reconcile_markers es True)
       | Inl e \<Rightarrow> if kind_of e = NotFound then reconcile_markers es removed_marker else err (Io e)))"

definition reconcile_await_deletions :: "ext \<Rightarrow> unit store" where
  "reconcile_await_deletions X =
     and_then (entries X) (\<lambda>es.
     and_then (reconcile_markers es False) (\<lambda>removed_marker.
     if removed_marker then and_then (io fs_call) (\<lambda>_. io fs_call) else ok ()))"

section \<open>The completion journal\<close>

definition append_completion_history :: "ext \<Rightarrow> history_record \<Rightarrow> u64 \<Rightarrow> unit store" where
  "append_completion_history X r search_from = append_once X r search_from"

definition remove_completed :: "path \<Rightarrow> bool \<Rightarrow> unit store" where
  "remove_completed p remove_entry =
     (if remove_entry then
        and_then (attempt (fs_remove_file p)) (\<lambda>r.
          case r of
            Inr _ \<Rightarrow> ok ()
          | Inl e \<Rightarrow> if kind_of e = NotFound then ok () else err (Io e))
      else ok ())"

text \<open>The part of \<open>reconcile_completion\<close> behind the decoded journal.\<close>

definition finish_completion :: "ext \<Rightarrow> completion_record \<Rightarrow> unit store" where
  "finish_completion X c =
     and_then (entry_path (cr_id c)) (\<lambda>p.
     and_then (case cr_history c of
                 None \<Rightarrow> ok ()
               | Some h \<Rightarrow>
                   and_then (append_completion_history X h
                               (case cr_history_offset c of None \<Rightarrow> 0 | Some n \<Rightarrow> n)) (\<lambda>_.
                   clear_await_deletion X (cr_id c) (hr_incarnation h))) (\<lambda>_.
     and_then (attempt (find_entry X (cr_id c))) (\<lambda>found.
     and_then (case found of
                 Inr entry \<Rightarrow> ok (case cr_claim_token c of
                                  None \<Rightarrow> True
                                | Some token \<Rightarrow> claim_token entry = Some token)
               | Inl (UnknownId _) \<Rightarrow> ok False
               | Inl e \<Rightarrow> err e) (\<lambda>remove_entry.
     and_then (remove_completed p remove_entry) (\<lambda>_.
     and_then (write_atomic last_post_path (show_nat (cr_posted_at c))) (\<lambda>_.
     and_then (io (fs_remove_file completion_path)) (\<lambda>_.
     and_then (io fs_call) (\<lambda>_.
     io fs_call))))))))"

definition reconcile_completion :: "ext \<Rightarrow> unit store" where
  "reconcile_completion X =
     and_then (attempt (fs_read_to_string completion_path)) (\<lambda>r.
       case r of
         Inl e \<Rightarrow> if kind_of e = NotFound then ok () else err (Io e)
       | Inr txt \<Rightarrow>
           and_then (serde (completion_from_str X txt)) (\<lambda>c. finish_completion X c))"

definition complete_claim_with_token ::
  "ext \<Rightarrow> stored_entry \<Rightarrow> string \<Rightarrow> u64 \<Rightarrow> string option \<Rightarrow> unit store" where
  "complete_claim_with_token X entry th now url =
     and_then (if claim_token entry = None
               then and_then (find_entry X (ident entry)) (\<lambda>_. ok ()) else ok ()) (\<lambda>_.
     and_then (attempt (fs_metadata history_path)) (\<lambda>md.
     and_then (case md of
                 Inr (_, len) \<Rightarrow> ok len
               | Inl e \<Rightarrow> if kind_of e = NotFound then ok 0 else err (Io e)) (\<lambda>offset.
     and_then (history_success X entry th now url) (\<lambda>h.
     and_then (serde (completion_to_vec X
                 \<lparr>cr_id = ident entry, cr_posted_at = now, cr_claim_token = claim_token entry,
                  cr_history = Some h, cr_history_offset = Some offset\<rparr>)) (\<lambda>bs.
     and_then (write_atomic completion_path bs) (\<lambda>_.
     reconcile_completion X))))))"

definition complete_claim :: "ext \<Rightarrow> stored_entry \<Rightarrow> u64 \<Rightarrow> unit store" where
  "complete_claim X entry now = complete_claim_with_token X entry [] now None"

definition complete :: "ext \<Rightarrow> string \<Rightarrow> u64 \<Rightarrow> unit store" where
  "complete X i now =
     and_then (find_entry X i) (\<lambda>entry. complete_claim X entry now)"

end
