(* ===== verification/Scheduling.thy ===== *)
theory Scheduling
  imports Completion
begin

text \<open>
  Scheduling and enqueueing (\<open>store/scheduling.rs\<close>, and from \<open>store.rs\<close> the markers
  \<open>last_post\<close> and \<open>last_attempt\<close> and the search for an entry's identifier): the projection of the
  queue on posting times, \<open>put\<close>, claims and their release.
\<close>

section \<open>Cooldown anchors\<close>

definition last_post :: "u64 option store" where
  "last_post =
     and_then (attempt (fs_read_to_string last_post_path)) (\<lambda>r.
       case r of
         Inr txt \<Rightarrow>
           and_then (from_result (map_err LastPost (parse_u64 (str_trim txt)))) (\<lambda>n. ok (Some n))
       | Inl e \<Rightarrow> if kind_of e = NotFound then ok None else err (Io e))"

definition last_attempt :: "u64 option store" where
  "last_attempt =
     and_then (attempt (fs_read_to_string last_attempt_path)) (\<lambda>r.
       case r of
         Inr txt \<Rightarrow>
           and_then (from_result (map_err LastAttempt (parse_u64 (str_trim txt)))) (\<lambda>n. ok (Some n))
       | Inl e \<Rightarrow> if kind_of e = NotFound then ok None else err (Io e))"

fun max_option :: "u64 option \<Rightarrow> u64 option \<Rightarrow> u64 option" where
  "max_option (Some a) (Some b) = Some (max a b)"
| "max_option None b = b"
| "max_option a None = a"

definition previous_activity :: "u64 option store" where
  "previous_activity =
     and_then last_post (\<lambda>p. and_then last_attempt (\<lambda>a. ok (max_option p a)))"

section \<open>Projection\<close>

fun projected_schedule ::
  "stored_entry list \<Rightarrow> u64 option \<Rightarrow> u64 \<Rightarrow> u64 \<Rightarrow> (stored_entry \<times> u64) list" where
  "projected_schedule [] previous_post cool now = []"
| "projected_schedule (entry # es) previous_post cool now =
     (let due = (case previous_post of
                   None \<Rightarrow> now
                 | Some previous \<Rightarrow> sat_add (sat_add previous cool) (flutter_seconds entry));
          post_at = max (max due (not_before entry)) now
      in (entry, post_at - now) # projected_schedule es (Some post_at) cool now)"

definition eta_of :: "(stored_entry \<times> u64) list \<Rightarrow> string \<Rightarrow> u64" where
  "eta_of sched i =
     (case List.find (\<lambda>(scheduled, _). ident scheduled = i) sched of None \<Rightarrow> 0 | Some (_, eta) \<Rightarrow> eta)"

definition schedule :: "ext \<Rightarrow> u64 \<Rightarrow> u64 \<Rightarrow> (stored_entry \<times> u64) list store" where
  "schedule X cool now =
     and_then (entries X) (\<lambda>es.
     and_then previous_activity (\<lambda>activity.
     ok (projected_schedule es activity cool now)))"

section \<open>Enqueueing\<close>

text \<open>
  The search for a free identifier loops until it finds one. \<^term>\<open>None\<close> is a search that does not
  end.
\<close>

partial_function (option) resolve_loop ::
  "ext \<Rightarrow> comment_request \<Rightarrow> u64 \<Rightarrow> u64 option \<Rightarrow> world
     \<Rightarrow> ((store_error + (string \<times> stored_entry option)) \<times> world) option" where
  "resolve_loop X req now salt w =
     (let i = (case salt of None \<Rightarrow> entry_id req now
                          | Some value \<Rightarrow> entry_id_with_salt req now (Some value)) in
      case find_entry X i w of
        (Inr existing, w') \<Rightarrow>
          if request existing = req then Some (Inr (i, Some existing), w')
          else resolve_loop X req now
                 (Some (case salt of None \<Rightarrow> 1 | Some value \<Rightarrow> sat_add value 1)) w'
      | (Inl (UnknownId _), w') \<Rightarrow> Some (Inr (i, None), w')
      | (Inl e, w') \<Rightarrow> Some (Inl e, w'))"

definition resolve_entry_id ::
  "ext \<Rightarrow> comment_request \<Rightarrow> u64 \<Rightarrow> world
     \<Rightarrow> ((store_error + (string \<times> stored_entry option)) \<times> world) option" where
  "resolve_entry_id X req now w = resolve_loop X req now None w"

text \<open>The rest of \<open>put_with_eta\<close>, behind the resolved identifier.\<close>

definition put_resolved ::
  "ext \<Rightarrow> comment_request \<Rightarrow> put_options \<Rightarrow> u64 \<Rightarrow> string \<Rightarrow> stored_entry option
     \<Rightarrow> (stored_entry \<times> u64) store" where
  "put_resolved X req opts now i existing =
     and_then (entries_with_usage X) (\<lambda>(es, usage).
     and_then previous_activity (\<lambda>activity.
       case existing of
         Some entry \<Rightarrow>
           ok (entry, eta_of (projected_schedule es activity (cooldown opts) now) (ident entry))
       | None \<Rightarrow>
           if length es \<ge> MAX_QUEUE_ENTRIES then err (QueueFull MAX_QUEUE_ENTRIES)
           else
             and_then (draw_uuid X) (\<lambda>uuid.
             let entry = \<lparr>ident = i, incarnation = uuid,
                          order = (if es = [] then 0 else sat_add_i64 (order (last es)) 1),
                          flutter_seconds = po_flutter_seconds opts, enqueued_at = now,
                          not_before = (if immediate opts then 0
                             else sat_add (sat_add now (cooldown opts)) (po_flutter_seconds opts)),
                          claim_token = None, request = req\<rparr>;
                 eta = eta_of (projected_schedule (es @ [entry]) activity (cooldown opts) now)
                         (ident entry) in
             and_then (write_entry_with_usage X entry usage) (\<lambda>_.
             ok (entry, eta)))))"

definition put_with_eta ::
  "ext \<Rightarrow> comment_request \<Rightarrow> put_options \<Rightarrow> u64 \<Rightarrow> world
     \<Rightarrow> ((store_error + (stored_entry \<times> u64)) \<times> world) option" where
  "put_with_eta X req opts now w =
     (case resolve_entry_id X req now w of
        None \<Rightarrow> None
      | Some (Inl e, w') \<Rightarrow> Some (Inl e, w')
      | Some (Inr (i, existing), w') \<Rightarrow> Some (put_resolved X req opts now i existing w'))"

definition put_entry ::
  "ext \<Rightarrow> comment_request \<Rightarrow> put_options \<Rightarrow> u64 \<Rightarrow> world
     \<Rightarrow> ((store_error + stored_entry) \<times> world) option" where
  "put_entry X req opts now w =
     (case put_with_eta X req opts now w of
        None \<Rightarrow> None
      | Some (r, w') \<Rightarrow> Some (map_ok fst r, w'))"

section \<open>Claims\<close>

definition next_due :: "ext \<Rightarrow> u64 \<Rightarrow> u64 \<Rightarrow> (stored_entry \<times> u64) option store" where
  "next_due X cool now =
     and_then (schedule X cool now) (\<lambda>sched.
     if list_ex (\<lambda>(entry, _). claim_token entry \<noteq> None) sched then ok None
     else ok (case sched of [] \<Rightarrow> None | head # _ \<Rightarrow> Some head))"

definition claim_next_due :: "ext \<Rightarrow> u64 \<Rightarrow> u64 \<Rightarrow> (stored_entry \<times> u64) option store" where
  "claim_next_due X cool now =
     and_then (next_due X cool now) (\<lambda>due.
       case due of
         None \<Rightarrow> ok None
       | Some (entry, wait_seconds) \<Rightarrow>
           if wait_seconds > 0 then ok (Some (entry, wait_seconds))
           else
             and_then (draw_uuid X) (\<lambda>uuid.
             let claimed = entry\<lparr>claim_token := Some uuid\<rparr> in
             and_then (write_entry X claimed) (\<lambda>_.
             ok (Some (claimed, 0)))))"

definition release_claim :: "ext \<Rightarrow> string \<Rightarrow> string \<Rightarrow> u64 \<Rightarrow> unit store" where
  "release_claim X i token attempted_at =
     and_then (attempt (find_entry X i)) (\<lambda>found.
       case found of
         Inr entry \<Rightarrow>
           if claim_token entry = Some token then
             and_then last_attempt (\<lambda>latest.
             let latest_attempt = max (case latest of None \<Rightarrow> 0 | Some n \<Rightarrow> n) attempted_at in
             and_then (write_atomic last_attempt_path (show_nat latest_attempt)) (\<lambda>_.
             write_entry X (entry\<lparr>claim_token := None\<rparr>)))
           else ok ()
       | Inl (UnknownId _) \<Rightarrow> ok ()
       | Inl e \<Rightarrow> err e)"

fun reclaim_loop :: "ext \<Rightarrow> stored_entry list \<Rightarrow> unit store" where
  "reclaim_loop X [] = ok ()"
| "reclaim_loop X (entry # es) =
     (let was_claimed = (claim_token entry \<noteq> None);
          needs_incarnation = (incarnation entry = []);
          unclaimed = entry\<lparr>claim_token := None\<rparr> in
      and_then (if needs_incarnation
                then and_then (draw_uuid X) (\<lambda>uuid. ok (unclaimed\<lparr>incarnation := uuid\<rparr>))
                else ok unclaimed) (\<lambda>entry'.
      and_then (if was_claimed \<or> needs_incarnation then write_entry X entry' else ok ()) (\<lambda>_.
      reclaim_loop X es)))"

definition reclaim_claims :: "ext \<Rightarrow> unit store" where
  "reclaim_claims X = and_then (entries X) (\<lambda>es. reclaim_loop X es)"

definition recover_worker_state :: "ext \<Rightarrow> unit store" where
  "recover_worker_state X = and_then (reconcile_completion X) (\<lambda>_. reclaim_claims X)"

end
