(* ===== verification/Queue_Store.thy ===== *)
theory Queue_Store
  imports Scheduling
begin

text \<open>
  The remaining operations of \<open>QueueStore\<close> (\<open>store.rs\<close>, \<open>store/await_lookup.rs\<close>): opening the
  store with its start-up recovery, reordering and deleting entries, the history entry points
  and the pending-first lookup behind \<open>await\<close>.
\<close>

definition open_store :: "ext \<Rightarrow> unit store" where
  "open_store X =
     and_then (io fs_call) (\<lambda>_.
     and_then (io fs_call) (\<lambda>_.
     and_then (reconcile_completion X) (\<lambda>_.
     and_then (validate_existing_limits X) (\<lambda>_.
     and_then (reclaim_claims X) (\<lambda>_.
     reconcile_await_deletions X)))))"

definition reorder :: "ext \<Rightarrow> string \<Rightarrow> (stored_entry \<Rightarrow> stored_entry list \<Rightarrow> i64) \<Rightarrow> unit store" where
  "reorder X i new_order =
     and_then (entries X) (\<lambda>all.
     and_then (find_entry X i) (\<lambda>entry.
     write_entry X (entry\<lparr>order := new_order entry all\<rparr>)))"

definition bump_order :: "stored_entry \<Rightarrow> stored_entry list \<Rightarrow> i64" where
  "bump_order entry all =
     (case all of
        [] \<Rightarrow> order entry
      | head # _ \<Rightarrow> if ident head = ident entry then order entry else sat_sub_i64 (order head) 1)"

definition bust_order :: "stored_entry \<Rightarrow> stored_entry list \<Rightarrow> i64" where
  "bust_order entry all =
     (if all = [] then order entry
      else if ident (last all) = ident entry then order entry
      else sat_add_i64 (order (last all)) 1)"

definition bump :: "ext \<Rightarrow> string \<Rightarrow> unit store" where
  "bump X i = reorder X i bump_order"

definition bust :: "ext \<Rightarrow> string \<Rightarrow> unit store" where
  "bust X i = reorder X i bust_order"

definition del :: "ext \<Rightarrow> string \<Rightarrow> unit store" where
  "del X i =
     and_then (find_entry X i) (\<lambda>entry.
     and_then (write_await_deletion X entry) (\<lambda>_.
     and_then (entry_path i) (\<lambda>p.
     io (fs_remove_file p))))"

definition append_history :: "ext \<Rightarrow> history_record \<Rightarrow> unit store" where
  "append_history X r = history_append X r"

definition history_page_of ::
  "ext \<Rightarrow> history_position option \<Rightarrow> nat option \<Rightarrow> nat \<Rightarrow> history_page store" where
  "history_page_of X pos recent_limit page_size = read_page X pos recent_limit page_size"

section \<open>Waiting for an entry\<close>

datatype await_state =
    AwaitPending u64 await_cursor
  | AwaitPosted "string option" u64
  | AwaitUnknown

definition history_end :: "u64 store" where
  "history_end =
     and_then (attempt (fs_metadata history_path)) (\<lambda>r.
       case r of
         Inr (_, len) \<Rightarrow> ok len
       | Inl e \<Rightarrow> if kind_of e = NotFound then ok 0 else err (Io e))"

definition pending_await_state ::
  "stored_entry \<Rightarrow> await_cursor option \<Rightarrow> u64 \<Rightarrow> await_state store" where
  "pending_await_state entry cursor eta =
     and_then (case cursor of
                 Some c \<Rightarrow> ok c
               | None \<Rightarrow> and_then history_end (\<lambda>offset.
                   ok \<lparr>ac_offset = offset, ac_incarnation = incarnation entry\<rparr>)) (\<lambda>c.
     ok (AwaitPending eta c))"

definition resolve_await_pending_with_eta ::
  "ext \<Rightarrow> string \<Rightarrow> await_cursor option \<Rightarrow> (stored_entry \<Rightarrow> u64 store) \<Rightarrow> await_state option store" where
  "resolve_await_pending_with_eta X i cursor eta =
     and_then (attempt (find_entry X i)) (\<lambda>found.
       case found of
         Inr entry \<Rightarrow>
           if (case cursor of None \<Rightarrow> True | Some c \<Rightarrow> ac_incarnation c = incarnation entry) then
             and_then (eta entry) (\<lambda>eta_seconds.
             and_then (pending_await_state entry cursor eta_seconds) (\<lambda>s. ok (Some s)))
           else ok None
       | Inl (UnknownId _) \<Rightarrow> ok None
       | Inl e \<Rightarrow> err e)"

definition resolve_await_completion :: "ext \<Rightarrow> string \<Rightarrow> await_cursor option \<Rightarrow> await_state store" where
  "resolve_await_completion X i cursor =
     and_then (if cursor = None then await_lifetime_was_deleted i else ok False) (\<lambda>deleted.
     if deleted then ok AwaitUnknown
     else
       and_then (latest_completion X i cursor) (\<lambda>r.
       ok (case r of None \<Rightarrow> AwaitUnknown | Some h \<Rightarrow> AwaitPosted (comment_url h) (posted_at h))))"

end
