(* ===== verification/Transport.thy ===== *)
theory Transport
  imports Rust_Std
begin

text \<open>
  The socket policy both sides share (\<open>crates/comenq-transport/src/lib.rs\<close>): where the daemon
  binds and which sockets a client tries. The environment is the parameter \<open>env\<close>, a function from
  variable names to values.
\<close>

type_synonym env = "string \<Rightarrow> string option"

definition DEFAULT_SOCKET_PATH :: string where
  "DEFAULT_SOCKET_PATH = ''/run/comenq/comenq.sock''"

definition XDG_RUNTIME_DIR :: string where
  "XDG_RUNTIME_DIR = ''XDG_RUNTIME_DIR''"

definition SOCKET_RELATIVE_PATH :: string where
  "SOCKET_RELATIVE_PATH = ''comenq/comenq.sock''"

text \<open>\<open>Path::is_absolute\<close>, and \<open>Path::join\<close> with a relative path.\<close>

definition is_absolute :: "string \<Rightarrow> bool" where
  "is_absolute p \<longleftrightarrow> p \<noteq> [] \<and> hd p = CHR ''/''"

definition path_join :: "string \<Rightarrow> string \<Rightarrow> string" where
  "path_join base rel =
     (if base = [] then rel else if last base = CHR ''/'' then base @ rel else base @ ''/'' @ rel)"

text \<open>Two paths are equal when their components are: repeated and trailing separators and inner
  dots do not count.\<close>

fun split_slash :: "string \<Rightarrow> string list" where
  "split_slash [] = [[]]"
| "split_slash (c # cs) =
     (if c = CHR ''/'' then [] # split_slash cs
      else (case split_slash cs of [] \<Rightarrow> [[c]] | part # parts \<Rightarrow> (c # part) # parts))"

definition components :: "string \<Rightarrow> bool \<times> string list" where
  "components p =
     (let parts = split_slash p;
          absolute = is_absolute p;
          kept = filter (\<lambda>c. c \<noteq> [] \<and> c \<noteq> ''.'') parts
      in (absolute, if \<not> absolute \<and> hd parts = ''.'' then ''.'' # kept else kept))"

definition same_path :: "string \<Rightarrow> string \<Rightarrow> bool" where
  "same_path p q \<longleftrightarrow> components p = components q"

text \<open>\<open>Path::file_name\<close>: the last component, unless it is a dot or two dots.\<close>

definition path_file_name :: "string \<Rightarrow> string option" where
  "path_file_name p =
     (let kept = filter (\<lambda>c. c \<noteq> [] \<and> c \<noteq> ''.'') (split_slash p)
      in if kept = [] \<or> last kept = ''..'' then None else Some (last kept))"

definition user_socket_path :: "env \<Rightarrow> string option" where
  "user_socket_path env =
     (case env XDG_RUNTIME_DIR of
        None \<Rightarrow> None
      | Some d \<Rightarrow>
          if d = [] then None
          else if \<not> is_absolute d then None
          else Some (path_join d SOCKET_RELATIVE_PATH))"

definition default_socket_path :: "env \<Rightarrow> string" where
  "default_socket_path env =
     (case user_socket_path env of None \<Rightarrow> DEFAULT_SOCKET_PATH | Some p \<Rightarrow> p)"

definition socket_candidates :: "env \<Rightarrow> string list" where
  "socket_candidates env =
     (let candidates = (case user_socket_path env of None \<Rightarrow> [] | Some p \<Rightarrow> [p])
      in if list_ex (\<lambda>p. same_path p DEFAULT_SOCKET_PATH) candidates then candidates
         else candidates @ [DEFAULT_SOCKET_PATH])"

section \<open>Properties\<close>

lemma default_socket_path_candidate: "hd (socket_candidates env) = default_socket_path env"
  by (simp add: socket_candidates_def default_socket_path_def Let_def split: option.splits)

lemma candidates_bounds:
  "socket_candidates env \<noteq> []" "length (socket_candidates env) \<le> 2"
  "list_ex (\<lambda>p. same_path p DEFAULT_SOCKET_PATH) (socket_candidates env)"
  by (auto simp: socket_candidates_def Let_def same_path_def split: option.splits)

lemma path_join_absolute: "is_absolute base \<Longrightarrow> is_absolute (path_join base rel)"
  by (auto simp: is_absolute_def path_join_def)

end
