(* ===== verification/Config.thy ===== *)
theory Config
  imports Filesystem Transport
begin

text \<open>
  The daemon's configuration (\<open>crates/comenqd/src/config.rs\<close> and its submodules): command-line
  overrides, and the resolution of the GitHub credentials into the ordered token pool. Reading
  the configuration file and merging the environment is \<open>ortho_config\<close> and \<open>figment\<close>, parameters
  of \<open>from_file_with_cli_and_tokens\<close>. Token files are read through the parameter \<open>token_fs\<close>,
  which gives a path's bytes or the error of opening it.
\<close>

record config =
  github_token :: string
  github_token_file :: "string option"
  github_token_files :: "string list"
  socket_path :: string
  queue_path :: string
  cooldown_period_seconds :: u64
  cooldown_flutter_seconds :: u64
  restart_min_delay_ms :: u64
  github_api_timeout_secs :: u64

record cli_args =
  cli_config :: string
  cli_github_token :: "string option"
  cli_github_token_file :: "string option"
  cli_socket_path :: "string option"
  cli_queue_path :: "string option"
  cli_cooldown_period_seconds :: "u64 option"
  cli_github_api_timeout_secs :: "u64 option"

record named_token =
  nt_name :: string
  nt_token :: string

datatype ortho_error =
    OrthoFile string io_error
  | OrthoValidation string string
  | OrthoOther string

definition DEFAULT_QUEUE_PATH :: string where
  "DEFAULT_QUEUE_PATH = ''/var/lib/comenq/queue''"

definition DEFAULT_COOLDOWN :: u64 where
  [limits]: "DEFAULT_COOLDOWN = 960"

definition DEFAULT_COOLDOWN_FLUTTER :: u64 where
  [limits]: "DEFAULT_COOLDOWN_FLUTTER = 0"

definition DEFAULT_RESTART_MIN_DELAY_MS :: u64 where
  [limits]: "DEFAULT_RESTART_MIN_DELAY_MS = 100"

definition DEFAULT_GITHUB_API_TIMEOUT_SECS :: u64 where
  [limits]: "DEFAULT_GITHUB_API_TIMEOUT_SECS = 30"

text \<open>The values of the fields a configuration file leaves out.\<close>

definition default_config :: "env \<Rightarrow> config" where
  "default_config env =
     \<lparr>github_token = [], github_token_file = None, github_token_files = [],
      socket_path = default_socket_path env, queue_path = DEFAULT_QUEUE_PATH,
      cooldown_period_seconds = DEFAULT_COOLDOWN,
      cooldown_flutter_seconds = DEFAULT_COOLDOWN_FLUTTER,
      restart_min_delay_ms = DEFAULT_RESTART_MIN_DELAY_MS,
      github_api_timeout_secs = DEFAULT_GITHUB_API_TIMEOUT_SECS\<rparr>"

section \<open>Token files\<close>

definition MAX_GITHUB_TOKEN_FILE_BYTES :: usize where
  [limits]: "MAX_GITHUB_TOKEN_FILE_BYTES = 64 * 1024"

datatype token_file_read_error = TokenIo io_error | TooLarge

datatype token_path_error = Malformed string | Unset string

type_synonym token_fs = "string \<Rightarrow> io_error + string"

definition read_token_file :: "token_fs \<Rightarrow> string \<Rightarrow> token_file_read_error + string" where
  "read_token_file fs p =
     (case fs p of
        Inl e \<Rightarrow> Inl (TokenIo e)
      | Inr bs \<Rightarrow>
          let contents = take (MAX_GITHUB_TOKEN_FILE_BYTES + 1) bs in
          if \<not> valid_utf8 contents
          then Inl (TokenIo (IoError InvalidData ''stream did not contain valid UTF-8''))
          else if length contents > MAX_GITHUB_TOKEN_FILE_BYTES then Inl TooLarge
          else Inr contents)"

definition split_once :: "char \<Rightarrow> string \<Rightarrow> (string \<times> string) option" where
  "split_once c s =
     (case position (\<lambda>b. b = c) s of None \<Rightarrow> None | Some i \<Rightarrow> Some (take i s, drop (Suc i) s))"

definition expand_token_path :: "env \<Rightarrow> string \<Rightarrow> token_path_error + string" where
  "expand_token_path env p =
     (if \<not> valid_utf8 p then Inr p
      else if take 2 p \<noteq> ''${'' then Inr p
      else case split_once (CHR ''}'') (drop 2 p) of
             None \<Rightarrow> Inl (Malformed p)
           | Some (variable, tail) \<Rightarrow>
               (case env variable of None \<Rightarrow> Inl (Unset variable) | Some v \<Rightarrow> Inr (v @ tail)))"

definition show_size_limit :: string where
  "show_size_limit = show_nat MAX_GITHUB_TOKEN_FILE_BYTES"

definition token_file_io_error :: "string \<Rightarrow> token_file_read_error \<Rightarrow> io_error" where
  "token_file_io_error p e =
     (case e of
        TokenIo e \<Rightarrow> IoError (kind_of e) (''token file '' @ p @ '': '' @ message_of e)
      | TooLarge \<Rightarrow> IoError InvalidData
          (''token file '' @ p @ '' exceeds '' @ show_size_limit @ '' bytes''))"

definition token_path_io_error :: "token_path_error \<Rightarrow> io_error" where
  "token_path_io_error e =
     (case e of
        Malformed txt \<Rightarrow> IoError InvalidInput
          (''unterminated environment placeholder in '' @ [CHR 0x27] @ txt @ [CHR 0x27])
      | Unset v \<Rightarrow> IoError NotFound
          (''environment variable '' @ [CHR 0x27] @ v @ [CHR 0x27] @ '' is not set''))"

section \<open>The rotation pool\<close>

text \<open>The fold of \<open>resolve_pool\<close>: the tokens so far and the map from tokens to their paths.\<close>

fun pool_loop ::
  "token_fs \<Rightarrow> env \<Rightarrow> string list \<Rightarrow> (string \<times> string) list \<Rightarrow> named_token list
     \<Rightarrow> io_error + named_token list" where
  "pool_loop fs env [] paths_by_token tokens = Inr tokens"
| "pool_loop fs env (configured # rest) paths_by_token tokens =
     (case expand_token_path env configured of
        Inl e \<Rightarrow> Inl (token_path_io_error e)
      | Inr file \<Rightarrow>
          (case read_token_file fs file of
             Inl e \<Rightarrow> Inl (token_file_io_error file e)
           | Inr contents \<Rightarrow>
               let token = str_trim contents in
               if token = [] then Inl (IoError InvalidData (''token file '' @ file @ '' is empty''))
               else
                 (case map_of paths_by_token token of
                    Some previous \<Rightarrow> Inl (IoError InvalidInput
                      (''token files '' @ previous @ '' and '' @ file @ '' contain the same token''))
                  | None \<Rightarrow>
                      pool_loop fs env rest ((token, file) # paths_by_token)
                        (tokens @ [\<lparr>nt_name = (case path_file_name configured of
                                                  Some n \<Rightarrow> if valid_utf8 n then n else ''token''
                                                | None \<Rightarrow> ''token''),
                                    nt_token = token\<rparr>]))))"

definition resolve_pool :: "token_fs \<Rightarrow> env \<Rightarrow> string list \<Rightarrow> string \<Rightarrow> io_error + named_token list" where
  "resolve_pool fs env files inline =
     (if files = [] then Inr [\<lparr>nt_name = ''default'', nt_token = inline\<rparr>]
      else pool_loop fs env files [] [])"

definition github_tokens :: "token_fs \<Rightarrow> env \<Rightarrow> config \<Rightarrow> io_error + named_token list" where
  "github_tokens fs env cfg =
     (if github_token_files cfg = [] \<and> str_trim (github_token cfg) = []
      then Inl (IoError InvalidInput ''GitHub token is empty'')
      else resolve_pool fs env (github_token_files cfg) (github_token cfg))"

section \<open>Credential resolution\<close>

definition read_github_token_file :: "token_fs \<Rightarrow> string \<Rightarrow> ortho_error + string" where
  "read_github_token_file fs p =
     (case read_token_file fs p of
        Inr contents \<Rightarrow> Inr contents
      | Inl (TokenIo source) \<Rightarrow> Inl (OrthoFile p source)
      | Inl TooLarge \<Rightarrow> Inl (OrthoValidation ''github_token_file''
          (''token file '' @ p @ '' exceeds '' @ show_size_limit @ '' bytes'')))"

definition expand_env_prefix :: "env \<Rightarrow> string \<Rightarrow> ortho_error + string" where
  "expand_env_prefix env p =
     (case expand_token_path env p of
        Inr q \<Rightarrow> Inr q
      | Inl (Malformed txt) \<Rightarrow> Inl (OrthoValidation ''github_token_file''
          (''unterminated environment placeholder in '' @ [CHR 0x27] @ txt @ [CHR 0x27]))
      | Inl (Unset v) \<Rightarrow> Inl (OrthoValidation ''github_token_file''
          (''environment variable '' @ [CHR 0x27] @ v @ [CHR 0x27] @ '' is not set'')))"

text \<open>The end of \<open>resolve_github_token\<close>: the single token must not be blank, then it forms the
  pool.\<close>

definition single_token_pool :: "token_fs \<Rightarrow> env \<Rightarrow> config \<Rightarrow> ortho_error + (named_token list \<times> config)" where
  "single_token_pool fs env cfg =
     (if str_trim (github_token cfg) = []
      then Inl (OrthoValidation ''github_token''
             ''provide github_token, github_token_file, or github_token_files'')
      else case github_tokens fs env cfg of
             Inl e \<Rightarrow> Inl (OrthoValidation ''github_token'' (message_of e))
           | Inr tokens \<Rightarrow> Inr (tokens, cfg))"

definition resolve_github_token ::
  "token_fs \<Rightarrow> env \<Rightarrow> bool \<Rightarrow> config \<Rightarrow> ortho_error + (named_token list \<times> config)" where
  "resolve_github_token fs env has_cli_token cfg =
     (if has_cli_token then
        single_token_pool fs env (cfg\<lparr>github_token_file := None, github_token_files := []\<rparr>)
      else if github_token_files cfg \<noteq> [] then
        (case github_tokens fs env cfg of
           Inl e \<Rightarrow> Inl (OrthoValidation ''github_token_files'' (message_of e))
         | Inr tokens \<Rightarrow> Inr (tokens, cfg))
      else
        (case github_token_file cfg of
           Some file \<Rightarrow>
             (case expand_env_prefix env file of
                Inl e \<Rightarrow> Inl e
              | Inr p \<Rightarrow>
                  (case read_github_token_file fs p of
                     Inl e \<Rightarrow> Inl e
                   | Inr contents \<Rightarrow>
                       let token = str_trim contents in
                       if token = [] then
                         Inl (OrthoValidation ''github_token_file'' (''token file '' @ p @ '' is empty''))
                       else single_token_pool fs env (cfg\<lparr>github_token := token\<rparr>)))
         | None \<Rightarrow> single_token_pool fs env cfg))"

definition apply_cli_overrides :: "config \<Rightarrow> cli_args \<Rightarrow> config" where
  "apply_cli_overrides cfg cli =
     (let cfg = (case cli_github_token cli of Some t \<Rightarrow> cfg\<lparr>github_token := t\<rparr> | None \<Rightarrow> cfg);
          cfg = (case cli_github_token_file cli of
                   Some f \<Rightarrow> cfg\<lparr>github_token_file := Some f, github_token_files := []\<rparr>
                 | None \<Rightarrow> cfg);
          cfg = (case cli_socket_path cli of Some s \<Rightarrow> cfg\<lparr>socket_path := s\<rparr> | None \<Rightarrow> cfg);
          cfg = (case cli_queue_path cli of Some q \<Rightarrow> cfg\<lparr>queue_path := q\<rparr> | None \<Rightarrow> cfg);
          cfg = (case cli_cooldown_period_seconds cli of
                   Some n \<Rightarrow> cfg\<lparr>cooldown_period_seconds := n\<rparr> | None \<Rightarrow> cfg)
      in (case cli_github_api_timeout_secs cli of
            Some n \<Rightarrow> cfg\<lparr>github_api_timeout_secs := n\<rparr> | None \<Rightarrow> cfg))"

definition from_file_with_cli_and_tokens ::
  "(string \<Rightarrow> ortho_error + 'fig option) \<Rightarrow> ('fig \<Rightarrow> ortho_error + config) \<Rightarrow> token_fs \<Rightarrow> env
     \<Rightarrow> string \<Rightarrow> cli_args \<Rightarrow> ortho_error + (config \<times> named_token list)" where
  "from_file_with_cli_and_tokens load_config_file extract fs env p cli =
     (case load_config_file p of
        Inl e \<Rightarrow> Inl e
      | Inr None \<Rightarrow> Inl (OrthoFile p (IoError NotFound ''Configuration file not found''))
      | Inr (Some fig) \<Rightarrow>
          (case extract fig of
             Inl e \<Rightarrow> Inl e
           | Inr cfg \<Rightarrow>
               (case resolve_github_token fs env (cli_github_token cli \<noteq> None)
                       (apply_cli_overrides cfg cli) of
                  Inl e \<Rightarrow> Inl e
                | Inr (tokens, cfg') \<Rightarrow> Inr (cfg', tokens))))"

definition from_file_with_cli ::
  "(string \<Rightarrow> ortho_error + 'fig option) \<Rightarrow> ('fig \<Rightarrow> ortho_error + config) \<Rightarrow> token_fs \<Rightarrow> env
     \<Rightarrow> string \<Rightarrow> cli_args \<Rightarrow> ortho_error + config" where
  "from_file_with_cli load_config_file extract fs env p cli =
     map_ok fst (from_file_with_cli_and_tokens load_config_file extract fs env p cli)"

end
