(* ===== verification/Queue.thy ===== *)
theory Queue
  imports Queue_Store Config
begin

text \<open>
  The queue both daemon tasks share (\<open>crates/comenqd/src/queue.rs\<close> with \<open>queue/store_access.rs\<close>,
  \<open>queue/history.rs\<close> and \<open>queue/await_lookup.rs\<close>). Its state is the store's world, the cached
  projection waiters share, the wrapping state version, the buffered permit of the change
  notification, and the two gauges. An operation of the store runs under the lock, so it is one
  function on this state; what happens between two locked sections is an explicit parameter.
  The clock's reading and the flutter sample are arguments.
\<close>

record await_schedule_cache =
  built_at :: u64
  etas :: "(string \<times> u64) list"

record shared_queue =
  disk :: world
  await_schedule :: "await_schedule_cache option"
  state_version :: "64 word"
  permit :: bool
  gauges :: "usize \<times> u64"

type_synonym 'a locked =
  "world \<times> await_schedule_cache option \<Rightarrow> (store_error + 'a) \<times> world \<times> await_schedule_cache option"

type_synonym 'a queue_op = "shared_queue \<Rightarrow> (store_error + 'a) \<times> shared_queue"

definition is_state_mutation :: "string \<Rightarrow> bool" where
  "is_state_mutation operation \<longleftrightarrow>
     operation \<in> {''put'', ''bump'', ''bust'', ''del'', ''claim_next_due'', ''complete'',
                  ''release_claim'', ''recover_worker_state''}"

text \<open>The end of the locked section: a successful mutation drops the cached projection and
  publishes a new version.\<close>

definition publish ::
  "string \<Rightarrow> (store_error + 'a) \<Rightarrow> world \<Rightarrow> await_schedule_cache option \<Rightarrow> shared_queue
     \<Rightarrow> (store_error + 'a) \<times> shared_queue" where
  "publish operation r w cache s =
     (r, if is_ok r \<and> is_state_mutation operation
         then s\<lparr>disk := w, await_schedule := None, state_version := state_version s + 1\<rparr>
         else s\<lparr>disk := w, await_schedule := cache\<rparr>)"

definition with_state :: "string \<Rightarrow> 'a locked \<Rightarrow> 'a queue_op" where
  "with_state operation work s =
     (case work (disk s, await_schedule s) of (r, w, cache) \<Rightarrow> publish operation r w cache s)"

definition with_store :: "string \<Rightarrow> 'a store \<Rightarrow> 'a queue_op" where
  "with_store operation work =
     with_state operation (\<lambda>(w, cache). case work w of (r, w') \<Rightarrow> (r, w', cache))"

definition update_queue_gauges :: "ext \<Rightarrow> shared_queue \<Rightarrow> shared_queue" where
  "update_queue_gauges X s =
     (case with_store ''queue_metrics_snapshot'' (queue_metrics_snapshot X) s of
        (Inr counts, s') \<Rightarrow> s'\<lparr>gauges := counts\<rparr>
      | (Inl _, s') \<Rightarrow> s')"

definition mutation_finished :: "ext \<Rightarrow> shared_queue \<Rightarrow> shared_queue" where
  "mutation_finished X s = (update_queue_gauges X s)\<lparr>permit := True\<rparr>"

section \<open>Operations\<close>

text \<open>\<open>SharedQueue::open\<close>, given the world it finds.\<close>

definition open_queue :: "ext \<Rightarrow> world \<Rightarrow> (store_error + shared_queue) \<times> world" where
  "open_queue X =
     and_then (open_store X) (\<lambda>_.
     and_then (queue_metrics_snapshot X) (\<lambda>counts w.
       (Inr \<lparr>disk = w, await_schedule = None, state_version = 0, permit = False, gauges = counts\<rparr>, w)))"

definition sq_next_due :: "ext \<Rightarrow> config \<Rightarrow> u64 \<Rightarrow> (stored_entry \<times> u64) option queue_op" where
  "sq_next_due X cfg now =
     with_store ''next_due'' (next_due X (cooldown_period_seconds cfg) now)"

definition sq_claim_next_due :: "ext \<Rightarrow> config \<Rightarrow> u64 \<Rightarrow> (stored_entry \<times> u64) option queue_op" where
  "sq_claim_next_due X cfg now s =
     (case with_store ''claim_next_due'' (claim_next_due X (cooldown_period_seconds cfg) now) s of
        (r, s') \<Rightarrow>
          (r, case r of Inr (Some (_, wait)) \<Rightarrow> if wait = 0 then update_queue_gauges X s' else s'
              | _ \<Rightarrow> s'))"

definition sq_recover_worker_state :: "ext \<Rightarrow> unit queue_op" where
  "sq_recover_worker_state X s =
     (case with_store ''recover_worker_state'' (recover_worker_state X) s of
        (Inl e, s') \<Rightarrow> (Inl e, s')
      | (Inr u, s') \<Rightarrow> (Inr u, update_queue_gauges X s'))"

definition sq_complete :: "ext \<Rightarrow> u64 \<Rightarrow> stored_entry \<Rightarrow> string \<Rightarrow> string \<Rightarrow> unit queue_op" where
  "sq_complete X now entry th url s =
     (case with_store ''complete'' (complete_claim_with_token X entry th now (Some url)) s of
        (r, s') \<Rightarrow> (r, if is_ok r then update_queue_gauges X s' else s'))"

definition sq_release_claim :: "ext \<Rightarrow> u64 \<Rightarrow> string \<Rightarrow> string \<Rightarrow> unit queue_op" where
  "sq_release_claim X attempted_at i token s =
     (case with_store ''release_claim'' (release_claim X i token attempted_at) s of
        (r, s') \<Rightarrow> (r, if is_ok r then update_queue_gauges X s' else s'))"

definition is_safe_repository_component :: "string \<Rightarrow> bool" where
  "is_safe_repository_component c \<longleftrightarrow>
     c \<noteq> [] \<and> c \<noteq> ''.'' \<and> c \<noteq> ''..''
     \<and> list_all (\<lambda>b. is_ascii_alphanumeric b \<or> b \<in> {CHR ''.'', CHR ''_'', CHR ''-''}) c"

definition validate_request :: "comment_request \<Rightarrow> store_error + unit" where
  "validate_request req =
     (if \<not> is_safe_repository_component (owner req) then Inl (InvalidRepositoryComponent ''owner'')
      else if \<not> is_safe_repository_component (repo req)
        then Inl (InvalidRepositoryComponent ''name'')
      else Inr ())"

text \<open>\<open>SharedQueue::put\<close>. The search for an identifier may not end, hence the option.\<close>

definition sq_put ::
  "ext \<Rightarrow> config \<Rightarrow> (u64 \<Rightarrow> u64) \<Rightarrow> u64 \<Rightarrow> comment_request \<Rightarrow> bool \<Rightarrow> shared_queue
     \<Rightarrow> ((store_error + (stored_entry \<times> u64)) \<times> shared_queue) option" where
  "sq_put X cfg sample now req imm s =
     (case validate_request req of
        Inl e \<Rightarrow> Some (Inl e, s)
      | Inr _ \<Rightarrow>
          let flutter_max = cooldown_flutter_seconds cfg;
              flutter = min (sample flutter_max) flutter_max;
              opts = \<lparr>cooldown = cooldown_period_seconds cfg, po_flutter_seconds = flutter,
                      immediate = imm\<rparr> in
          (case put_with_eta X req opts now (disk s) of
             None \<Rightarrow> None
           | Some (r, w) \<Rightarrow>
               (case publish ''put'' r w (await_schedule s) s of
                  (r, s') \<Rightarrow> Some (r, if is_ok r then mutation_finished X s' else s'))))"

definition sq_list :: "ext \<Rightarrow> config \<Rightarrow> u64 \<Rightarrow> (stored_entry \<times> u64) list queue_op" where
  "sq_list X cfg now = with_store ''list'' (schedule X (cooldown_period_seconds cfg) now)"

definition mutate_entry :: "ext \<Rightarrow> string \<Rightarrow> unit store \<Rightarrow> unit queue_op" where
  "mutate_entry X operation mutate s =
     (case with_store operation mutate s of
        (r, s') \<Rightarrow> (r, if is_ok r then mutation_finished X s' else s'))"

definition sq_bump :: "ext \<Rightarrow> string \<Rightarrow> unit queue_op" where
  "sq_bump X i = mutate_entry X ''bump'' (bump X i)"

definition sq_bust :: "ext \<Rightarrow> string \<Rightarrow> unit queue_op" where
  "sq_bust X i = mutate_entry X ''bust'' (bust X i)"

definition sq_del :: "ext \<Rightarrow> string \<Rightarrow> unit queue_op" where
  "sq_del X i = mutate_entry X ''del'' (del X i)"

section \<open>History\<close>

definition HISTORY_READ_PAGE_SIZE :: usize where
  [limits]: "HISTORY_READ_PAGE_SIZE = 64"

definition sq_append_history :: "ext \<Rightarrow> history_record \<Rightarrow> unit queue_op" where
  "sq_append_history X r = with_store ''append_history'' (append_history X r)"

definition sq_record_failure :: "ext \<Rightarrow> u64 \<Rightarrow> stored_entry \<Rightarrow> string \<Rightarrow> string \<Rightarrow> unit queue_op" where
  "sq_record_failure X now entry th e s =
     (case (history_failure X entry th now e :: history_record store) (disk s) of
        (Inl err', w) \<Rightarrow> (Inl err', s\<lparr>disk := w\<rparr>)
      | (Inr r, w) \<Rightarrow> sq_append_history X r (s\<lparr>disk := w\<rparr>))"

definition sq_last_token_hash :: "ext \<Rightarrow> string option queue_op" where
  "sq_last_token_hash X =
     with_store ''latest_history_token''
       (and_then (history_page_of X None (Some 1) 1) (\<lambda>page.
        ok (if records page = [] then None else Some (token_hash (record_of (last (records page)))))))"

definition sq_history_page ::
  "ext \<Rightarrow> usize option \<Rightarrow> history_position option \<Rightarrow> history_page queue_op" where
  "sq_history_page X limit pos =
     with_store ''history'' (history_page_of X pos limit HISTORY_READ_PAGE_SIZE)"

section \<open>Waiting\<close>

text \<open>The etas are a hash map built from the schedule: a later pair with the same key wins.\<close>

definition cached_eta ::
  "ext \<Rightarrow> string \<Rightarrow> u64 \<Rightarrow> u64 \<Rightarrow> world \<times> await_schedule_cache option
     \<Rightarrow> (store_error + u64) \<times> world \<times> await_schedule_cache option" where
  "cached_eta X i cool now st =
     (case st of (w, cache) \<Rightarrow>
        let should_rebuild = (case cache of None \<Rightarrow> True | Some projection \<Rightarrow> built_at projection \<noteq> now) in
        if should_rebuild then
          (case schedule X cool now w of
             (Inl e, w') \<Rightarrow> (Inl e, w', cache)
           | (Inr sched, w') \<Rightarrow>
               let etas' = rev (map (\<lambda>(entry, eta). (ident entry, eta)) sched) in
               (Inr (case map_of etas' i of None \<Rightarrow> 0 | Some eta \<Rightarrow> eta), w',
                Some \<lparr>built_at = now, etas = etas'\<rparr>))
        else
          (Inr (case cache of
                  None \<Rightarrow> 0
                | Some projection \<Rightarrow> (case map_of (etas projection) i of None \<Rightarrow> 0 | Some eta \<Rightarrow> eta)),
           w, cache))"

text \<open>\<open>resolve_pending\<close>: the store's pending lookup with the cached projection as its closure. The
  cache is a variable the closure updates, so the lookup is written out over both.\<close>

definition resolve_pending ::
  "ext \<Rightarrow> string \<Rightarrow> await_cursor option \<Rightarrow> u64 \<Rightarrow> u64 \<Rightarrow> await_state option locked" where
  "resolve_pending X i cursor cool now st =
     (case st of (w, cache) \<Rightarrow>
        (case find_entry X i w of
           (Inr entry, w1) \<Rightarrow>
             if (case cursor of None \<Rightarrow> True | Some c \<Rightarrow> ac_incarnation c = incarnation entry) then
               (case cached_eta X (ident entry) cool now (w1, cache) of
                  (Inl e, w2, cache') \<Rightarrow> (Inl e, w2, cache')
                | (Inr eta, w2, cache') \<Rightarrow>
                    (case pending_await_state entry cursor eta w2 of
                       (r, w3) \<Rightarrow> (map_ok Some r, w3, cache')))
             else (Inr None, w1, cache)
         | (Inl (UnknownId _), w1) \<Rightarrow> (Inr None, w1, cache)
         | (Inl e, w1) \<Rightarrow> (Inl e, w1, cache)))"

record await_snapshot =
  generation :: "64 word"
  pending :: "await_state option"

definition observe_await_state ::
  "ext \<Rightarrow> config \<Rightarrow> string \<Rightarrow> await_cursor option \<Rightarrow> u64 \<Rightarrow> await_snapshot queue_op" where
  "observe_await_state X cfg i cursor now s =
     with_state ''resolve_await''
       (\<lambda>st. case resolve_pending X i cursor (cooldown_period_seconds cfg) now st of
               (r, st') \<Rightarrow> (map_ok (\<lambda>p. \<lparr>generation = state_version s, pending = p\<rparr>) r, st')) s"

text \<open>
  \<open>resolve_await_store_with_history\<close>: observe under the lock, scan the history without it, observe
  again and accept the scan only if no mutation was published in between. \<open>interfere n\<close> is
  what other tasks do to the queue in the \<open>n\<close>-th unlocked interval, \<open>clock n\<close> the \<open>n\<close>-th reading of
  the clock; \<^term>\<open>None\<close> is a lookup that is overtaken forever.
\<close>

partial_function (option) resolve_await_loop ::
  "ext \<Rightarrow> config \<Rightarrow> (nat \<Rightarrow> shared_queue \<Rightarrow> shared_queue) \<Rightarrow> (nat \<Rightarrow> u64) \<Rightarrow> string
     \<Rightarrow> await_cursor option \<Rightarrow> nat \<Rightarrow> shared_queue
     \<Rightarrow> ((store_error + await_state) \<times> shared_queue) option" where
  "resolve_await_loop X cfg interfere clock i cursor n s =
     (case observe_await_state X cfg i cursor (clock n) s of
        (Inl e, s1) \<Rightarrow> Some (Inl e, s1)
      | (Inr observed, s1) \<Rightarrow>
          (case pending observed of
             Some p \<Rightarrow> Some (Inr p, s1)
           | None \<Rightarrow>
               (case resolve_await_completion X i cursor (disk (interfere n s1)) of
                  (completed, w) \<Rightarrow>
                    (case observe_await_state X cfg i cursor (clock (Suc n))
                            (interfere (Suc n) ((interfere n s1)\<lparr>disk := w\<rparr>)) of
                       (Inl e, s2) \<Rightarrow> Some (Inl e, s2)
                     | (Inr current, s2) \<Rightarrow>
                         (case pending current of
                            Some p \<Rightarrow> Some (Inr p, s2)
                          | None \<Rightarrow>
                              if generation current = generation observed then Some (completed, s2)
                              else resolve_await_loop X cfg interfere clock i cursor
                                     (Suc (Suc n)) s2)))))"

datatype await_outcome =
    OutcomePending u64 await_cursor
  | OutcomePosted "string option" u64
  | OutcomeUnknown

datatype await_error = InvalidIdentifier | QueueLookup string

fun await_error_category :: "await_error \<Rightarrow> string" where
  "await_error_category InvalidIdentifier = ''invalid_identifier''"
| "await_error_category (QueueLookup c) = c"

fun await_error_message :: "await_error \<Rightarrow> string" where
  "await_error_message InvalidIdentifier =
     ''await identifier must contain eight hexadecimal characters''"
| "await_error_message (QueueLookup c) = ''await lookup failed ('' @ c @ '')''"

fun outcome_of :: "await_state \<Rightarrow> await_outcome" where
  "outcome_of (AwaitPending eta c) = OutcomePending eta c"
| "outcome_of (AwaitPosted url at) = OutcomePosted url at"
| "outcome_of AwaitUnknown = OutcomeUnknown"

fun await_error_of :: "store_error \<Rightarrow> await_error" where
  "await_error_of (InvalidId _) = InvalidIdentifier"
| "await_error_of e = QueueLookup (category e)"

definition resolve_await ::
  "ext \<Rightarrow> config \<Rightarrow> (nat \<Rightarrow> shared_queue \<Rightarrow> shared_queue) \<Rightarrow> (nat \<Rightarrow> u64) \<Rightarrow> string
     \<Rightarrow> await_cursor option \<Rightarrow> shared_queue
     \<Rightarrow> ((await_error + await_outcome) \<times> shared_queue) option" where
  "resolve_await X cfg interfere clock i token s =
     (case resolve_await_loop X cfg interfere clock i token 0 s of
        None \<Rightarrow> None
      | Some (r, s') \<Rightarrow> Some (map_err await_error_of (map_ok outcome_of r), s'))"

end
