(* ===== verification/Listener.thy ===== *)
theory Listener
  imports Queue
begin

text \<open>
  The daemon's socket side (\<open>crates/comenqd/src/listener/protocol.rs\<close>, \<open>listener/connection.rs\<close>,
  \<open>listener/await_handler.rs\<close> and the label tables of \<open>metrics/duration.rs\<close>): one request per
  connection, dispatched to the shared queue and answered within the wire limits, and the await
  stream with its permits. What the socket delivers and accepts is a parameter.
\<close>

section \<open>Error texts\<close>

fun parse_int_error_text :: "parse_int_error \<Rightarrow> string" where
  "parse_int_error_text EmptyInput = ''cannot parse integer from empty string''"
| "parse_int_error_text InvalidDigit = ''invalid digit found in string''"
| "parse_int_error_text PosOverflow = ''number too large to fit in target type''"

text \<open>The \<open>Display\<close> of \<open>StoreError\<close>.\<close>

fun store_error_text :: "store_error \<Rightarrow> string" where
  "store_error_text (Io e) = message_of e"
| "store_error_text (Serde m) = ''entry serialization failed: '' @ m"
| "store_error_text (UnknownId i) = ''no queued comment has id '' @ [CHR 0x27] @ i @ [CHR 0x27]"
| "store_error_text (InvalidId i) =
     ''queue entry id '' @ [CHR 0x27] @ i @ [CHR 0x27] @ '' must be eight hexadecimal characters''"
| "store_error_text (InvalidRepositoryComponent c) =
     ''GitHub repository '' @ c @ '' contains unsafe characters''"
| "store_error_text (LastPost e) = ''last-post marker is invalid: '' @ parse_int_error_text e"
| "store_error_text (LastAttempt e) = ''last-attempt marker is invalid: '' @ parse_int_error_text e"
| "store_error_text (BlockingTask m) = ''queue operation task failed: '' @ m"
| "store_error_text (QueueFull n) =
     ''queue would exceed the maximum of '' @ show_nat n @ '' pending entries''"
| "store_error_text (EntryTooLarge n limit) =
     ''queue entry is '' @ show_nat n @ '' bytes, exceeding the per-entry limit of ''
       @ show_nat limit @ '' bytes''"
| "store_error_text (QueueByteBudgetExceeded used requested limit) =
     ''queue byte budget exceeded: '' @ show_nat used @ '' bytes used, '' @ show_nat requested
       @ '' more requested, '' @ show_nat limit @ '' allowed''"

definition store_error_response :: "store_error \<Rightarrow> response \<times> string option" where
  "store_error_response e = (response_error (store_error_text e), Some (category e))"

definition map_store_response :: "store_error + unit \<Rightarrow> response \<times> string option" where
  "map_store_response r =
     (case r of Inr _ \<Rightarrow> (response_ok, None) | Inl e \<Rightarrow> store_error_response e)"

section \<open>Responses\<close>

definition pending_entry_of :: "stored_entry \<Rightarrow> u64 \<Rightarrow> pending_entry" where
  "pending_entry_of entry eta =
     \<lparr>pe_id = ident entry, eta_seconds = eta, pe_owner = owner (request entry),
      pe_repo = repo (request entry), pe_pr_number = pr_number (request entry),
      pe_body = body (request entry)\<rparr>"

definition history_entry_of :: "history_record \<Rightarrow> history_entry" where
  "history_entry_of r =
     \<lparr>he_id = hr_id r, he_posted_at = posted_at r, he_success = success r, he_error = hr_error r,
      he_token_hash = token_hash r, he_owner = owner (hr_request r), he_repo = repo (hr_request r),
      he_pr_number = pr_number (hr_request r), he_body = body (hr_request r)\<rparr>"

definition list_too_large :: response where
  "list_too_large = response_error (''list response exceeds the '' @ show_nat MAX_RESPONSE_BYTES @ ''-byte limit'')"

fun schedule_loop ::
  "wire \<Rightarrow> (stored_entry \<times> u64) list \<Rightarrow> usize \<Rightarrow> pending_entry list \<Rightarrow> string + response" where
  "schedule_loop W [] projected_size es = Inr (response_entries es)"
| "schedule_loop W ((entry, eta) # rest) projected_size es =
     (let p = pending_entry_of entry eta in
      case pending_to_vec W p of
        Inl e \<Rightarrow> Inl e
      | Inr encoded \<Rightarrow>
          let separator_size = (if es = [] then 0 else 1);
              next_size = sat_add (sat_add projected_size (length encoded)) separator_size in
          if next_size > MAX_RESPONSE_BYTES then Inr list_too_large
          else schedule_loop W rest next_size (es @ [p]))"

definition response_for_schedule :: "wire \<Rightarrow> (stored_entry \<times> u64) list \<Rightarrow> string + response" where
  "response_for_schedule W sched =
     (case response_to_vec W (response_entries []) of
        Inl e \<Rightarrow> Inl e
      | Inr bare \<Rightarrow> schedule_loop W (take MAX_PENDING_ENTRIES sched) (length bare) [])"

definition cursor_of :: "history_position \<Rightarrow> history_cursor" where
  "cursor_of p = \<lparr>hc_offset = hp_offset p, hc_end_offset = hp_end_offset p\<rparr>"

definition history_response_size :: "wire \<Rightarrow> usize \<Rightarrow> history_cursor option \<Rightarrow> string + usize" where
  "history_response_size W encoded_entries_size next_cursor =
     map_ok (\<lambda>bare. length bare + encoded_entries_size)
       (response_to_vec W (response_history [] next_cursor))"

definition record_too_large :: response where
  "record_too_large = response_error
     (''one history record exceeds the '' @ show_nat MAX_RESPONSE_BYTES @ ''-byte response limit'')"

text \<open>The loop of \<open>response_for_history\<close>: the left result ends the function, the right one is the
  entries and the cursor the loop stops with.\<close>

fun history_loop ::
  "wire \<Rightarrow> bool \<Rightarrow> history_record_at list \<Rightarrow> usize \<Rightarrow> history_entry list \<Rightarrow> history_cursor option
     \<Rightarrow> (string + response) + (history_entry list \<times> history_cursor option)" where
  "history_loop W page_has_next [] encoded_size es next_cursor = Inr (es, next_cursor)"
| "history_loop W page_has_next (item # rest) encoded_size es next_cursor =
     (let entry = history_entry_of (record_of item);
          has_more = (rest \<noteq> [] \<or> page_has_next);
          candidate_cursor = (if has_more then Some (cursor_of (position_after item)) else None) in
      case history_entry_to_vec W entry of
        Inl e \<Rightarrow> Inl (Inl e)
      | Inr encoded \<Rightarrow>
          let separator_size = (if es = [] then 0 else 1);
              new_size = encoded_size + length encoded + separator_size in
          (case history_response_size W new_size candidate_cursor of
             Inl e \<Rightarrow> Inl (Inl e)
           | Inr n \<Rightarrow>
               if n > MAX_RESPONSE_BYTES then
                 (if es = [] then Inl (Inr record_too_large) else Inr (es, next_cursor))
               else history_loop W page_has_next rest new_size (es @ [entry]) candidate_cursor))"

definition response_for_history :: "wire \<Rightarrow> history_page \<Rightarrow> string + response" where
  "response_for_history W page =
     (case history_loop W (next_pos page \<noteq> None) (records page) 0 [] None of
        Inl r \<Rightarrow> r
      | Inr (es, next_cursor) \<Rightarrow>
          let next_cursor = (case next_pos page of
                               Some p \<Rightarrow> if es = [] then Some (cursor_of p) else next_cursor
                             | None \<Rightarrow> next_cursor)
          in Inr (response_history es next_cursor))"

section \<open>Dispatch\<close>

definition too_large_kind :: "response \<Rightarrow> string option" where
  "too_large_kind r = (if is_error r then Some ''response_too_large'' else None)"

definition dispatch_request_with_error_kind ::
  "ext \<Rightarrow> wire \<Rightarrow> config \<Rightarrow> (u64 \<Rightarrow> u64) \<Rightarrow> u64 \<Rightarrow> request \<Rightarrow> shared_queue
     \<Rightarrow> ((response \<times> string option) \<times> shared_queue) option" where
  "dispatch_request_with_error_kind X W cfg sample now req s =
     (case req of
        Put comment imm \<Rightarrow>
          (case sq_put X cfg sample now comment imm s of
             None \<Rightarrow> None
           | Some (Inr (entry, eta), s') \<Rightarrow> Some ((response_entry (pending_entry_of entry eta), None), s')
           | Some (Inl e, s') \<Rightarrow> Some (store_error_response e, s'))
      | Await _ \<Rightarrow>
          Some ((response_error ''await requires a streaming connection'', Some ''stream_required''), s)
      | ListReq \<Rightarrow>
          (case sq_list X cfg now s of
             (Inr sched, s') \<Rightarrow>
               (case response_for_schedule W sched of
                  Inr r \<Rightarrow> Some ((r, too_large_kind r), s')
                | Inl _ \<Rightarrow> Some ((response_error ''failed to encode list response'',
                                  Some ''response_serialization''), s'))
           | (Inl e, s') \<Rightarrow> Some (store_error_response e, s'))
      | Bump i \<Rightarrow> (case sq_bump X i s of (r, s') \<Rightarrow> Some (map_store_response r, s'))
      | Bust i \<Rightarrow> (case sq_bust X i s of (r, s') \<Rightarrow> Some (map_store_response r, s'))
      | Del i \<Rightarrow> (case sq_del X i s of (r, s') \<Rightarrow> Some (map_store_response r, s'))
      | Hist limit cursor \<Rightarrow>
          let pos = map_option (\<lambda>c. \<lparr>hp_offset = hc_offset c, hp_end_offset = hc_end_offset c\<rparr>) cursor in
          (case sq_history_page X limit pos s of
             (Inr page, s') \<Rightarrow>
               (case response_for_history W page of
                  Inr r \<Rightarrow> Some ((r, too_large_kind r), s')
                | Inl _ \<Rightarrow> Some ((response_error ''failed to encode history response'',
                                  Some ''response_serialization''), s'))
           | (Inl e, s') \<Rightarrow> Some (store_error_response e, s')))"

definition dispatch_request ::
  "ext \<Rightarrow> wire \<Rightarrow> config \<Rightarrow> (u64 \<Rightarrow> u64) \<Rightarrow> u64 \<Rightarrow> request \<Rightarrow> shared_queue
     \<Rightarrow> (response \<times> shared_queue) option" where
  "dispatch_request X W cfg sample now req s =
     map_option (\<lambda>((r, _), s'). (r, s')) (dispatch_request_with_error_kind X W cfg sample now req s)"

section \<open>Connections\<close>

definition CLIENT_READ_TIMEOUT_SECS :: u64 where
  [limits]: "CLIENT_READ_TIMEOUT_SECS = 5"

definition CLIENT_WRITE_TIMEOUT_SECS :: u64 where
  [limits]: "CLIENT_WRITE_TIMEOUT_SECS = 5"

fun request_operation :: "request \<Rightarrow> string" where
  "request_operation (Put _ _) = ''put''"
| "request_operation ListReq = ''list''"
| "request_operation (Bump _) = ''bump''"
| "request_operation (Bust _) = ''bust''"
| "request_operation (Del _) = ''del''"
| "request_operation (Hist _ _) = ''hist''"
| "request_operation (Await _) = ''await''"

datatype client_outcome = Accepted | Failed | AwaitEnded string

definition response_oversize :: response where
  "response_oversize = response_error (''response exceeds '' @ show_nat MAX_RESPONSE_BYTES @ '' bytes'')"

text \<open>The bytes of the reply, with the outcome and error kind they are accounted under.\<close>

definition encode_reply ::
  "wire \<Rightarrow> response \<Rightarrow> client_outcome \<Rightarrow> string option
     \<Rightarrow> string + (string \<times> client_outcome \<times> string option)" where
  "encode_reply W response outcome error_kind =
     (case response_to_vec W response of
        Inl e \<Rightarrow> Inl e
      | Inr bs \<Rightarrow>
          if length bs > MAX_RESPONSE_BYTES then
            map_ok (\<lambda>bs'. (bs', Failed, Some ''response_too_large'')) (response_to_vec W response_oversize)
          else Inr (bs, outcome, error_kind))"

text \<open>The request is executed, or its text refused.\<close>

definition execute_request ::
  "ext \<Rightarrow> wire \<Rightarrow> config \<Rightarrow> (u64 \<Rightarrow> u64) \<Rightarrow> u64 \<Rightarrow> string + request \<Rightarrow> shared_queue
     \<Rightarrow> (response \<times> client_outcome \<times> string option \<times> shared_queue) option" where
  "execute_request X W cfg sample now parsed s =
     (case parsed of
        Inr req \<Rightarrow>
          map_option (\<lambda>((r, kind), s'). (r, if is_error r then Failed else Accepted, kind, s'))
            (dispatch_request_with_error_kind X W cfg sample now req s)
      | Inl e \<Rightarrow> Some (response_error (''invalid request: '' @ e), Failed, Some ''invalid_json'', s))"

text \<open>The reply is encoded and written, and the socket shut down.\<close>

definition send_reply ::
  "wire \<Rightarrow> (string \<Rightarrow> string + unit) \<Rightarrow> response \<Rightarrow> client_outcome \<Rightarrow> string option
     \<Rightarrow> (string + (client_outcome \<times> string option)) \<times> string option" where
  "send_reply W deliver response outcome error_kind =
     (case encode_reply W response outcome error_kind of
        Inl e \<Rightarrow> (Inl e, None)
      | Inr (bs, outcome', error_kind') \<Rightarrow>
          (case deliver bs of
             Inl e \<Rightarrow> (Inl e, Some bs)
           | Inr _ \<Rightarrow> (Inr (outcome', error_kind'), Some bs)))"

text \<open>
  \<open>handle_client_inner\<close>: \<open>input\<close> is what the read side delivers within its deadline, at most one byte
  more than the limit, \<open>deliver\<close> whether the reply can be written and the socket shut down, and
  \<open>awaiting\<close> the await stream's end. The result carries the operation's label and the reply.
\<close>

definition handle_client_inner ::
  "ext \<Rightarrow> wire \<Rightarrow> config \<Rightarrow> (u64 \<Rightarrow> u64) \<Rightarrow> u64 \<Rightarrow> (string + string) \<Rightarrow> (string \<Rightarrow> string + unit)
     \<Rightarrow> (string \<Rightarrow> shared_queue \<Rightarrow> string \<times> shared_queue) \<Rightarrow> shared_queue
     \<Rightarrow> ((string + (client_outcome \<times> string option)) \<times> string option \<times> string option \<times> shared_queue) option" where
  "handle_client_inner X W cfg sample now input deliver awaiting s =
     (case input of
        Inl e \<Rightarrow> Some (Inl e, None, None, s)
      | Inr received \<Rightarrow>
          let buffer = take (MAX_REQUEST_BYTES + 1) received in
          if length buffer > MAX_REQUEST_BYTES
          then Some (Inl (''client payload exceeds '' @ show_nat MAX_REQUEST_BYTES @ '' bytes''), None, None, s)
          else
            (case request_from_slice W buffer of
               Inr (Await i) \<Rightarrow>
                 (case awaiting i s of
                    (outcome, s') \<Rightarrow> Some (Inr (AwaitEnded outcome, None), Some ''await'', None, s'))
             | parsed \<Rightarrow>
                 (case execute_request X W cfg sample now parsed s of
                    None \<Rightarrow> None
                  | Some (response, outcome, error_kind, s') \<Rightarrow>
                      (case send_reply W deliver response outcome error_kind of
                         (result, reply) \<Rightarrow>
                           Some (result,
                                 case parsed of Inr req \<Rightarrow> Some (request_operation req) | Inl _ \<Rightarrow> None,
                                 reply, s')))))"

text \<open>The labels \<open>handle_client_with_control\<close> records for a finished connection.\<close>

definition connection_labels ::
  "string + (client_outcome \<times> string option) \<Rightarrow> string \<times> string option" where
  "connection_labels r =
     (case r of
        Inr (AwaitEnded outcome, kind) \<Rightarrow> (outcome, kind)
      | Inr (Accepted, kind) \<Rightarrow> (''accepted'', kind)
      | Inr (Failed, kind) \<Rightarrow> (''failed'', kind)
      | Inl _ \<Rightarrow> (''rejected'', Some ''protocol_io''))"

section \<open>Metric labels\<close>

definition protocol_operation_label :: "string option \<Rightarrow> string" where
  "protocol_operation_label operation =
     (case operation of
        Some l \<Rightarrow> if l \<in> {''put'', ''list'', ''bump'', ''bust'', ''del'', ''hist'', ''await''} then l
                  else ''unknown''
      | None \<Rightarrow> ''unknown'')"

definition queue_store_operation_label :: "string \<Rightarrow> string" where
  "queue_store_operation_label l =
     (if l \<in> {''put'', ''list'', ''bump'', ''bust'', ''del'', ''hist'', ''history'', ''append_history'',
              ''latest_history_token'', ''next_due'', ''complete'', ''resolve_await''} then l
      else if l = ''claim_next_due'' then ''claim''
      else if l = ''release_claim'' then ''release''
      else if l = ''recover_worker_state'' then ''recover''
      else if l = ''queue_metrics_snapshot'' then ''metrics''
      else ''unknown'')"

definition outcome_vocabulary :: "string set" where
  "outcome_vocabulary =
     {''accepted'', ''failed'', ''rejected'', ''success'', ''failure'', ''posted'', ''unknown_identifier'',
      ''removed'', ''rejected_capacity'', ''shutdown'', ''client_gone'', ''posted_without_url'',
      ''posted_url_too_large'', ''not_found'', ''permission_denied'', ''invalid_data'', ''io_error'',
      ''invalid_json'', ''invalid_identifier'', ''unsafe_identifier'', ''invalid_repository_component'',
      ''invalid_last_post'', ''invalid_last_attempt'', ''blocking_task'', ''queue_full'',
      ''entry_too_large'', ''byte_budget_exceeded''}"

definition bounded_outcome_label :: "string \<Rightarrow> string" where
  "bounded_outcome_label l = (if l \<in> outcome_vocabulary then l else ''unknown'')"

definition error_vocabulary :: "string set" where
  "error_vocabulary =
     {''protocol_io'', ''invalid_json'', ''response_too_large'', ''response_serialization'', ''not_found'',
      ''permission_denied'', ''invalid_data'', ''io_error'', ''unknown_identifier'', ''unsafe_identifier'',
      ''invalid_repository_component'', ''invalid_last_post'', ''invalid_last_attempt'', ''blocking_task'',
      ''queue_full'', ''entry_too_large'', ''byte_budget_exceeded''}"

definition bounded_error_label :: "string option \<Rightarrow> string" where
  "bounded_error_label kind =
     (case kind of
        None \<Rightarrow> ''none''
      | Some l \<Rightarrow> if l = ''none'' then ''none'' else if l \<in> error_vocabulary then l else ''unknown'')"

section \<open>The await stream\<close>

definition MAX_AWAITERS :: usize where
  [limits]: "MAX_AWAITERS = 64"

text \<open>\<open>send_frame\<close>: a frame fits and the socket takes it, or the write fails. \<open>accepts\<close> is the
  socket. The result is the success flag and the frames written.\<close>

definition send_frame :: "wire \<Rightarrow> (await_event \<Rightarrow> bool) \<Rightarrow> await_event \<Rightarrow> bool \<times> await_event list" where
  "send_frame W accepts event =
     (case event_to_vec W event of
        Inl _ \<Rightarrow> (False, [])
      | Inr bs \<Rightarrow>
          if \<not> length bs < MAX_AWAIT_FRAME_BYTES then (False, [])
          else if accepts event then (True, [event]) else (False, []))"

definition send_terminal ::
  "wire \<Rightarrow> (await_event \<Rightarrow> bool) \<Rightarrow> string \<Rightarrow> string \<Rightarrow> string \<times> await_event list" where
  "send_terminal W accepts message outcome =
     (case send_frame W accepts (ErrorEvent message) of
        (sent, frames) \<Rightarrow> (if sent then outcome else ''client_gone'', frames))"

definition missing_entry ::
  "wire \<Rightarrow> (await_event \<Rightarrow> bool) \<Rightarrow> await_cursor option \<Rightarrow> string \<times> await_event list" where
  "missing_entry W accepts token =
     (if token \<noteq> None then send_terminal W accepts ''comment was removed'' ''removed''
      else send_terminal W accepts ''unknown comment identifier'' ''unknown_identifier'')"

definition send_posted :: "wire \<Rightarrow> (await_event \<Rightarrow> bool) \<Rightarrow> string \<Rightarrow> string \<times> await_event list" where
  "send_posted W accepts url =
     (let event = PostedEvent url;
          fits = (case event_to_vec W event of Inr bs \<Rightarrow> length bs < MAX_AWAIT_FRAME_BYTES | Inl _ \<Rightarrow> False) in
      if \<not> fits
      then send_terminal W accepts ''posted comment URL exceeds the await frame limit'' ''posted_url_too_large''
      else (case send_frame W accepts event of
              (sent, frames) \<Rightarrow> (if sent then ''posted'' else ''client_gone'', frames)))"

text \<open>\<open>respond\<close>: the outcome that ends the stream, if any, the frames written and the token kept.\<close>

definition respond ::
  "wire \<Rightarrow> (await_event \<Rightarrow> bool) \<Rightarrow> await_error + await_outcome \<Rightarrow> await_cursor option
     \<Rightarrow> string option \<times> await_event list \<times> await_cursor option" where
  "respond W accepts lookup token =
     (case lookup of
        Inr (OutcomePending eta selected) \<Rightarrow>
          (case send_frame W accepts (Waiting eta) of
             (sent, frames) \<Rightarrow> (if sent then None else Some ''client_gone'', frames, Some selected))
      | Inr (OutcomePosted (Some url) _) \<Rightarrow>
          (case send_posted W accepts url of (outcome, frames) \<Rightarrow> (Some outcome, frames, token))
      | Inr (OutcomePosted None _) \<Rightarrow>
          (case send_terminal W accepts ''posted comment has no recorded URL'' ''posted_without_url'' of
             (outcome, frames) \<Rightarrow> (Some outcome, frames, token))
      | Inr OutcomeUnknown \<Rightarrow>
          (case missing_entry W accepts token of (outcome, frames) \<Rightarrow> (Some outcome, frames, token))
      | Inl e \<Rightarrow>
          (case send_terminal W accepts (await_error_message e) (await_error_category e) of
             (outcome, frames) \<Rightarrow> (Some outcome, frames, token)))"

text \<open>
  One turn of the loop of \<open>await_entry\<close>: whether shutdown has begun, what the lookup finds for the
  token, and whether the following wait ends with a shutdown. The stream is a function of the
  turns; \<^term>\<open>None\<close> as outcome is a stream that is still open when the turns run out.
\<close>

record await_turn =
  shutdown_begun :: bool
  lookup_result :: "await_cursor option \<Rightarrow> await_error + await_outcome"
  woken_by_shutdown :: bool

definition shutdown_terminal :: "wire \<Rightarrow> (await_event \<Rightarrow> bool) \<Rightarrow> string \<times> await_event list" where
  "shutdown_terminal W accepts = send_terminal W accepts ''daemon is shutting down'' ''shutdown''"

fun await_entry ::
  "wire \<Rightarrow> (await_event \<Rightarrow> bool) \<Rightarrow> await_turn list \<Rightarrow> await_cursor option
     \<Rightarrow> string option \<times> await_event list" where
  "await_entry W accepts [] token = (None, [])"
| "await_entry W accepts (turn # turns) token =
     (if shutdown_begun turn then
        (case shutdown_terminal W accepts of (outcome, frames) \<Rightarrow> (Some outcome, frames))
      else
        (case respond W accepts (lookup_result turn token) token of
           (Some outcome, frames, _) \<Rightarrow> (Some outcome, frames)
         | (None, frames, token') \<Rightarrow>
             if woken_by_shutdown turn then
               (case shutdown_terminal W accepts of (outcome, final) \<Rightarrow> (Some outcome, frames @ final))
             else
               (case await_entry W accepts turns token' of
                  (outcome, later) \<Rightarrow> (outcome, frames @ later))))"

text \<open>The permits of one listener: a request takes one if any is left, and gives it back at its end.\<close>

definition handle_await ::
  "wire \<Rightarrow> (await_event \<Rightarrow> bool) \<Rightarrow> await_turn list \<Rightarrow> usize \<Rightarrow> string option \<times> await_event list" where
  "handle_await W accepts turns permits =
     (if permits = 0 then
        (case send_terminal W accepts ''too many concurrent await requests'' ''rejected_capacity'' of
           (outcome, frames) \<Rightarrow> (Some outcome, frames))
      else await_entry W accepts turns None)"

text \<open>The waiters of a listener as a state machine: the number of streams running.\<close>

inductive await_permits :: "nat \<Rightarrow> nat \<Rightarrow> bool" where
  acquire: "running < MAX_AWAITERS \<Longrightarrow> await_permits running (Suc running)"
| refuse: "running = MAX_AWAITERS \<Longrightarrow> await_permits running running"
| release: "await_permits (Suc running) running"

end
