(* ===== verification/Listener_Props.thy ===== *)
theory Listener_Props
  imports Listener Reference_Codec
begin

text \<open>
  The daemon's socket side: replies lose no history and fit the wire limit, connections are
  accounted under fixed labels, and an await stream is a run of heartbeats with one terminal
  frame. What the listener relies on of the JSON encoder is stated as laws, which the reference
  codec satisfies.
\<close>

section \<open>What the encoder promises\<close>

text \<open>An array takes the bytes of its elements and one separator between two of them.\<close>

definition items_size :: "string list \<Rightarrow> nat" where
  "items_size vs = sum_list (map length vs) + (length vs - 1)"

definition array_sizes :: "wire \<Rightarrow> bool" where
  "array_sizes W \<longleftrightarrow>
     (\<forall>hs vs c v0. map (history_entry_to_vec W) hs = map Inr vs \<longrightarrow> response_to_vec W (response_history [] c) = Inr v0 \<longrightarrow>
        (\<exists>v. response_to_vec W (response_history hs c) = Inr v \<and> length v = length v0 + items_size vs))
     \<and> (\<forall>es vs v0. map (pending_to_vec W) es = map Inr vs \<longrightarrow> response_to_vec W (response_entries []) = Inr v0 \<longrightarrow>
        (\<exists>v. response_to_vec W (response_entries es) = Inr v \<and> length v = length v0 + items_size vs))"


text \<open>A frame survives being written with a newline and read back, and contains none itself.\<close>

definition event_codec :: "wire \<Rightarrow> bool" where
  "event_codec W \<longleftrightarrow>
     (\<forall>ev v. event_to_vec W ev = Inr v \<longrightarrow> newline \<notin> set v \<and> event_from_slice W (v @ [newline]) = Inr ev)"

text \<open>Requests and replies survive the wire.\<close>

definition exchange_codec :: "wire \<Rightarrow> bool" where
  "exchange_codec W \<longleftrightarrow>
     (\<forall>req v. request_to_vec W req = Inr v \<longrightarrow> request_from_slice W v = Inr req)
     \<and> (\<forall>r v. response_to_vec W r = Inr v \<longrightarrow> response_from_slice W v = Inr r)"

definition request_fits :: "wire \<Rightarrow> request \<Rightarrow> bool" where
  "request_fits W req \<longleftrightarrow> (\<exists>v. request_to_vec W req = Inr v \<and> length v \<le> MAX_REQUEST_BYTES)"

lemma items_size_snoc: "items_size (vs @ [v]) = items_size vs + length v + (if vs = [] then 0 else 1)"
  by (cases vs) (simp_all add: items_size_def)

lemma map_Inr_eq: "map f xs = map Inr vs \<Longrightarrow> vs = map (projr \<circ> f) xs"
  by (induction xs arbitrary: vs) (auto simp: Cons_eq_map_conv)

lemma ref_array_sizes: "array_sizes ref_wire"
proof -
  have h: "length (enc_response (response_history hs c)) = length (enc_response (response_history [] c)) + items_size (map enc_hentry hs)"
    for hs c
    by (simp add: enc_response_def response_history_def enc_sum_def enc_pair_def enc_option_def length_enc_list items_size_def
        comp_def enc_unit_def)
  have e: "length (enc_response (response_entries es)) = length (enc_response (response_entries [])) + items_size (map enc_pending es)"
    for es
    by (simp add: enc_response_def response_entries_def enc_sum_def enc_pair_def enc_option_def length_enc_list items_size_def
        comp_def enc_unit_def)
  have vec: "response_to_vec ref_wire r = Inr (enc_response r @ ''}'')" "history_entry_to_vec ref_wire = (\<lambda>h. Inr (enc_hentry h))"
    "pending_to_vec ref_wire = (\<lambda>p. Inr (enc_pending p))" for r
    by (simp_all add: ref_wire_def to_doc_def)
  show ?thesis
    unfolding array_sizes_def
  proof (intro conjI allI impI)
    fix hs vs c v0
    assume "map (history_entry_to_vec ref_wire) hs = map Inr vs" "response_to_vec ref_wire (response_history [] c) = Inr v0"
    then show "\<exists>v. response_to_vec ref_wire (response_history hs c) = Inr v \<and> length v = length v0 + items_size vs"
      using h [of hs c] map_Inr_eq [of "history_entry_to_vec ref_wire" hs vs] by (auto simp: vec comp_def)
  next
    fix es vs v0
    assume "map (pending_to_vec ref_wire) es = map Inr vs" "response_to_vec ref_wire (response_entries []) = Inr v0"
    then show "\<exists>v. response_to_vec ref_wire (response_entries es) = Inr v \<and> length v = length v0 + items_size vs"
      using e [of es] map_Inr_eq [of "pending_to_vec ref_wire" es vs] by (auto simp: vec comp_def)
  qed
qed

lemma ref_event_codec: "event_codec ref_wire"
  using of_to_doc [OF prefix_code_event] doc_no_newline [OF prefix_code_event]
  by (auto simp: event_codec_def ref_wire_def to_doc_def of_doc_def)

lemma ref_exchange_codec: "exchange_codec ref_wire"
  using of_to_doc [OF prefix_code_req] of_to_doc [OF prefix_code_response]
  by (auto simp: exchange_codec_def ref_wire_def to_doc_def)


section \<open>History replies\<close>

abbreviation entry_at :: "history_record_at \<Rightarrow> history_entry" where
  "entry_at i \<equiv> history_entry_of (record_of i)"

text \<open>The cursor that belongs to a reply with the records \<open>pre\<close> when \<open>rest\<close> did not fit.\<close>

definition cursor_after :: "bool \<Rightarrow> history_record_at list \<Rightarrow> history_record_at list \<Rightarrow> history_cursor option" where
  "cursor_after goes_on pre rest =
     (if pre = [] \<or> (rest = [] \<and> \<not> goes_on) then None else Some (cursor_of (position_after (last pre))))"

definition reply_fits :: "wire \<Rightarrow> response \<Rightarrow> bool" where
  "reply_fits W r \<longleftrightarrow> (\<exists>v. response_to_vec W r = Inr v \<and> length v \<le> MAX_RESPONSE_BYTES)"

lemma history_reply_size:
  assumes "array_sizes W" "map (history_entry_to_vec W) hs = map Inr vs"
    "history_response_size W (items_size vs) c = Inr n" "n \<le> MAX_RESPONSE_BYTES"
  shows "reply_fits W (response_history hs c)"
proof -
  obtain v0 where "response_to_vec W (response_history [] c) = Inr v0" "n = length v0 + items_size vs"
    using assms(3) by (cases "response_to_vec W (response_history [] c)") (auto simp: history_response_size_def)
  then show ?thesis using assms(1,2,4) unfolding array_sizes_def reply_fits_def by metis
qed

lemma history_loop_spec:
  assumes sizes: "array_sizes W"
  shows "map (history_entry_to_vec W) es = map Inr vs \<Longrightarrow> enc = items_size vs \<Longrightarrow> es = map entry_at pre \<Longrightarrow>
    c = cursor_after goes_on pre rest \<Longrightarrow> (pre \<noteq> [] \<longrightarrow> reply_fits W (response_history es c)) \<Longrightarrow>
    history_loop W goes_on rest enc es c = Inr (es', c') \<Longrightarrow>
    \<exists>k. es' = map entry_at (pre @ take k rest) \<and> c' = cursor_after goes_on (pre @ take k rest) (drop k rest)
      \<and> (pre @ take k rest = [] \<longrightarrow> rest = [])
      \<and> (pre @ take k rest \<noteq> [] \<longrightarrow> reply_fits W (response_history es' c'))"
proof (induction rest arbitrary: enc es c vs pre)
  case Nil
  then show ?case by (intro exI [of _ 0]) simp
next
  case (Cons item rest)
  let ?c = "if rest \<noteq> [] \<or> goes_on then Some (cursor_of (position_after item)) else None"
  obtain v where v: "history_entry_to_vec W (entry_at item) = Inr v"
    using Cons.prems(6) by (cases "history_entry_to_vec W (entry_at item)") (auto simp: Let_def)
  have vs: "es = [] \<longleftrightarrow> vs = []" using Cons.prems(1) by (metis map_is_Nil_conv)
  let ?enc = "enc + length v + (if es = [] then 0 else 1)"
  obtain n where n: "history_response_size W ?enc ?c = Inr n"
    using Cons.prems(6) v by (cases "history_response_size W ?enc ?c") (auto simp: Let_def)
  have enc: "?enc = items_size (vs @ [v])" using Cons.prems(2) vs by (simp add: items_size_snoc)
  have map': "map (history_entry_to_vec W) (es @ [entry_at item]) = map Inr (vs @ [v])" using Cons.prems(1) v by simp
  have c': "?c = cursor_after goes_on (pre @ [item]) rest" by (auto simp: cursor_after_def)
  show ?case
  proof (cases "n > MAX_RESPONSE_BYTES")
    case True
    then have "es \<noteq> []" "es' = es" "c' = c" using Cons.prems(6) v n by (auto simp: Let_def split: if_splits)
    then show ?thesis using Cons.prems(3-5) by (intro exI [of _ 0]) auto
  next
    case False
    then have fits: "reply_fits W (response_history (es @ [entry_at item]) ?c)"
      using history_reply_size [OF sizes map'] n enc by simp
    have run: "history_loop W goes_on rest ?enc (es @ [entry_at item]) ?c = Inr (es', c')"
      using Cons.prems(6) v n False by (simp add: Let_def)
    obtain k where k: "es' = map entry_at ((pre @ [item]) @ take k rest)"
        "c' = cursor_after goes_on ((pre @ [item]) @ take k rest) (drop k rest)"
        "(pre @ [item]) @ take k rest \<noteq> [] \<longrightarrow> reply_fits W (response_history es' c')"
      using Cons.IH [OF map' enc _ c' _ run] fits Cons.prems(3) by auto
    then show ?thesis by (intro exI [of _ "Suc k"]) simp
  qed
qed

lemma response_for_history_prefix:
  assumes "array_sizes W" "response_for_history W page = Inr r" "r \<noteq> record_too_large" "records page \<noteq> []"
  shows "\<exists>k. 0 < k \<and> k \<le> length (records page)
    \<and> r = response_history (map entry_at (take k (records page)))
            (if k < length (records page) \<or> next_pos page \<noteq> None
             then Some (cursor_of (position_after (records page ! (k - 1)))) else None)
    \<and> reply_fits W r"
proof -
  let ?more = "next_pos page \<noteq> None" and ?recs = "records page"
  have err: "history_loop W m rs n es c = Inl (Inr q) \<Longrightarrow> q = record_too_large" for m rs n es c q
    by (induction W m rs n es c rule: history_loop.induct) (auto simp: Let_def split: sum.splits if_splits)
  obtain es c where run: "history_loop W ?more ?recs 0 [] None = Inr (es, c)"
    using assms(2,3) err by (cases "history_loop W ?more ?recs 0 [] None") (auto simp: response_for_history_def)
  obtain k where k: "es = map entry_at (take k ?recs)" "c = cursor_after ?more (take k ?recs) (drop k ?recs)"
      "take k ?recs \<noteq> []" "reply_fits W (response_history es c)"
    using history_loop_spec [OF assms(1), of "[]" "[]" 0 "[]" None ?more ?recs es c] run assms(4)
    by (auto simp: cursor_after_def items_size_def)
  define j where "j = min k (length ?recs)"
  have j: "0 < j" "j \<le> length ?recs" "take k ?recs = take j ?recs" "drop k ?recs = drop j ?recs"
    using k(3) by (auto simp: j_def min_def)
  have last: "last (take j ?recs) = ?recs ! (j - 1)" using j k(3) by (simp add: last_conv_nth)
  have "r = response_history es c"
    using assms(2) run k(1,3) by (auto simp: response_for_history_def Let_def split: option.splits)
  moreover have "c = (if j < length ?recs \<or> ?more then Some (cursor_of (position_after (?recs ! (j - 1)))) else None)"
    using k(2,3) j last by (auto simp: cursor_after_def)
  ultimately show ?thesis using k(1,4) j by (intro exI [of _ j]) simp
qed

text \<open>C23. A history reply loses nothing and fits the wire: its records are the page's first records in
  order, at least one if the page has any; its cursor points behind the last of them whenever the
  page or the log goes on, and is absent otherwise; and its encoding is within the limit. The only
  other reply is the error for a single record that cannot fit.\<close>

theorem history_reply_lossless:
  assumes "array_sizes W" "response_for_history W page = Inr r" "r \<noteq> record_too_large" "records page \<noteq> []"
  shows "\<exists>k. 0 < k \<and> k \<le> length (records page)
    \<and> r = response_history (map entry_at (take k (records page)))
            (if k < length (records page) \<or> next_pos page \<noteq> None
             then Some (cursor_of (position_after (records page ! (k - 1)))) else None)
    \<and> (\<exists>v. response_to_vec W r = Inr v \<and> length v \<le> MAX_RESPONSE_BYTES)"
  using response_for_history_prefix [OF assms] unfolding reply_fits_def by blast

definition sample_page :: history_page where
  "sample_page =
     \<lparr>records = [\<lparr>record_of =
        \<lparr>attempt_id = ''a'', hr_id = ''0000abcd'', posted_at = 7, success = True, hr_error = None, token_hash = ''00'',
         comment_url = None, hr_incarnation = ''i'',
         hr_request = \<lparr>owner = ''o'', repo = ''r'', pr_number = 1, body = ''b''\<rparr>\<rparr>,
       position_after = \<lparr>hp_offset = 90, hp_end_offset = 120\<rparr>\<rparr>],
      next_pos = Some \<lparr>hp_offset = 90, hp_end_offset = 120\<rparr>\<rparr>"

lemma sample_page_reply:
  "response_for_history ref_wire sample_page
     = Inr (response_history [entry_at (hd (records sample_page))] (Some \<lparr>hc_offset = 90, hc_end_offset = 120\<rparr>))"
proof -
  let ?c = "Some \<lparr>hc_offset = 90, hc_end_offset = 120\<rparr>" and ?e = "entry_at (hd (records sample_page))"
  have "length (enc_response (response_history [] ?c) @ ''}'') + length (enc_hentry ?e) < 1000" by code_simp
  then have "history_response_size ref_wire (length (enc_hentry ?e)) ?c = Inr (length (enc_response (response_history [] ?c)) + 1 + length (enc_hentry ?e))"
    "length (enc_response (response_history [] ?c)) + 1 + length (enc_hentry ?e) \<le> MAX_RESPONSE_BYTES"
    by (simp_all add: history_response_size_def ref_wire_def to_doc_def limits)
  moreover have "history_entry_to_vec ref_wire ?e = Inr (enc_hentry ?e)" by (simp add: ref_wire_def)
  ultimately show ?thesis
    by (simp add: response_for_history_def sample_page_def cursor_of_def Let_def)
qed

theorem history_reply_lossless_witness:
  "\<exists>r v. response_for_history ref_wire sample_page = Inr r \<and> response_to_vec ref_wire r = Inr v \<and> length v \<le> MAX_RESPONSE_BYTES"
proof -
  have "response_history hs c \<noteq> record_too_large" for hs c
    by (simp add: response_history_def record_too_large_def response_error_def)
  moreover have "records sample_page \<noteq> []" by (simp add: sample_page_def)
  ultimately show ?thesis
    using history_reply_lossless [OF ref_array_sizes sample_page_reply] sample_page_reply by auto
qed

section \<open>List replies\<close>

abbreviation pending_at :: "stored_entry \<times> u64 \<Rightarrow> pending_entry" where
  "pending_at p \<equiv> pending_entry_of (fst p) (snd p)"

lemma items_size_append: "items_size us \<le> items_size (us @ vs)"
  by (cases us) (auto simp: items_size_def)

lemma sat_add_limit:
  "sat_add (sat_add a b) c \<le> MAX_RESPONSE_BYTES \<longleftrightarrow> a + b + c \<le> MAX_RESPONSE_BYTES"
  "a + b + c \<le> MAX_RESPONSE_BYTES \<Longrightarrow> sat_add (sat_add a b) c = a + b + c"
  by (auto simp: sat_add_def limits u64_max_def)

lemma schedule_loop_exact:
  "map (\<lambda>p. pending_to_vec W (pending_at p)) sched = map Inr vs \<Longrightarrow> (es = [] \<longleftrightarrow> us = []) \<Longrightarrow> size0 + items_size us \<le> MAX_RESPONSE_BYTES \<Longrightarrow>
    schedule_loop W sched (size0 + items_size us) es =
      Inr (if size0 + items_size (us @ vs) \<le> MAX_RESPONSE_BYTES then response_entries (es @ map pending_at sched) else list_too_large)"
proof (induction sched arbitrary: vs us es)
  case (Cons p sched)
  from Cons.prems(1) obtain v vs' where v: "vs = v # vs'" "pending_to_vec W (pending_at p) = Inr v" "map (\<lambda>p. pending_to_vec W (pending_at p)) sched = map Inr vs'"
    by (cases vs) auto
  obtain entry eta where p: "p = (entry, eta)" by fastforce
  let ?sep = "if es = [] then 0 else 1 :: nat"
  let ?next = "sat_add (sat_add (size0 + items_size us) (length v)) ?sep"
  have sum: "size0 + items_size us + length v + ?sep = size0 + items_size (us @ [v])"
    using Cons.prems(2) by (simp add: items_size_snoc)
  show ?case
  proof (cases "size0 + items_size (us @ [v]) \<le> MAX_RESPONSE_BYTES")
    case True
    then have "?next = size0 + items_size (us @ [v])" using sum sat_add_limit(2) by metis
    then show ?thesis using Cons.IH [OF v(3), of "es @ [pending_at p]" "us @ [v]"] True v p by (simp add: Let_def)
  next
    case False
    have "size0 + items_size (us @ vs) > MAX_RESPONSE_BYTES"
      using False items_size_append [of "us @ [v]" vs'] v(1) by simp
    moreover have "\<not> ?next \<le> MAX_RESPONSE_BYTES" using False sum sat_add_limit(1) by metis
    ultimately show ?thesis using v p by (simp add: Let_def)
  qed
qed simp

text \<open>C24. The size a list reply is projected to have is its real one: when the pending entries encode,
  the reply holds all of them in order if its encoding is within the wire limit, and is the error
  that says so exactly if it is not.\<close>

theorem list_reply_exact:
  assumes "array_sizes W" "length sched \<le> MAX_PENDING_ENTRIES"
    and "\<forall>p \<in> set sched. \<exists>v. pending_to_vec W (pending_at p) = Inr v"
    and "response_to_vec W (response_entries []) = Inr bare" "length bare \<le> MAX_RESPONSE_BYTES"
  shows "\<exists>v. response_to_vec W (response_entries (map pending_at sched)) = Inr v
    \<and> response_for_schedule W sched
        = Inr (if length v \<le> MAX_RESPONSE_BYTES then response_entries (map pending_at sched) else list_too_large)"
proof -
  obtain vs where vs: "map (\<lambda>p. pending_to_vec W (pending_at p)) sched = map Inr vs"
    using assms(3) that [of "map (\<lambda>p. projr (pending_to_vec W (pending_at p))) sched"] by (force simp: comp_def)
  then have "map (pending_to_vec W) (map pending_at sched) = map Inr vs" by (simp add: comp_def)
  then obtain v where v: "response_to_vec W (response_entries (map pending_at sched)) = Inr v" "length v = length bare + items_size vs"
    using assms(1,4) unfolding array_sizes_def by blast
  have "response_for_schedule W sched = schedule_loop W sched (length bare + items_size []) []"
    using assms(2,4) by (simp add: response_for_schedule_def items_size_def)
  then show ?thesis
    using schedule_loop_exact [OF vs, of "[]" "[]" "length bare"] assms(5) v by (simp add: items_size_def)
qed

definition sample_schedule :: "(stored_entry \<times> u64) list" where
  "sample_schedule =
     [(\<lparr>ident = ''0000abcd'', incarnation = ''i'', order = 0, flutter_seconds = 0, enqueued_at = 1, not_before = 2, claim_token = None,
        request = \<lparr>owner = ''o'', repo = ''r'', pr_number = 1, body = ''b''\<rparr>\<rparr>, 30)]"

theorem list_reply_exact_witness:
  "response_for_schedule ref_wire sample_schedule = Inr (response_entries (map pending_at sample_schedule))"
proof -
  have vec: "response_to_vec ref_wire r = Inr (enc_response r @ ''}'')" "pending_to_vec ref_wire p = Inr (enc_pending p)" for r p
    by (simp_all add: ref_wire_def to_doc_def)
  have "length (enc_response (response_entries []) @ ''}'') < 1000" "length (enc_response (response_entries (map pending_at sample_schedule)) @ ''}'') < 1000"
    by code_simp+
  then have short: "length (enc_response (response_entries []) @ ''}'') \<le> MAX_RESPONSE_BYTES"
      "length (enc_response (response_entries (map pending_at sample_schedule)) @ ''}'') \<le> MAX_RESPONSE_BYTES" by (simp_all add: limits)
  have "length sample_schedule \<le> MAX_PENDING_ENTRIES" by (simp add: sample_schedule_def limits)
  then show ?thesis using list_reply_exact [OF ref_array_sizes _ _ vec(1) short(1), of sample_schedule] short(2) by (simp add: vec)
qed

section \<open>Connections\<close>


lemma listener_kinds [simp]:
  "''response_too_large'' \<in> error_vocabulary" "''response_serialization'' \<in> error_vocabulary" "''invalid_json'' \<in> error_vocabulary"
  "''protocol_io'' \<in> error_vocabulary"
  by (simp_all add: error_vocabulary_def)















section \<open>Await streams\<close>

text \<open>Lookups fail with the category of a store error.\<close>

definition honest_turns :: "await_turn list \<Rightarrow> bool" where
  "honest_turns turns \<longleftrightarrow>
     (\<forall>t \<in> set turns. \<forall>token c. lookup_result t token = Inl (QueueLookup c) \<longrightarrow> c \<in> range category)"

definition frame_fits :: "wire \<Rightarrow> await_event \<Rightarrow> bool" where
  "frame_fits W ev \<longleftrightarrow> (\<exists>bs. event_to_vec W ev = Inr bs \<and> length bs < MAX_AWAIT_FRAME_BYTES)"

fun terminal :: "await_event \<Rightarrow> bool" where
  "terminal (Waiting _) = False"
| "terminal _ = True"

text \<open>What a stream with the outcome \<open>oc\<close> has written: heartbeats, and a terminal frame if it has
  ended before its client.\<close>

definition stream_shape :: "wire \<Rightarrow> string option \<Rightarrow> await_event list \<Rightarrow> bool" where
  "stream_shape W oc frames \<longleftrightarrow>
     (\<exists>etas final. frames = map Waiting etas @ final \<and> list_all (frame_fits W) frames
        \<and> (case oc of
             None \<Rightarrow> final = []
           | Some l \<Rightarrow>
               l \<in> outcome_vocabulary
               \<and> (if l = ''client_gone'' then final = []
                  else if l = ''posted'' then \<exists>url. final = [PostedEvent url]
                  else \<exists>message. final = [ErrorEvent message])))"

lemma category_outcome: "category e \<in> outcome_vocabulary \<and> category e \<noteq> ''client_gone'' \<and> category e \<noteq> ''posted''"
  by (cases e) (auto simp: outcome_vocabulary_def split: io_kind.splits)

lemma send_frame_cases:
  "send_frame W accepts ev = (True, [ev]) \<and> frame_fits W ev \<or> send_frame W accepts ev = (False, [])"
  by (auto simp: send_frame_def frame_fits_def split: sum.splits)

lemma gone_outcome [simp]: "''client_gone'' \<in> outcome_vocabulary" by (simp add: outcome_vocabulary_def)

lemma stream_shape_gone [simp]: "stream_shape W (Some ''client_gone'') []"
  by (simp add: stream_shape_def)

lemma stream_shape_error:
  "frame_fits W (ErrorEvent m) \<Longrightarrow> l \<in> outcome_vocabulary \<Longrightarrow> l \<noteq> ''client_gone'' \<Longrightarrow> l \<noteq> ''posted'' \<Longrightarrow>
    stream_shape W (Some l) [ErrorEvent m]"
  unfolding stream_shape_def by (rule exI [of _ "[]"]) simp

lemma stream_shape_posted: "frame_fits W (PostedEvent url) \<Longrightarrow> stream_shape W (Some ''posted'') [PostedEvent url]"
  unfolding stream_shape_def by (rule exI [of _ "[]"]) (simp add: outcome_vocabulary_def)

lemma send_terminal_shape:
  assumes "l \<in> outcome_vocabulary" "l \<noteq> ''client_gone''" "l \<noteq> ''posted''" "send_terminal W accepts m l = (oc, frames)"
  shows "stream_shape W (Some oc) frames"
  using send_frame_cases [of W accepts "ErrorEvent m"] assms
  by (auto simp: send_terminal_def stream_shape_error)

lemma send_posted_shape: "send_posted W accepts url = (oc, frames) \<Longrightarrow> stream_shape W (Some oc) frames"
  using send_frame_cases [of W accepts "PostedEvent url"] send_terminal_shape [of "''posted_url_too_large''"]
  by (auto simp: send_posted_def Let_def outcome_vocabulary_def stream_shape_posted split: if_splits)

lemma missing_entry_shape: "missing_entry W accepts token = (oc, frames) \<Longrightarrow> stream_shape W (Some oc) frames"
  using send_terminal_shape [of "''removed''"] send_terminal_shape [of "''unknown_identifier''"]
  by (auto simp: missing_entry_def outcome_vocabulary_def split: if_splits)

lemma shutdown_shape: "shutdown_terminal W accepts = (oc, frames) \<Longrightarrow> stream_shape W (Some oc) frames"
  using send_terminal_shape [of "''shutdown''"] by (auto simp: shutdown_terminal_def outcome_vocabulary_def)

lemma stream_shape_waiting:
  "frame_fits W (Waiting eta) \<Longrightarrow> stream_shape W oc frames \<Longrightarrow> stream_shape W oc (Waiting eta # frames)"
  unfolding stream_shape_def
  by (elim exE, rule_tac x = "eta # etas" in exI, rule_tac x = final in exI) auto

lemma respond_shape:
  assumes lookup: "\<forall>c. lookup = Inl (QueueLookup c) \<longrightarrow> c \<in> range category"
    and run: "respond W accepts lookup token = (oc, frames, token')"
  shows "(\<exists>l. oc = Some l \<and> stream_shape W oc frames) \<or> (\<exists>eta. oc = None \<and> frames = [Waiting eta] \<and> frame_fits W (Waiting eta))"
proof (cases lookup)
  case (Inl e)
  have "await_error_category e \<in> outcome_vocabulary \<and> await_error_category e \<noteq> ''client_gone'' \<and> await_error_category e \<noteq> ''posted''"
    using lookup Inl category_outcome by (cases e) (auto simp: outcome_vocabulary_def)
  then show ?thesis using run Inl send_terminal_shape by (auto simp: respond_def split: prod.splits)
next
  case (Inr a)
  then show ?thesis
  proof (cases a)
    case (OutcomePending eta c)
    then show ?thesis using run Inr send_frame_cases [of W accepts "Waiting eta"] by (auto simp: respond_def)
  next
    case (OutcomePosted url c)
    then show ?thesis using run Inr send_posted_shape send_terminal_shape [of "''posted_without_url''"]
      by (cases url) (auto simp: respond_def outcome_vocabulary_def split: prod.splits)
  next
    case OutcomeUnknown
    then show ?thesis using run Inr missing_entry_shape by (auto simp: respond_def split: prod.splits)
  qed
qed

lemma await_entry_shape:
  "honest_turns turns \<Longrightarrow> await_entry W accepts turns token = (oc, frames) \<Longrightarrow> stream_shape W oc frames"
proof (induction turns arbitrary: token oc frames)
  case Nil
  then show ?case by (simp add: stream_shape_def)
next
  case (Cons turn turns)
  have honest: "honest_turns turns" "\<forall>c. lookup_result turn token = Inl (QueueLookup c) \<longrightarrow> c \<in> range category"
    using Cons.prems(1) by (auto simp: honest_turns_def)
  obtain soc sframes where sd: "shutdown_terminal W accepts = (soc, sframes)" by fastforce
  obtain roc rframes token' where r: "respond W accepts (lookup_result turn token) token = (roc, rframes, token')"
    using prod_cases3 by blast
  obtain loc lframes where l: "await_entry W accepts turns token' = (loc, lframes)" by fastforce
  note shapes = shutdown_shape [OF sd] Cons.IH [OF honest(1) l] respond_shape [OF honest(2) r]
  show ?case using Cons.prems(2) sd r l shapes stream_shape_waiting
    by (auto split: if_splits)
qed

lemma handle_await_shape:
  "honest_turns turns \<Longrightarrow> handle_await W accepts turns permits = (oc, frames) \<Longrightarrow> stream_shape W oc frames"
  using await_entry_shape send_terminal_shape [of "''rejected_capacity''"]
  by (auto simp: handle_await_def outcome_vocabulary_def split: if_splits prod.splits)

text \<open>C25. An await stream is a run of heartbeats closed by at most one terminal frame, and says how it
  ended: every frame fits the limit the client reads with, a stream accounted as posted ends with
  the URL, one whose client is gone or that is still open has no terminal frame, and every other
  ending is an error frame. The outcome is always one of the fixed labels.\<close>

theorem await_stream_framing:
  assumes "honest_turns turns" "handle_await W accepts turns permits = (oc, frames)"
  shows "\<exists>etas final. frames = map Waiting etas @ final
    \<and> (\<forall>ev \<in> set frames. \<exists>bs. event_to_vec W ev = Inr bs \<and> length bs < MAX_AWAIT_FRAME_BYTES)
    \<and> (case oc of
         None \<Rightarrow> final = []
       | Some l \<Rightarrow>
           bounded_outcome_label l = l
           \<and> (if l = ''client_gone'' then final = []
              else if l = ''posted'' then \<exists>url. final = [PostedEvent url]
              else \<exists>message. final = [ErrorEvent message]))"
proof -
  obtain etas final where "frames = map Waiting etas @ final" "list_all (frame_fits W) frames"
      "case oc of None \<Rightarrow> final = [] | Some l \<Rightarrow> l \<in> outcome_vocabulary
         \<and> (if l = ''client_gone'' then final = [] else if l = ''posted'' then \<exists>url. final = [PostedEvent url]
            else \<exists>message. final = [ErrorEvent message])"
    using handle_await_shape [OF assms] unfolding stream_shape_def by blast
  then show ?thesis
    by (intro exI [of _ etas] exI [of _ final] conjI)
      (cases oc; simp add: list_all_iff frame_fits_def bounded_outcome_label_def)+
qed

text \<open>A stream that is told to wait once and then finds the comment posted.\<close>

definition sample_cursor :: await_cursor where
  "sample_cursor = \<lparr>ac_offset = 0, ac_incarnation = ''i''\<rparr>"

definition sample_turns :: "await_turn list" where
  "sample_turns =
     [\<lparr>shutdown_begun = False, lookup_result = (\<lambda>_. Inr (OutcomePending 30 sample_cursor)), woken_by_shutdown = False\<rparr>,
      \<lparr>shutdown_begun = False, lookup_result = (\<lambda>_. Inr (OutcomePosted (Some ''https://example.org/1'') 7)),
       woken_by_shutdown = False\<rparr>]"

lemma sample_turns_honest: "honest_turns sample_turns"
  by (simp add: honest_turns_def sample_turns_def)

lemma sample_frames:
  "handle_await ref_wire (\<lambda>_. True) sample_turns 64 = (Some ''posted'', [Waiting 30, PostedEvent ''https://example.org/1''])"
proof -
  have "length (enc_event (Waiting 30)) < 100" "length (enc_event (PostedEvent ''https://example.org/1'')) < 100"
    by code_simp+
  then show ?thesis
    by (simp add: handle_await_def sample_turns_def respond_def send_posted_def send_frame_def ref_wire_def to_doc_def limits)
qed

theorem await_stream_framing_witness:
  "\<exists>etas url. snd (handle_await ref_wire (\<lambda>_. True) sample_turns 64) = map Waiting etas @ [PostedEvent url]"
  using await_stream_framing [OF sample_turns_honest sample_frames] by (auto simp: sample_frames)

end
