(* ===== verification/Output.thy ===== *)
theory Output
  imports Protocol
begin

text \<open>
  The client's rendering (\<open>crates/comenq/src/output.rs\<close>): durations, report cadence, one-line
  summaries and escaping of untrusted fields. A Rust string is its UTF-8 bytes; \<open>chars\<close> decodes
  them into code points and \<open>utf8_encode\<close> is \<open>String::push\<close>.
\<close>

section \<open>Characters\<close>

definition utf8_encode :: "nat \<Rightarrow> string" where
  "utf8_encode n =
     (if n < 0x80 then [char_of n]
      else if n < 0x800 then [char_of (0xC0 + n div 64), char_of (0x80 + n mod 64)]
      else if n < 0x10000 then
        [char_of (0xE0 + n div 4096), char_of (0x80 + n div 64 mod 64), char_of (0x80 + n mod 64)]
      else [char_of (0xF0 + n div 262144), char_of (0x80 + n div 4096 mod 64),
            char_of (0x80 + n div 64 mod 64), char_of (0x80 + n mod 64)])"

text \<open>\<open>str::chars\<close> on a valid string.\<close>

fun chars :: "string \<Rightarrow> nat list" where
  "chars [] = []"
| "chars (a # s) =
     (if byte a < 0x80 then byte a # chars s
      else case s of
             [] \<Rightarrow> []
           | b # s1 \<Rightarrow>
               if byte a < 0xE0 then ((byte a - 0xC0) * 64 + (byte b - 0x80)) # chars s1
               else (case s1 of
                       [] \<Rightarrow> []
                     | c # s2 \<Rightarrow>
                         if byte a < 0xF0
                         then ((byte a - 0xE0) * 4096 + (byte b - 0x80) * 64 + (byte c - 0x80)) # chars s2
                         else (case s2 of
                                 [] \<Rightarrow> []
                               | d # s3 \<Rightarrow>
                                   ((byte a - 0xF0) * 262144 + (byte b - 0x80) * 4096
                                      + (byte c - 0x80) * 64 + (byte d - 0x80)) # chars s3)))"

definition from_chars :: "nat list \<Rightarrow> string" where
  "from_chars cs = concat (map utf8_encode cs)"

text \<open>\<open>char::is_control\<close>: the category Cc, which is C0, DEL and C1.\<close>

definition is_control :: "nat \<Rightarrow> bool" where
  "is_control c \<longleftrightarrow> c < 0x20 \<or> 0x7F \<le> c \<and> c < 0xA0"

definition breaks_line :: "nat \<Rightarrow> bool" where
  "breaks_line c \<longleftrightarrow> is_control c \<or> c = 0x2028 \<or> c = 0x2029"

text \<open>Hexadecimal digits without leading zeros, and \<open>char::escape_default\<close>.\<close>

function hex_digits :: "nat \<Rightarrow> string" where
  "hex_digits n = (if n < 16 then [hex_char n] else hex_digits (n div 16) @ [hex_char (n mod 16)])"
  by pat_completeness auto

termination
  by (relation "measure id") auto

declare hex_digits.simps [simp del]

definition escape_default :: "nat \<Rightarrow> string" where
  "escape_default c =
     (if c = 0x09 then [CHR 0x5C, CHR ''t'']
      else if c = 0x0D then [CHR 0x5C, CHR ''r'']
      else if c = 0x0A then [CHR 0x5C, CHR ''n'']
      else if c = 0x27 then [CHR 0x5C, CHR 0x27]
      else if c = 0x22 then [CHR 0x5C, CHR 0x22]
      else if c = 0x5C then [CHR 0x5C, CHR 0x5C]
      else if 0x20 \<le> c \<and> c < 0x7F then [char_of c]
      else [CHR 0x5C, CHR ''u'', CHR 0x7B] @ hex_digits c @ [CHR 0x7D])"

section \<open>Durations\<close>

datatype eta_unit = EtaNow | EtaSeconds | EtaMinutes | EtaHours

definition classify_eta :: "u64 \<Rightarrow> eta_unit" where
  "classify_eta n =
     (if n = 0 then EtaNow else if n < 60 then EtaSeconds else if n < 3600 then EtaMinutes else EtaHours)"

definition pad2 :: "nat \<Rightarrow> string" where
  "pad2 n = (if n < 10 then ''0'' @ show_nat n else show_nat n)"

definition format_eta :: "u64 \<Rightarrow> string" where
  "format_eta n =
     (case classify_eta n of
        EtaNow \<Rightarrow> ''now''
      | EtaSeconds \<Rightarrow> show_nat n @ ''s''
      | EtaMinutes \<Rightarrow> show_nat (n div 60) @ ''m '' @ pad2 (n mod 60) @ ''s''
      | EtaHours \<Rightarrow> show_nat (n div 3600) @ ''h '' @ pad2 (n mod 3600 div 60) @ ''m'')"

definition report_interval :: "u64 \<Rightarrow> u64" where
  "report_interval n =
     (if n = 0 then 60
      else
        let cadence = (if n \<le> 60 then 10 else if n \<le> 600 then 30 else if n \<le> 3600 then 120
                       else if n \<le> 21600 then 600 else 1800)
        in min cadence (max n 1))"

definition format_age :: "u64 \<Rightarrow> string" where
  "format_age n = (if n = 0 then ''just now'' else format_eta n @ '' ago'')"

section \<open>Lines\<close>

definition SUMMARY_LIMIT :: usize where
  [limits]: "SUMMARY_LIMIT = 60"

definition one_line_summary :: "string \<Rightarrow> string" where
  "one_line_summary txt =
     (let flat = map (\<lambda>c. if breaks_line c then 0x20 else c) (chars txt) in
      if length flat \<le> SUMMARY_LIMIT then from_chars flat
      else from_chars (take (SUMMARY_LIMIT - 1) flat @ [0x2026]))"

definition terminal_safe :: "string \<Rightarrow> string" where
  "terminal_safe v =
     foldl (\<lambda>safe c. if breaks_line c then safe @ escape_default c else safe @ utf8_encode c) [] (chars v)"

definition render_remaining :: "u64 \<Rightarrow> string" where
  "render_remaining n =
     terminal_safe (if n = 0 then ''due now'' else format_eta n @ '' remaining'')"

text \<open>Padding counts characters.\<close>

definition pad_left :: "nat \<Rightarrow> string \<Rightarrow> string" where
  "pad_left n s = replicate (n - length (chars s)) (CHR '' '') @ s"

definition pad_right :: "nat \<Rightarrow> string \<Rightarrow> string" where
  "pad_right n s = s @ replicate (n - length (chars s)) (CHR '' '')"

definition em_dash :: string where
  "em_dash = utf8_encode 0x2014"

definition slug_text :: "string \<Rightarrow> string \<Rightarrow> u64 \<Rightarrow> string" where
  "slug_text own rep n = terminal_safe own @ ''/'' @ terminal_safe rep @ ''#'' @ show_nat n"

definition render_history :: "history_entry \<Rightarrow> u64 \<Rightarrow> string" where
  "render_history entry now =
     (let age = format_age (now - he_posted_at entry);
          status = (if he_success entry then ''ok'' else ''FAIL'');
          short = from_chars (take 8 (chars (he_token_hash entry)));
          hash = (if short = [] then ''--------'' else terminal_safe short);
          line = terminal_safe (he_id entry) @ ''  '' @ pad_left 11 age @ ''  '' @ pad_right 4 status
                   @ ''  '' @ hash @ ''  ''
                   @ slug_text (he_owner entry) (he_repo entry) (he_pr_number entry) @ ''  ''
                   @ one_line_summary (he_body entry)
      in case he_error entry of
           None \<Rightarrow> line
         | Some e \<Rightarrow> line @ '' '' @ em_dash @ '' '' @ one_line_summary e)"

definition render_put :: "pending_entry \<Rightarrow> string" where
  "render_put entry =
     ''Queued '' @ terminal_safe (pe_id entry) @ '' for ''
       @ slug_text (pe_owner entry) (pe_repo entry) (pe_pr_number entry)
       @ '' '' @ em_dash @ '' posts in ~'' @ format_eta (eta_seconds entry)"

definition render_entry :: "pending_entry \<Rightarrow> string" where
  "render_entry entry =
     terminal_safe (pe_id entry) @ ''  '' @ pad_left 7 (format_eta (eta_seconds entry)) @ ''  ''
       @ slug_text (pe_owner entry) (pe_repo entry) (pe_pr_number entry) @ ''  ''
       @ one_line_summary (pe_body entry)"

end
