(* ===== verification/Client.thy ===== *)
theory Client
  imports Output Transport Filesystem
begin

text \<open>
  The command-line client (\<open>crates/comenq/src/lib.rs\<close>, \<open>client.rs\<close>, \<open>client/await_stream.rs\<close>):
  parsing of repository slugs and await identifiers, the request a command stands for, one
  exchange with the daemon, paging through the history, rendering, and the await stream. The
  daemon's side of a connection is a parameter; the output is a writer whose writes may fail.
\<close>

section \<open>Arguments\<close>

record repo_slug =
  slug_owner :: string
  slug_repo :: string

datatype repo_slug_parse_error = MissingSlash | EmptyOwner | EmptyRepo | ExtraSlashes

definition slash :: char where
  "slash = CHR ''/''"

definition slug_from_str :: "string \<Rightarrow> repo_slug_parse_error + repo_slug" where
  "slug_from_str txt =
     (let s = str_trim txt in
      case position (\<lambda>c. c = slash) s of
        None \<Rightarrow> Inl MissingSlash
      | Some i \<Rightarrow>
          let own = take i s; rep = drop (Suc i) s in
          if own = [] then Inl EmptyOwner
          else if rep = [] then Inl EmptyRepo
          else if slash \<in> set rep then Inl ExtraSlashes
          else Inr \<lparr>slug_owner = own, slug_repo = rep\<rparr>)"

definition slug_display :: "repo_slug \<Rightarrow> string" where
  "slug_display r = slug_owner r @ [slash] @ slug_repo r"

definition to_ascii_lowercase :: "string \<Rightarrow> string" where
  "to_ascii_lowercase =
     map (\<lambda>c. if 65 \<le> byte c \<and> byte c \<le> 90 then char_of (byte c + 32) else c)"

definition parse_await_id :: "string \<Rightarrow> string + string" where
  "parse_await_id i =
     (if length i = 8 \<and> list_all is_ascii_hexdigit i then Inr (to_ascii_lowercase i)
      else Inl ''identifier must contain exactly eight hexadecimal characters'')"

datatype command =
    PutCmd repo_slug u64 string bool
  | ListCmd
  | BumpCmd string
  | BustCmd string
  | DelCmd string
  | AwaitCmd string
  | HistCmd "usize option"

fun to_request :: "command \<Rightarrow> request" where
  "to_request (PutCmd slug n txt now) =
     Put \<lparr>owner = slug_owner slug, repo = slug_repo slug, pr_number = n, body = txt\<rparr> now"
| "to_request ListCmd = ListReq"
| "to_request (AwaitCmd i) = Await i"
| "to_request (BumpCmd i) = Bump i"
| "to_request (BustCmd i) = Bust i"
| "to_request (DelCmd i) = Del i"
| "to_request (HistCmd limit) = Hist limit None"

record client_args =
  socket :: "string option"
  command_of :: command

definition args_socket_candidates :: "env \<Rightarrow> client_args \<Rightarrow> string list" where
  "args_socket_candidates env args =
     (case socket args of None \<Rightarrow> socket_candidates env | Some explicit \<Rightarrow> [explicit])"

section \<open>Errors and output\<close>

datatype client_error =
    Connect io_error
  | Serialize string
  | RequestTooLarge usize usize
  | WriteError io_error
  | ShutdownError io_error
  | ReadError io_error
  | ReplyTooLarge
  | ConnectionLost
  | AwaitRejected string
  | NoInitialReply
  | ReplyTimeout
  | Daemon string
  | UnexpectedResponse
  | OutputError io_error

text \<open>A writer: the lines written so far, and what its next writes do. An exhausted script lets
  every further write succeed.\<close>

record writer =
  written :: "string list"
  failures :: "io_error option list"

definition write_line :: "string \<Rightarrow> writer \<Rightarrow> (client_error + bool) \<times> writer" where
  "write_line l out =
     (case failures out of
        Some e # rest \<Rightarrow>
          (if kind_of e = BrokenPipe then Inr False else Inl (OutputError e), out\<lparr>failures := rest\<rparr>)
      | None # rest \<Rightarrow> (Inr True, out\<lparr>written := written out @ [l], failures := rest\<rparr>)
      | [] \<Rightarrow> (Inr True, out\<lparr>written := written out @ [l]\<rparr>))"

section \<open>One exchange\<close>

text \<open>\<open>connect_first\<close>: \<open>connect\<close> tells what connecting to a path gives.\<close>

fun connect_loop :: "(string \<Rightarrow> io_error + 'conn) \<Rightarrow> string list \<Rightarrow> io_error option \<Rightarrow> client_error + 'conn" where
  "connect_loop connect [] last_error =
     Inl (Connect (case last_error of
            Some e \<Rightarrow> e
          | None \<Rightarrow> IoError NotFound ''no socket candidates to try''))"
| "connect_loop connect (candidate # rest) last_error =
     (case connect candidate of
        Inr stream \<Rightarrow> Inr stream
      | Inl e \<Rightarrow> connect_loop connect rest (Some e))"

definition connect_first :: "(string \<Rightarrow> io_error + 'conn) \<Rightarrow> string list \<Rightarrow> client_error + 'conn" where
  "connect_first connect candidates = connect_loop connect candidates None"

text \<open>What a connected daemon does with a payload: fail the write or the shutdown, fail while it
  is read, deliver bytes, or stay silent beyond the deadline.\<close>

datatype exchange =
    WriteFails io_error
  | ShutdownFails io_error
  | ReadFails io_error
  | Replies string
  | Silent

definition CLIENT_REPLY_TIMEOUT_SECS :: u64 where
  [limits]: "CLIENT_REPLY_TIMEOUT_SECS = 5"

definition transact ::
  "wire \<Rightarrow> (string \<Rightarrow> io_error + (string \<Rightarrow> exchange)) \<Rightarrow> string list \<Rightarrow> request \<Rightarrow> client_error + response" where
  "transact W connect candidates req =
     (case request_to_vec W req of
        Inl e \<Rightarrow> Inl (Serialize e)
      | Inr payload \<Rightarrow>
          if length payload > MAX_REQUEST_BYTES
          then Inl (RequestTooLarge (length payload) MAX_REQUEST_BYTES)
          else
            (case connect_first connect candidates of
               Inl e \<Rightarrow> Inl e
             | Inr stream \<Rightarrow>
                 (case stream payload of
                    WriteFails e \<Rightarrow> Inl (WriteError e)
                  | ShutdownFails e \<Rightarrow> Inl (ShutdownError e)
                  | ReadFails e \<Rightarrow> Inl (ReadError e)
                  | Silent \<Rightarrow> Inl ReplyTimeout
                  | Replies bs \<Rightarrow>
                      let reply = take (MAX_RESPONSE_BYTES + 1) bs in
                      if length reply > MAX_RESPONSE_BYTES then Inl ReplyTooLarge
                      else map_err Serialize (response_from_slice W reply))))"

section \<open>Rendering replies\<close>

fun render_history_entries :: "history_entry list \<Rightarrow> u64 \<Rightarrow> writer \<Rightarrow> (client_error + bool) \<times> writer" where
  "render_history_entries [] now out = (Inr True, out)"
| "render_history_entries (r # rs) now out =
     (case write_line (render_history r now) out of
        (Inl e, out') \<Rightarrow> (Inl e, out')
      | (Inr False, out') \<Rightarrow> (Inr False, out')
      | (Inr True, out') \<Rightarrow> render_history_entries rs now out')"

definition render_history_reply :: "history_entry list \<Rightarrow> u64 \<Rightarrow> writer \<Rightarrow> (client_error + bool) \<times> writer" where
  "render_history_reply hs now out =
     (if hs = [] then write_line ''No posting history recorded.'' out
      else render_history_entries hs now out)"

fun list_lines :: "pending_entry list \<Rightarrow> writer \<Rightarrow> (client_error + unit) \<times> writer" where
  "list_lines [] out = (Inr (), out)"
| "list_lines (e # es) out =
     (case write_line (render_entry e) out of
        (Inl err', out') \<Rightarrow> (Inl err', out')
      | (Inr False, out') \<Rightarrow> (Inr (), out')
      | (Inr True, out') \<Rightarrow> list_lines es out')"

definition render_list_reply :: "pending_entry list \<Rightarrow> writer \<Rightarrow> (client_error + unit) \<times> writer" where
  "render_list_reply es out =
     (if es = [] then
        (case write_line ''No comments queued.'' out of (r, out') \<Rightarrow> (map_ok (\<lambda>_. ()) r, out'))
      else list_lines es out)"

definition write_ignoring_pipe :: "string \<Rightarrow> writer \<Rightarrow> (client_error + unit) \<times> writer" where
  "write_ignoring_pipe l out = (case write_line l out of (r, out') \<Rightarrow> (map_ok (\<lambda>_. ()) r, out'))"

definition render_response ::
  "command \<Rightarrow> pending_entry option \<Rightarrow> pending_entry list option \<Rightarrow> history_entry list option \<Rightarrow> u64
     \<Rightarrow> writer \<Rightarrow> (client_error + unit) \<times> writer" where
  "render_response cmd entry es hs now out =
     (case (cmd, entry, es, hs) of
        (PutCmd _ _ _ _, Some e, None, None) \<Rightarrow> write_ignoring_pipe (render_put e) out
      | (ListCmd, None, Some es', None) \<Rightarrow> render_list_reply es' out
      | (BumpCmd i, None, None, None) \<Rightarrow>
          write_ignoring_pipe (''Moved '' @ i @ '' to the head of the queue.'') out
      | (BustCmd i, None, None, None) \<Rightarrow>
          write_ignoring_pipe (''Moved '' @ i @ '' to the tail of the queue.'') out
      | (DelCmd i, None, None, None) \<Rightarrow>
          write_ignoring_pipe (''Removed '' @ i @ '' from the queue.'') out
      | (HistCmd _, None, None, Some hs') \<Rightarrow>
          (case render_history_reply hs' now out of (r, out') \<Rightarrow> (map_ok (\<lambda>_. ()) r, out'))
      | _ \<Rightarrow> (Inl UnexpectedResponse, out))"

definition render_reply :: "command \<Rightarrow> response \<Rightarrow> u64 \<Rightarrow> writer \<Rightarrow> (client_error + unit) \<times> writer" where
  "render_reply cmd response now out =
     (case response of
        RespError message \<Rightarrow> (Inl (Daemon message), out)
      | RespOk entry es hs _ \<Rightarrow> render_response cmd entry es hs now out)"

section \<open>History pages\<close>

text \<open>
  One turn of the loop of \<open>run_history_pages\<close>, given the daemon's answer: the left result ends the
  run, the right one is the cursor, the flag and the writer of the next turn.
\<close>

definition history_page_turn ::
  "client_error + response \<Rightarrow> u64 \<Rightarrow> history_cursor option \<Rightarrow> bool \<Rightarrow> writer
     \<Rightarrow> ((client_error + unit) \<times> writer) + (history_cursor option \<times> bool \<times> writer)" where
  "history_page_turn answer now cursor found_records out =
     (case answer of
        Inl e \<Rightarrow> Inl (Inl e, out)
      | Inr (RespError message) \<Rightarrow> Inl (Inl (Daemon message), out)
      | Inr (RespOk None None (Some hs) next_cursor) \<Rightarrow>
          (case (if hs = [] then (Inr True, out) else render_history_reply hs now out) of
             (Inl e, out') \<Rightarrow> Inl (Inl e, out')
           | (Inr False, out') \<Rightarrow> Inl (Inr (), out')
           | (Inr True, out') \<Rightarrow>
               let found = (found_records \<or> hs \<noteq> []) in
               if cursor \<noteq> None \<and> next_cursor = cursor then Inl (Inl UnexpectedResponse, out')
               else if next_cursor = None then
                 (if found then Inl (Inr (), out')
                  else (case render_history_reply [] now out' of
                          (r, out'') \<Rightarrow> Inl (map_ok (\<lambda>_. ()) r, out'')))
               else Inr (next_cursor, found, out'))
      | Inr _ \<Rightarrow> Inl (Inl UnexpectedResponse, out))"

text \<open>
  \<open>run_history_pages\<close> follows the cursors a daemon returns; \<open>daemon n\<close> is its answer to the \<open>n\<close>-th
  request. \<^term>\<open>None\<close> is a run that never ends.
\<close>

partial_function (option) history_pages_loop ::
  "(nat \<Rightarrow> request \<Rightarrow> client_error + response) \<Rightarrow> usize option \<Rightarrow> u64 \<Rightarrow> nat \<Rightarrow> history_cursor option
     \<Rightarrow> bool \<Rightarrow> writer \<Rightarrow> ((client_error + unit) \<times> writer) option" where
  "history_pages_loop daemon limit now n cursor found_records out =
     (case history_page_turn (daemon n (Hist (if cursor = None then limit else None) cursor))
             now cursor found_records out of
        Inl res \<Rightarrow> Some res
      | Inr (cursor', found', out') \<Rightarrow>
          history_pages_loop daemon limit now (Suc n) cursor' found' out')"

definition run_history_pages ::
  "(nat \<Rightarrow> request \<Rightarrow> client_error + response) \<Rightarrow> usize option \<Rightarrow> u64 \<Rightarrow> writer
     \<Rightarrow> ((client_error + unit) \<times> writer) option" where
  "run_history_pages daemon limit now out = history_pages_loop daemon limit now 0 None False out"

section \<open>The await stream\<close>

text \<open>
  The client reads frames from the bytes the daemon sends; the list gives, for each read, the
  bytes up to the next newline or the end, or a failure. Times are seconds of the client's
  monotonic clock.
\<close>

datatype frame_outcome = Frame await_event | Ended string

datatype frame_input = FrameBytes string | FrameReadFails io_error | FrameLate

definition read_frame :: "wire \<Rightarrow> frame_input \<Rightarrow> client_error + frame_outcome" where
  "read_frame W inp =
     (case inp of
        FrameReadFails e \<Rightarrow> Inl (ReadError e)
      | FrameLate \<Rightarrow> Inl ReplyTimeout
      | FrameBytes received \<Rightarrow>
          let bs = take (MAX_AWAIT_FRAME_BYTES + 1) received in
          if length bs > MAX_AWAIT_FRAME_BYTES then Inl ReplyTooLarge
          else if bs = [] \<or> last bs \<noteq> newline then Inr (Ended bs)
          else (case event_from_slice W bs of
                  Inl _ \<Rightarrow> Inl UnexpectedResponse
                | Inr event \<Rightarrow> Inr (Frame event)))"

definition classify_initial_end :: "wire \<Rightarrow> string \<Rightarrow> client_error" where
  "classify_initial_end W bs =
     (case response_from_slice W bs of
        Inr (RespError message) \<Rightarrow> AwaitRejected message
      | Inr (RespOk _ _ _ _) \<Rightarrow> UnexpectedResponse
      | Inl _ \<Rightarrow> NoInitialReply)"

record countdown =
  cd_eta :: u64
  cd_arrived :: u64
  cd_next_report :: u64

definition cd_remaining :: "u64 \<Rightarrow> countdown \<Rightarrow> u64" where
  "cd_remaining now cd = cd_eta cd - (now - cd_arrived cd)"

definition cd_report :: "u64 \<Rightarrow> countdown \<Rightarrow> writer \<Rightarrow> (client_error + countdown) \<times> writer" where
  "cd_report now cd errs =
     (let remaining = cd_remaining now cd in
      case write_line (render_remaining remaining) errs of
        (Inl e, errs') \<Rightarrow> (Inl e, errs')
      | (Inr _, errs') \<Rightarrow> (Inr (cd\<lparr>cd_next_report := now + report_interval remaining\<rparr>), errs'))"

definition cd_observe ::
  "u64 \<Rightarrow> countdown option \<Rightarrow> u64 \<Rightarrow> writer \<Rightarrow> (client_error + countdown) \<times> writer" where
  "cd_observe now cd eta errs =
     (case cd of
        Some current \<Rightarrow>
          (Inr (current\<lparr>cd_eta := eta, cd_arrived := now,
                         cd_next_report := min (cd_next_report current) (now + report_interval eta)\<rparr>), errs)
      | None \<Rightarrow>
          cd_report now \<lparr>cd_eta = eta, cd_arrived = now, cd_next_report = now\<rparr> errs)"

lemma report_interval_pos: "0 < report_interval n"
  by (simp add: report_interval_def Let_def)

lemma cd_report_advances:
  "cd_report now cd errs = (Inr cd', errs') \<Longrightarrow> now < cd_next_report cd'"
  by (auto simp: cd_report_def Let_def report_interval_pos split: prod.splits sum.splits)

text \<open>The ticks of \<open>next_event\<close> before the frame arrives: a report at every due time.\<close>

function ticks :: "u64 \<Rightarrow> countdown \<Rightarrow> writer \<Rightarrow> (client_error + countdown) \<times> writer" where
  "ticks arrival cd errs =
     (if cd_next_report cd < arrival then
        (case cd_report (cd_next_report cd) cd errs of
           (Inl e, errs') \<Rightarrow> (Inl e, errs')
         | (Inr cd', errs') \<Rightarrow> ticks arrival cd' errs')
      else (Inr cd, errs))"
  by pat_completeness auto

termination
proof (relation "measure (\<lambda>(arrival, cd, errs). arrival - cd_next_report cd)")
  fix arrival :: nat and cd errs x errs' cd'
  assume "cd_next_report cd < arrival" "(x, errs') = cd_report (cd_next_report cd) cd errs" "x = Inr cd'"
  then show "((arrival, cd', errs'), arrival, cd, errs)
      \<in> measure (\<lambda>(arrival, cd, errs). arrival - cd_next_report cd)"
    using cd_report_advances [of "cd_next_report cd" cd errs cd' errs'] by auto
qed simp

declare ticks.simps [simp del]

text \<open>\<open>receive\<close> over the frames and their arrival times. \<^term>\<open>None\<close> is a stream still open.\<close>

fun receive ::
  "wire \<Rightarrow> (u64 \<times> frame_input) list \<Rightarrow> countdown option \<Rightarrow> writer \<Rightarrow> writer
     \<Rightarrow> (client_error + unit) option \<times> writer \<times> writer" where
  "receive W [] cd out errs = (None, out, errs)"
| "receive W ((now, inp) # rest) cd out errs =
     (case (case cd of None \<Rightarrow> (Inr None, errs)
            | Some c \<Rightarrow> (case ticks now c errs of (r, errs') \<Rightarrow> (map_ok Some r, errs'))) of
        (Inl e, errs1) \<Rightarrow> (Some (Inl e), out, errs1)
      | (Inr cd1, errs1) \<Rightarrow>
          (case read_frame W inp of
             Inl e \<Rightarrow> (Some (Inl e), out, errs1)
           | Inr (Ended bs) \<Rightarrow>
               (Some (Inl (if cd1 = None then classify_initial_end W bs else ConnectionLost)), out, errs1)
           | Inr (Frame (PostedEvent url)) \<Rightarrow>
               (case write_line (terminal_safe url) out of
                  (r, out') \<Rightarrow> (Some (map_ok (\<lambda>_. ()) r), out', errs1))
           | Inr (Frame (ErrorEvent message)) \<Rightarrow> (Some (Inl (Daemon message)), out, errs1)
           | Inr (Frame (Waiting eta)) \<Rightarrow>
               (case cd_observe now cd1 eta errs1 of
                  (Inl e, errs2) \<Rightarrow> (Some (Inl e), out, errs2)
                | (Inr cd2, errs2) \<Rightarrow> receive W rest (Some cd2) out errs2)))"

text \<open>What a connected daemon does with an await request: fail the write or the shutdown, not take it
  before the deadline, or send frames.\<close>

datatype await_exchange =
    AwaitWriteFails io_error
  | AwaitShutdownFails io_error
  | AwaitSilent
  | AwaitFrames "(u64 \<times> frame_input) list"

definition await_with_writers ::
  "wire \<Rightarrow> (string \<Rightarrow> io_error + (string \<Rightarrow> await_exchange)) \<Rightarrow> string list \<Rightarrow> string \<Rightarrow> writer \<Rightarrow> writer
     \<Rightarrow> (client_error + unit) option \<times> writer \<times> writer" where
  "await_with_writers W connect candidates i out errs =
     (case request_to_vec W (Await i) of
        Inl e \<Rightarrow> (Some (Inl (Serialize e)), out, errs)
      | Inr bs \<Rightarrow>
          if length bs > MAX_REQUEST_BYTES
          then (Some (Inl (RequestTooLarge (length bs) MAX_REQUEST_BYTES)), out, errs)
          else
            (case connect_first connect candidates of
               Inl e \<Rightarrow> (Some (Inl e), out, errs)
             | Inr stream \<Rightarrow>
                 (case stream bs of
                    AwaitWriteFails e \<Rightarrow> (Some (Inl (WriteError e)), out, errs)
                  | AwaitShutdownFails e \<Rightarrow> (Some (Inl (ShutdownError e)), out, errs)
                  | AwaitSilent \<Rightarrow> (Some (Inl ReplyTimeout), out, errs)
                  | AwaitFrames frames \<Rightarrow> receive W frames None out errs)))"

section \<open>The command\<close>

text \<open>
  \<open>run\<close>: one-shot commands are one exchange, \<open>hist\<close> pages and \<open>await\<close> streams. \<open>connect n\<close> is what
  connecting gives the \<open>n\<close>-th time, \<open>streaming\<close> the same for the await stream; \<open>now\<close> is the wall clock.
\<close>

definition client_run ::
  "wire \<Rightarrow> (nat \<Rightarrow> string \<Rightarrow> io_error + (string \<Rightarrow> exchange)) \<Rightarrow> (string \<Rightarrow> io_error + (string \<Rightarrow> await_exchange))
     \<Rightarrow> env \<Rightarrow> client_args \<Rightarrow> u64 \<Rightarrow> writer \<Rightarrow> writer \<Rightarrow> (client_error + unit) option \<times> writer \<times> writer" where
  "client_run W connect streaming env args now out errs =
     (let candidates = args_socket_candidates env args in
      case command_of args of
        AwaitCmd i \<Rightarrow> await_with_writers W streaming candidates i out errs
      | HistCmd limit \<Rightarrow>
          (case run_history_pages (\<lambda>n. transact W (connect n) candidates) limit now out of
             None \<Rightarrow> (None, out, errs)
           | Some (r, out') \<Rightarrow> (Some r, out', errs))
      | cmd \<Rightarrow>
          (case transact W (connect 0) candidates (to_request cmd) of
             Inl e \<Rightarrow> (Some (Inl e), out, errs)
           | Inr response \<Rightarrow>
               (case render_reply cmd response now out of (r, out') \<Rightarrow> (Some r, out', errs))))"

end
