(* ===== verification/Client_Props.thy ===== *)
theory Client_Props
  imports Client
begin

text \<open>
  Properties of the command-line client: which slugs it accepts, which socket it talks to, the
  bound on what it sends and reads, and how an await stream ends.
\<close>

section \<open>Slugs\<close>

lemma position_append_hit: "\<forall>x \<in> set xs. \<not> P x \<Longrightarrow> P y \<Longrightarrow> position P (xs @ y # ys) = Some (length xs)"
  by (induction xs) auto

lemma position_split:
  assumes "position P xs = Some i"
  shows "xs = take i xs @ xs ! i # drop (Suc i) xs" and "P (xs ! i)" and "\<forall>x \<in> set (take i xs). \<not> P x"
proof -
  note p = position_SomeD [OF assms]
  show "xs = take i xs @ xs ! i # drop (Suc i) xs" using p(1) by (rule id_take_nth_drop)
  show "P (xs ! i)" by (rule p(2))
  show "\<forall>x \<in> set (take i xs). \<not> P x" unfolding p(3) [symmetric] by (auto dest: set_takeWhileD)
qed

text \<open>C38. A text parses as a repository slug exactly when, trimmed, it is the display of that slug
  and both parts are non-empty and free of slashes: parsing and printing are inverse.\<close>

theorem slug_round_trip:
  "slug_from_str txt = Inr r \<longleftrightarrow>
     str_trim txt = slug_display r \<and> slug_owner r \<noteq> [] \<and> slug_repo r \<noteq> []
     \<and> slash \<notin> set (slug_owner r) \<and> slash \<notin> set (slug_repo r)"
proof
  assume *: "slug_from_str txt = Inr r"
  then obtain i where i: "position (\<lambda>c. c = slash) (str_trim txt) = Some i"
    by (auto simp: slug_from_str_def Let_def split: option.splits)
  then have r: "slug_owner r = take i (str_trim txt)" "slug_repo r = drop (Suc i) (str_trim txt)"
      "slug_owner r \<noteq> []" "slug_repo r \<noteq> []" "slash \<notin> set (slug_repo r)"
    using * by (auto simp: slug_from_str_def Let_def split: if_splits)
  note p = position_split [OF i]
  have "str_trim txt = slug_display r" using p(1,2) r by (simp add: slug_display_def)
  moreover have "slash \<notin> set (slug_owner r)" using p(3) r by auto
  ultimately show "str_trim txt = slug_display r \<and> slug_owner r \<noteq> [] \<and> slug_repo r \<noteq> []
     \<and> slash \<notin> set (slug_owner r) \<and> slash \<notin> set (slug_repo r)" using r by blast
next
  assume *: "str_trim txt = slug_display r \<and> slug_owner r \<noteq> [] \<and> slug_repo r \<noteq> []
     \<and> slash \<notin> set (slug_owner r) \<and> slash \<notin> set (slug_repo r)"
  then have "position (\<lambda>c. c = slash) (str_trim txt) = Some (length (slug_owner r))"
    using position_append_hit [of "slug_owner r" "\<lambda>c. c = slash" slash "slug_repo r"]
    by (auto simp: slug_display_def)
  then show "slug_from_str txt = Inr r"
    using * by (cases r) (simp add: slug_from_str_def slug_display_def Let_def)
qed

section \<open>Connecting\<close>

text \<open>C40. The client connects to the first candidate socket that accepts, and only when every
  candidate refuses does it fail, with the error of the last one tried.\<close>

theorem connect_first_accepting:
  "connect_first connect candidates =
     (case dropWhile (\<lambda>c. \<not> is_ok (connect c)) candidates of
        c # _ \<Rightarrow> Inr (projr (connect c))
      | [] \<Rightarrow> Inl (Connect (if candidates = [] then IoError NotFound ''no socket candidates to try''
                            else projl (connect (last candidates)))))"
proof -
  have "connect_loop connect cs e =
     (case dropWhile (\<lambda>c. \<not> is_ok (connect c)) cs of
        c # _ \<Rightarrow> Inr (projr (connect c))
      | [] \<Rightarrow> Inl (Connect (if cs = [] then (case e of Some e \<Rightarrow> e
                              | None \<Rightarrow> IoError NotFound ''no socket candidates to try'')
                            else projl (connect (last cs)))))" for cs e
    by (induction connect cs e rule: connect_loop.induct)
      (auto split: sum.splits list.splits simp del: dropWhile_eq_Nil_conv)
  then show ?thesis by (simp add: connect_first_def)
qed

text \<open>The client tries at most two sockets, both absolute when the runtime directory names one:
  first the one the daemon binds by default in the same environment, and the system-wide one is
  among them.\<close>

lemma socket_candidates_policy:
  "hd (socket_candidates env) = default_socket_path env
   \<and> socket_candidates env \<noteq> [] \<and> length (socket_candidates env) \<le> 2
   \<and> list_ex (\<lambda>p. same_path p DEFAULT_SOCKET_PATH) (socket_candidates env)
   \<and> list_all is_absolute (socket_candidates env)"
proof -
  have "is_absolute DEFAULT_SOCKET_PATH" by (simp add: is_absolute_def DEFAULT_SOCKET_PATH_def)
  then have "list_all is_absolute (socket_candidates env)"
    by (auto simp: socket_candidates_def user_socket_path_def Let_def path_join_absolute
        split: option.splits if_splits)
  then show ?thesis using default_socket_path_candidate candidates_bounds by blast
qed

section \<open>The await stream\<close>

fun is_waiting :: "client_error + frame_outcome \<Rightarrow> bool" where
  "is_waiting (Inr (Frame (Waiting _))) = True"
| "is_waiting _ = False"

lemma write_line_written:
  "write_line l out = (r, out') \<Longrightarrow> written out' = written out \<or> written out' = written out @ [l]"
  by (auto simp: write_line_def split: list.splits option.splits if_splits)

lemma write_line_error: "write_line l out = (Inl e, out') \<Longrightarrow> \<exists>i. e = OutputError i"
  by (auto simp: write_line_def split: list.splits option.splits if_splits)

text \<open>\<open>comenq await\<close> succeeds only on a posted frame: every frame before it was a waiting
  heartbeat, and the only line written to the output is the escaped URL of that frame.\<close>

lemma receive_success:
  assumes "receive W frames cd out errs = (Some (Inr ()), out', errs')"
  shows "\<exists>pre now inp url rest. frames = pre @ (now, inp) # rest
     \<and> list_all (\<lambda>(_, i). is_waiting (read_frame W i)) pre
     \<and> read_frame W inp = Inr (Frame (PostedEvent url))
     \<and> written out' \<in> {written out, written out @ [terminal_safe url]}"
  using assms
proof (induction frames arbitrary: cd errs)
  case (Cons f frames)
  obtain now inp where f: "f = (now, inp)" by fastforce
  define ticked where "ticked = (case cd of None \<Rightarrow> (Inr None, errs)
            | Some c \<Rightarrow> (case ticks now c errs of (r, errs') \<Rightarrow> (map_ok Some r, errs')))"
  obtain cd1 errs1 where t: "ticked = (Inr cd1, errs1)"
    using Cons.prems by (cases ticked; cases "fst ticked") (auto simp: f ticked_def [symmetric])
  obtain o1 where o1: "read_frame W inp = Inr (Frame o1)"
    using Cons.prems t by (auto simp: f ticked_def [symmetric] split: sum.splits frame_outcome.splits)
  show ?case
  proof (cases o1)
    case (Waiting eta)
    obtain cd2 errs2 where o2: "cd_observe now cd1 eta errs1 = (Inr cd2, errs2)"
      using Cons.prems t o1 Waiting
      by (auto simp: f ticked_def [symmetric] split: sum.splits prod.splits)
    then have "receive W frames (Some cd2) out errs2 = (Some (Inr ()), out', errs')"
      using Cons.prems t o1 Waiting by (simp add: f ticked_def [symmetric])
    from Cons.IH [OF this] obtain pre now' inp' url rest where
      IH: "frames = pre @ (now', inp') # rest" "list_all (\<lambda>(_, i). is_waiting (read_frame W i)) pre"
        "read_frame W inp' = Inr (Frame (PostedEvent url))"
        "written out' \<in> {written out, written out @ [terminal_safe url]}" by blast
    then show ?thesis using o1 Waiting f
      by (intro exI [of _ "f # pre"] exI [of _ now'] exI [of _ inp'] exI [of _ url] exI [of _ rest]) simp
  next
    case (PostedEvent url)
    then obtain r where "write_line (terminal_safe url) out = (r, out')"
      using Cons.prems t o1 by (auto simp: f ticked_def [symmetric] split: prod.splits)
    then have "written out' \<in> {written out, written out @ [terminal_safe url]}"
      using write_line_written by blast
    then show ?thesis using o1 PostedEvent f
      by (intro exI [of _ "[]"] exI [of _ now] exI [of _ inp] exI [of _ url] exI [of _ frames]) simp
  next
    case (ErrorEvent m)
    then show ?thesis using Cons.prems t o1 by (simp add: f ticked_def [symmetric])
  qed
qed simp

end
