(* ===== verification/Paging_Props.thy ===== *)
theory Paging_Props
  imports History_Log Listener_Props Client_Props
begin

text \<open>
  \<open>comenq hist\<close> against \<open>comenqd\<close>, from end to end: the client's requests, the daemon's pages and
  replies, and the cursors between them deliver every record of the log once, in order, and the
  exchange ends.
\<close>

section \<open>Positions\<close>

text \<open>The position behind a record leads to the records after it.\<close>

lemma position_after_rest:
  "off \<le> e \<Longrightarrow> e \<le> length bs \<Longrightarrow> 0 < k \<Longrightarrow> k < length (history_from X bs off e) \<Longrightarrow>
    (let q = position_after (history_from X bs off e ! (k - 1)) in
     valid_position bs q \<and> hp_end_offset q = e \<and> off < hp_offset q
     \<and> history_from X bs (hp_offset q) e = drop k (history_from X bs off e))"
proof (induction "e - off" arbitrary: off k rule: less_induct)
  case less
  have lt: "off < e" using less.prems by (cases "off < e") auto
  define l where "l = first_line (snapshot_rest bs off e)"
  define c where "c = off + length l"
  have step: "history_from X bs off e =
    (case decode_line X l of None \<Rightarrow> [] | Some r \<Rightarrow> [\<lparr>record_of = r, position_after = \<lparr>hp_offset = c, hp_end_offset = e\<rparr>\<rparr>])
    @ history_from X bs c e"
    unfolding l_def c_def by (rule history_from_step [OF lt less.prems(2)])
  have ne: "snapshot_rest bs off e \<noteq> []" using length_snapshot_rest [OF less.prems(2), of off] lt by auto
  have c: "off < c" "c \<le> e" "c = e \<or> on_boundary bs c"
    using first_line_snapshot_le [OF less.prems(1,2)] first_line_boundary [OF lt less.prems(2)] length_first_line_pos [OF ne]
    by (auto simp: c_def l_def)
  have closer: "e - c < e - off" using c(1) lt by linarith
  note IH = less.hyps [OF closer c(2) less.prems(2), unfolded Let_def]
  show ?case
  proof (cases "decode_line X l")
    case None
    then show ?thesis using IH [of k] step less.prems(3,4) c(1) by (auto simp: Let_def)
  next
    case (Some r)
    show ?thesis
    proof (cases "k = 1")
      case True
      have "history_from X bs c e \<noteq> []" using less.prems(4) step Some True by auto
      then have "c < e" using c(2) by (cases "c = e") auto
      then show ?thesis using step Some True c less.prems(2) by (simp add: valid_position_def)
    next
      case False
      define j where "j = k - 2"
      have j: "k = Suc (Suc j)" using False less.prems(3) by (simp add: j_def)
      then show ?thesis using IH [of "Suc j"] step Some less.prems(4) c(1) by (auto simp: Let_def)
    qed
  qed
qed

lemma read_records_last:
  "read_records X cur e n recs w = (Inr (recs', cur'), w') \<Longrightarrow> e \<le> length (bytes_at w history_path) \<Longrightarrow> cur' < e \<Longrightarrow>
    length recs < n \<or> (recs \<noteq> [] \<and> position_after (last recs) = \<lparr>hp_offset = cur, hp_end_offset = e\<rparr>) \<Longrightarrow>
    recs' \<noteq> [] \<and> position_after (last recs') = \<lparr>hp_offset = cur', hp_end_offset = e\<rparr>"
proof (induction X cur e n recs w arbitrary: recs' cur' w' rule: read_records.induct)
  case (1 X cur e n recs w)
  show ?case
  proof (cases "cur < e \<and> length recs < n")
    case False
    then show ?thesis using "1.prems" unfolding read_records.simps [of X cur] by (auto split: if_splits)
  next
    case True
    obtain q w1 where q: "read_record X cur e w = (q, w1)" by fastforce
    with "1.prems"(1) True obtain item c where p: "q = Inr (item, c)"
      unfolding read_records.simps [of X cur] by (cases q) auto
    define recs1 where "recs1 = (case item of None \<Rightarrow> recs | Some r \<Rightarrow> recs @ [r])"
    have rest: "read_records X c e n recs1 w1 = (Inr (recs', cur'), w')"
      using "1.prems"(1) True q p unfolding read_records.simps [of X cur] by (simp add: recs1_def)
    have bs: "bytes_at w1 history_path = bytes_at w history_path" by (rule reads_only_frame(1) [OF read_record_reads q])
    note rr = read_record_result [OF q [unfolded p] conjunct1 [OF True] "1.prems"(2)]
    have "length recs1 < n \<or> (recs1 \<noteq> [] \<and> position_after (last recs1) = \<lparr>hp_offset = c, hp_end_offset = e\<rparr>)"
      using True rr by (auto simp: recs1_def split: option.splits)
    then show ?thesis
      using "1.IH" [OF True q [symmetric] p refl rest [unfolded recs1_def]] "1.prems"(2,3) bs by (simp add: recs1_def)
  qed
qed

section \<open>Pages\<close>

text \<open>A page of the records from \<open>off\<close> on: some of them, and where it goes on, behind its last record.\<close>

definition page_from :: "ext \<Rightarrow> string \<Rightarrow> nat \<Rightarrow> history_page \<Rightarrow> bool" where
  "page_from X bs off page \<longleftrightarrow> off \<le> length bs \<and>
     (let S = history_from X bs off (length bs) in
      (case next_pos page of
         None \<Rightarrow> records page = S
       | Some q \<Rightarrow> records page \<noteq> [] \<and> position_after (last (records page)) = q \<and> valid_position bs q
                  \<and> hp_end_offset q = length bs \<and> off < hp_offset q
                  \<and> S = records page @ history_from X bs (hp_offset q) (length bs)))"

lemma snapshot_page_from:
  assumes w: "quiet w" and bs: "bytes_at w history_path = bs"
    and pos: "case pos of None \<Rightarrow> off \<le> length bs | Some p \<Rightarrow> valid_position bs p \<and> off = hp_offset p \<and> hp_end_offset p = length bs"
    and n: "0 < n"
  shows "\<exists>page. read_snapshot_page X (length bs) pos off (length bs) n w = (Inr page, w) \<and> page_from X bs off page"
proof -
  have off: "off \<le> length bs" using pos by (auto simp: valid_position_def split: option.splits)
  obtain page where page: "read_snapshot_page X (length bs) pos off (length bs) n w = (Inr page, w)"
      "records page @ (case next_pos page of None \<Rightarrow> [] | Some q \<Rightarrow> history_from X bs (hp_offset q) (hp_end_offset q))
        = history_from X bs off (length bs)"
      "case next_pos page of None \<Rightarrow> True | Some q \<Rightarrow> valid_position bs q \<and> hp_end_offset q = length bs \<and> off < hp_offset q"
    using read_snapshot_page_quiet [OF w bs, where pos = pos and off = off and e = "length bs" and n = n and X = X] pos n
    by (fastforce split: option.splits)
  have "records page \<noteq> [] \<and> position_after (last (records page)) = q" if q: "next_pos page = Some q" for q
  proof -
    have v: "(case pos of Some p \<Rightarrow> validate_position p (length bs) | None \<Rightarrow> ok ()) w = (Inr (), w)"
      using validate_position_quiet [OF w] bs pos by (auto simp: run_simps split: option.splits)
    obtain recs cur where rr: "read_records X off (length bs) n [] w = (Inr (recs, cur), w)"
      using read_records_total [OF w off] bs by (metis order_refl prod.collapse)
    have "page = \<lparr>records = recs, next_pos = (if cur < length bs then Some \<lparr>hp_offset = cur, hp_end_offset = length bs\<rparr> else None)\<rparr>"
      using page(1) q v rr w unfolding read_snapshot_page_def by (auto simp: run_simps empty_page_def split: if_splits)
    then show ?thesis using read_records_last [OF rr] bs q n by (simp split: if_splits)
  qed
  then show ?thesis using page off by (intro exI [of _ page]) (auto simp: page_from_def Let_def split: option.splits)
qed

text \<open>The records a request without a cursor asks for.\<close>

definition wanted :: "usize option \<Rightarrow> 'a list \<Rightarrow> 'a list" where
  "wanted limit rs = (case limit of None \<Rightarrow> rs | Some k \<Rightarrow> drop (length rs - k) rs)"

lemma cursor_page:
  assumes "quiet w" "node_at w history_path = Some (Regular bs)" "valid_position bs p" "hp_end_offset p = length bs" "0 < n"
  shows "\<exists>page. read_page X (Some p) limit n w = (Inr page, w) \<and> page_from X bs (hp_offset p) page"
proof -
  have "bytes_at w history_path = bs" using assms(2) by (simp add: bytes_at_def)
  from snapshot_page_from [OF assms(1) this, where pos = "Some p" and off = "hp_offset p" and n = n and X = X]
  show ?thesis using assms by (auto simp: read_page_def page_offsets_def run_simps open_history_snapshot_quiet)
qed

lemma first_page:
  assumes w: "quiet w" "node_at w history_path = Some (Regular bs)" and same: "same_both_ways X bs" and n: "0 < n"
  shows "\<exists>off page. read_page X None limit n w = (Inr page, w) \<and> page_from X bs off page
    \<and> map record_of (history_from X bs off (length bs)) = wanted limit (log_records X bs)"
proof -
  have bs: "bytes_at w history_path = bs" using w(2) by (simp add: bytes_at_def)
  have all: "map record_of (history_from X bs 0 (length bs)) = log_records X bs" using history_from_records [of X bs 0] by simp
  have "\<exists>off \<le> length bs. page_offsets X (length bs) None limit w = (Inr (off, length bs), w)
      \<and> map record_of (history_from X bs off (length bs)) = wanted limit (log_records X bs)"
  proof (cases limit)
    case None
    then show ?thesis using w(1) all by (intro exI [of _ 0]) (simp add: page_offsets_def run_simps wanted_def)
  next
    case (Some k)
    show ?thesis
    proof (cases "k = 0")
      case True
      then show ?thesis using w(1) Some by (intro exI [of _ "length bs"]) (simp add: page_offsets_def run_simps wanted_def)
    next
      case False
      then obtain off where off: "recent_start X (length bs) k w = (Inr off, w)" "off \<le> length bs"
          "history_from X bs off (length bs) = drop (length (log_records X bs) - k) (history_from X bs 0 (length bs))"
        using recent_start_quiet [OF w(1) bs same, of k] by blast
      then have "map record_of (history_from X bs off (length bs)) = wanted limit (log_records X bs)"
        unfolding off(3) drop_map [symmetric] all by (simp add: wanted_def Some)
      then show ?thesis using off(1,2) w(1) Some False by (intro exI [of _ off]) (simp add: page_offsets_def run_simps)
    qed
  qed
  then obtain off where off: "off \<le> length bs" "page_offsets X (length bs) None limit w = (Inr (off, length bs), w)"
      "map record_of (history_from X bs off (length bs)) = wanted limit (log_records X bs)" by blast
  obtain page where "read_snapshot_page X (length bs) None off (length bs) n w = (Inr page, w)" "page_from X bs off page"
    using snapshot_page_from [OF w(1) bs, where pos = None and off = off and n = n and X = X] off(1) n by auto
  then show ?thesis using off w n open_history_snapshot_quiet [OF w]
    by (intro exI [of _ off] exI [of _ page]) (simp add: read_page_def run_simps)
qed

lemma positions_within:
  "off \<le> e \<Longrightarrow> e \<le> length bs \<Longrightarrow> i \<in> set (history_from X bs off e) \<Longrightarrow>
    hp_offset (position_after i) \<le> e \<and> hp_end_offset (position_after i) = e"
proof (induction "e - off" arbitrary: off rule: less_induct)
  case less
  have lt: "off < e" using less.prems by (cases "off < e") auto
  define c where "c = off + length (first_line (snapshot_rest bs off e))"
  have "snapshot_rest bs off e \<noteq> []" using length_snapshot_rest [OF less.prems(2), of off] lt by auto
  then have c: "off < c" "c \<le> e"
    using first_line_snapshot_le [OF less.prems(1,2)] length_first_line_pos by (auto simp: c_def)
  then have "e - c < e - off" using lt by linarith
  from less.hyps [OF this c(2) less.prems(2)] show ?case
    using history_from_step [OF lt less.prems(2), of X] less.prems(3) c(2)
    by (auto simp: c_def [symmetric] split: option.splits)
qed

section \<open>Replies\<close>

text \<open>What the exchange relies on of the encoder: entries and bare replies encode, and each record
  fits a reply of its own.\<close>

definition within :: "nat \<Rightarrow> history_cursor option \<Rightarrow> bool" where
  "within n c = (case c of None \<Rightarrow> True | Some cur \<Rightarrow> hc_offset cur \<le> n \<and> hc_end_offset cur \<le> n)"

definition history_encodes :: "wire \<Rightarrow> bool" where
  "history_encodes W \<longleftrightarrow> (\<forall>h. \<exists>v. history_entry_to_vec W h = Inr v) \<and> (\<forall>c. \<exists>v. response_to_vec W (response_history [] c) = Inr v)
     \<and> reply_fits W (response_history [] None)"

definition fits_alone :: "wire \<Rightarrow> nat \<Rightarrow> history_record \<Rightarrow> bool" where
  "fits_alone W n r \<longleftrightarrow> (\<forall>c. within n c \<longrightarrow> reply_fits W (response_history [history_entry_of r] c))"

lemma single_size:
  assumes "array_sizes W" "history_entry_to_vec W h = Inr v" "reply_fits W (response_history [h] c)"
    "history_response_size W (length v) c = Inr n"
  shows "n \<le> MAX_RESPONSE_BYTES"
proof -
  obtain v0 where v0: "response_to_vec W (response_history [] c) = Inr v0" "n = length v0 + length v"
    using assms(4) by (cases "response_to_vec W (response_history [] c)") (auto simp: history_response_size_def)
  have "map (history_entry_to_vec W) [h] = map Inr [v]" "items_size [v] = length v" using assms(2) by (simp_all add: items_size_def)
  then obtain u where "response_to_vec W (response_history [h] c) = Inr u" "length u = length v0 + length v"
    using assms(1) v0(1) unfolding array_sizes_def by metis
  then show ?thesis using assms(3) v0(2) by (auto simp: reply_fits_def)
qed

lemma history_loop_total:
  assumes W: "array_sizes W" "history_encodes W"
  shows "\<forall>i \<in> set rest. fits_alone W n (record_of i) \<and> within n (Some (cursor_of (position_after i))) \<Longrightarrow>
    (es = [] \<longrightarrow> enc = 0) \<Longrightarrow> \<exists>p. history_loop W goes_on rest enc es c = Inr p"
proof (induction rest arbitrary: enc es c)
  case (Cons i rest)
  let ?c = "if rest \<noteq> [] \<or> goes_on then Some (cursor_of (position_after i)) else None"
  obtain v where v: "history_entry_to_vec W (entry_at i) = Inr v" using W(2) by (auto simp: history_encodes_def)
  let ?enc = "enc + length v + (if es = [] then 0 else 1)"
  obtain m where m: "history_response_size W ?enc ?c = Inr m"
    using W(2) by (metis history_encodes_def history_response_size_def map_ok.simps(1))
  have "m \<le> MAX_RESPONSE_BYTES" if "es = []"
  proof -
    have "within n ?c" "fits_alone W n (record_of i)" using Cons.prems(1) by (auto simp: within_def)
    then have "reply_fits W (response_history [entry_at i] ?c)" by (auto simp: fits_alone_def)
    then show ?thesis using single_size [OF W(1) v] m that Cons.prems(2) by simp
  qed
  then show ?case using Cons.IH [of "es @ [entry_at i]" ?enc ?c] Cons.prems v m by (auto simp: Let_def)
qed simp

text \<open>What a reply to a request from \<open>off\<close> on delivers and where its cursor leads.\<close>

definition delivers :: "wire \<Rightarrow> ext \<Rightarrow> string \<Rightarrow> nat \<Rightarrow> response \<Rightarrow> bool" where
  "delivers W X bs off r \<longleftrightarrow> reply_fits W r \<and>
     (let S = history_from X bs off (length bs) in
      \<exists>k c. r = response_history (map entry_at (take k S)) c
        \<and> (case c of
             None \<Rightarrow> take k S = S
           | Some cur \<Rightarrow> take k S \<noteq> [] \<and> (\<exists>q. cur = cursor_of q \<and> valid_position bs q \<and> hp_end_offset q = length bs
                \<and> off < hp_offset q \<and> history_from X bs (hp_offset q) (length bs) = drop k S)))"

text \<open>Where a reply may cut a page: the position behind its last record leads on.\<close>

lemma page_cut:
  assumes page: "page_from X bs off page" and k: "0 < k" "k \<le> length (records page)"
  defines "S \<equiv> history_from X bs off (length bs)" and "q \<equiv> position_after (records page ! (k - 1))"
  shows "take k S = take k (records page)"
    "k < length (records page) \<or> next_pos page \<noteq> None \<Longrightarrow>
       valid_position bs q \<and> hp_end_offset q = length bs \<and> off < hp_offset q \<and> history_from X bs (hp_offset q) (length bs) = drop k S"
    "\<not> (k < length (records page) \<or> next_pos page \<noteq> None) \<Longrightarrow> take k S = S"
proof -
  obtain rest where S: "S = records page @ rest"
    using page by (auto simp: page_from_def Let_def S_def split: option.splits)
  show "take k S = take k (records page)" using S k(2) by simp
  show "take k S = S" if "\<not> (k < length (records page) \<or> next_pos page \<noteq> None)"
    using that page k(2) by (simp add: page_from_def S_def)
  assume more: "k < length (records page) \<or> next_pos page \<noteq> None"
  show "valid_position bs q \<and> hp_end_offset q = length bs \<and> off < hp_offset q \<and> history_from X bs (hp_offset q) (length bs) = drop k S"
  proof (cases "k < length (records page)")
    case True
    have "q = position_after (S ! (k - 1))" using S k by (simp add: q_def nth_append less_imp_diff_less True)
    then show ?thesis
      using position_after_rest [of off "length bs" bs k X] page k(1) True S by (simp add: page_from_def S_def Let_def)
  next
    case False
    then have "q = position_after (last (records page))" "drop k S = rest"
      using k S by (auto simp: q_def last_conv_nth)
    then show ?thesis using page more False S by (auto simp: page_from_def Let_def S_def)
  qed
qed

lemma page_delivers:
  assumes W: "array_sizes W" "history_encodes W" and page: "page_from X bs off page"
    and fits: "\<forall>i \<in> set (history_from X bs off (length bs)). fits_alone W (length bs) (record_of i)"
  shows "\<exists>r. response_for_history W page = Inr r \<and> delivers W X bs off r"
proof -
  let ?S = "history_from X bs off (length bs)" and ?recs = "records page"
  have off: "off \<le> length bs" using page by (simp add: page_from_def)
  have part: "\<exists>rest. ?S = ?recs @ rest \<and> (next_pos page = None \<longrightarrow> rest = [])"
    using page by (auto simp: page_from_def Let_def split: option.splits)
  have "within (length bs) (Some (cursor_of (position_after i)))" if "i \<in> set ?S" for i
    using positions_within [OF off order_refl that] by (simp add: within_def cursor_of_def)
  then have items: "\<forall>i \<in> set ?recs. fits_alone W (length bs) (record_of i) \<and> within (length bs) (Some (cursor_of (position_after i)))"
    using part fits by (metis Un_iff set_append)
  from history_loop_total [OF W items, of "[]" 0 "next_pos page \<noteq> None" None] obtain es c where
    "history_loop W (next_pos page \<noteq> None) ?recs 0 [] None = Inr (es, c)" by auto
  then obtain es c where r: "response_for_history W page = Inr (response_history es c)"
    by (simp add: response_for_history_def Let_def)
  show ?thesis
  proof (cases "?recs = []")
    case True
    then have S: "?S = []" and "next_pos page = None" using page by (auto simp: page_from_def Let_def split: option.splits)
    then have "response_for_history W page = Inr (response_history [] None)" using True by (simp add: response_for_history_def)
    then show ?thesis using W(2) S by (auto simp: delivers_def history_encodes_def split: option.splits)
  next
    case False
    have "response_history es c \<noteq> record_too_large"
      by (simp add: response_history_def record_too_large_def response_error_def)
    from response_for_history_prefix [OF W(1) r this False] obtain k where k: "0 < k" "k \<le> length ?recs" "reply_fits W (response_history es c)"
        "response_history es c = response_history (map entry_at (take k ?recs))
            (if k < length ?recs \<or> next_pos page \<noteq> None then Some (cursor_of (position_after (?recs ! (k - 1)))) else None)" by blast
    note cut = page_cut [OF page k(1,2)]
    have "take k ?S \<noteq> []" using cut(1) False k(1) by simp
    then have "delivers W X bs off (response_history es c)"
      using k(3,4) cut unfolding delivers_def Let_def
      by (intro conjI exI [of _ k] exI [of _ "if k < length ?recs \<or> next_pos page \<noteq> None then Some (cursor_of (position_after (?recs ! (k - 1)))) else None"])
        auto
    then show ?thesis using r by blast
  qed
qed

section \<open>The exchange\<close>

text \<open>The connected daemon as the client's peer: it serves the payload and its reply is delivered.\<close>

definition served :: "ext \<Rightarrow> wire \<Rightarrow> config \<Rightarrow> (u64 \<Rightarrow> u64) \<Rightarrow> u64 \<Rightarrow> shared_queue \<Rightarrow> string \<Rightarrow> exchange" where
  "served X W cfg sample t s payload =
     (case handle_client_inner X W cfg sample t (Inr payload) (\<lambda>_. Inr ()) (\<lambda>_ q. (''shutdown'', q)) s of
        Some (_, _, Some bs, _) \<Rightarrow> Replies bs
      | _ \<Rightarrow> Silent)"

definition ask :: "ext \<Rightarrow> wire \<Rightarrow> config \<Rightarrow> (u64 \<Rightarrow> u64) \<Rightarrow> u64 \<Rightarrow> shared_queue \<Rightarrow> string \<Rightarrow> request \<Rightarrow> client_error + response" where
  "ask X W cfg sample t s p req = transact W (\<lambda>_. Inr (served X W cfg sample t s)) [p] req"

lemma history_unchanged:
  assumes "read_page X pos limit HISTORY_READ_PAGE_SIZE (disk s) = (Inr page, disk s)"
  shows "sq_history_page X limit pos s = (Inr page, s)"
  using assms
  by (simp add: sq_history_page_def history_page_of_def with_store_def with_state_def publish_def is_state_mutation_def)

lemma ask_history:
  assumes W: "exchange_codec W" "request_fits W (Hist limit cur)"
    and page: "read_page X (map_option (\<lambda>c. \<lparr>hp_offset = hc_offset c, hp_end_offset = hc_end_offset c\<rparr>) cur) limit HISTORY_READ_PAGE_SIZE (disk s)
        = (Inr page, disk s)"
    and r: "response_for_history W page = Inr r" "reply_fits W r"
  shows "ask X W cfg sample t s sock (Hist limit cur) = Inr r"
proof -
  obtain v where v: "request_to_vec W (Hist limit cur) = Inr v" "length v \<le> MAX_REQUEST_BYTES" "request_from_slice W v = Inr (Hist limit cur)"
    using W by (auto simp: request_fits_def exchange_codec_def)
  obtain u where u: "response_to_vec W r = Inr u" "length u \<le> MAX_RESPONSE_BYTES" "response_from_slice W u = Inr r"
    using W(1) r(2) by (auto simp: reply_fits_def exchange_codec_def)
  have "dispatch_request_with_error_kind X W cfg sample t (Hist limit cur) s = Some ((r, too_large_kind r), s)"
    using history_unchanged [OF page] r(1) by (simp add: dispatch_request_with_error_kind_def)
  then have "served X W cfg sample t s v = Replies u"
    using v(2,3) u(1,2) by (simp add: served_def handle_client_inner_def execute_request_def send_reply_def encode_reply_def Let_def)
  then show ?thesis using v(1,2) u(2,3) by (simp add: ask_def transact_def connect_first_def Let_def)
qed

section \<open>Printing\<close>

abbreviation history_line :: "u64 \<Rightarrow> history_record \<Rightarrow> string" where
  "history_line now r \<equiv> render_history (history_entry_of r) now"

lemma render_entries_works:
  "failures out = [] \<Longrightarrow> render_history_entries hs now out = (Inr True, out\<lparr>written := written out @ map (\<lambda>h. render_history h now) hs\<rparr>)"
  by (induction hs now out rule: render_history_entries.induct) (auto simp: write_line_def)

lemma turn_works:
  assumes "failures out = []" "hs \<noteq> [] \<or> found" "cursor = None \<or> c \<noteq> cursor"
  shows "history_page_turn (Inr (response_history hs c)) now cursor found out =
    (let out' = out\<lparr>written := written out @ map (\<lambda>h. render_history h now) hs\<rparr> in
     if c = None then Inl (Inr (), out') else Inr (c, True, out'))"
  using assms by (auto simp: history_page_turn_def response_history_def render_history_reply_def render_entries_works Let_def)

section \<open>Following the cursors\<close>

text \<open>A daemon that answers every cursor of the log with a reply that delivers from there on.\<close>

definition answers :: "ext \<Rightarrow> wire \<Rightarrow> string \<Rightarrow> (nat \<Rightarrow> request \<Rightarrow> client_error + response) \<Rightarrow> bool" where
  "answers X W bs daemon \<longleftrightarrow>
     (\<forall>p n. valid_position bs p \<longrightarrow> hp_end_offset p = length bs \<longrightarrow>
        (\<forall>i \<in> set (history_from X bs (hp_offset p) (length bs)). fits_alone W (length bs) (record_of i)) \<longrightarrow>
        (\<exists>r. daemon n (Hist None (Some (cursor_of p))) = Inr r \<and> delivers W X bs (hp_offset p) r))"

lemma cursor_of_inject: "cursor_of p = cursor_of q \<Longrightarrow> hp_offset p = hp_offset q"
  by (simp add: cursor_of_def)

lemma pages_from:
  assumes daemon: "answers X W bs daemon"
  shows "valid_position bs p \<Longrightarrow> hp_end_offset p = length bs \<Longrightarrow>
    \<forall>i \<in> set (history_from X bs (hp_offset p) (length bs)). fits_alone W (length bs) (record_of i) \<Longrightarrow> failures out = [] \<Longrightarrow>
    history_pages_loop daemon limit now n (Some (cursor_of p)) True out =
      Some (Inr (), out\<lparr>written := written out @ map (\<lambda>i. history_line now (record_of i)) (history_from X bs (hp_offset p) (length bs))\<rparr>)"
proof (induction "length bs - hp_offset p" arbitrary: p n out rule: less_induct)
  case less
  let ?S = "history_from X bs (hp_offset p) (length bs)"
  obtain r where r: "daemon n (Hist None (Some (cursor_of p))) = Inr r" "delivers W X bs (hp_offset p) r"
    using daemon less.prems(1-3) unfolding answers_def by blast
  then obtain k c where k: "r = response_history (map entry_at (take k ?S)) c"
      "case c of None \<Rightarrow> take k ?S = ?S
       | Some cur \<Rightarrow> take k ?S \<noteq> [] \<and> (\<exists>q. cur = cursor_of q \<and> valid_position bs q \<and> hp_end_offset q = length bs
            \<and> hp_offset p < hp_offset q \<and> history_from X bs (hp_offset q) (length bs) = drop k ?S)"
    unfolding delivers_def Let_def by blast
  let ?out = "out\<lparr>written := written out @ map (\<lambda>i. history_line now (record_of i)) (take k ?S)\<rparr>"
  show ?case
  proof (cases c)
    case None
    have "history_page_turn (daemon n (Hist None (Some (cursor_of p)))) now (Some (cursor_of p)) True out = Inl (Inr (), ?out)"
      using turn_works [OF less.prems(4), of "map entry_at (take k ?S)" True "Some (cursor_of p)" None] r(1) k(1) None
      by (simp add: Let_def comp_def)
    moreover have "take k ?S = ?S" using k(2) None by simp
    ultimately show ?thesis by (subst history_pages_loop.simps) simp
  next
    case (Some cur)
    obtain q where q: "cur = cursor_of q" "valid_position bs q" "hp_end_offset q = length bs" "hp_offset p < hp_offset q"
        "history_from X bs (hp_offset q) (length bs) = drop k ?S" using k(2) unfolding Some option.case by blast
    have other: "Some cur \<noteq> Some (cursor_of p)" using q(1,4) cursor_of_inject [of q p] by auto
    have turn: "history_page_turn (daemon n (Hist None (Some (cursor_of p)))) now (Some (cursor_of p)) True out = Inr (Some cur, True, ?out)"
      using turn_works [OF less.prems(4), of "map entry_at (take k ?S)" True "Some (cursor_of p)" "Some cur"] r(1) k(1) Some other
      by (simp add: Let_def comp_def)
    have closer: "length bs - hp_offset q < length bs - hp_offset p" using q(2-4) by (auto simp: valid_position_def)
    have "\<forall>i \<in> set (history_from X bs (hp_offset q) (length bs)). fits_alone W (length bs) (record_of i)"
      using less.prems(3) q(5) by (auto dest: in_set_dropD)
    from less.hyps [OF closer q(2,3) this, of ?out "Suc n"] less.prems(4)
    have rest: "history_pages_loop daemon limit now (Suc n) (Some cur) True ?out =
      Some (Inr (), ?out\<lparr>written := written ?out @ map (\<lambda>i. history_line now (record_of i)) (drop k ?S)\<rparr>)"
      unfolding q(1,5) by simp
    have "map f (take k ?S) @ map f (drop k ?S) = map f ?S" for f :: "history_record_at \<Rightarrow> string"
      by (metis append_take_drop_id map_append)
    then show ?thesis using turn rest by (subst history_pages_loop.simps) simp
  qed
qed

lemma delivered:
  assumes "delivers W X bs off r"
  obtains k c where "r = response_history (map entry_at (take k (history_from X bs off (length bs)))) c"
    "c = None \<Longrightarrow> take k (history_from X bs off (length bs)) = history_from X bs off (length bs)"
    "\<And>cur. c = Some cur \<Longrightarrow> take k (history_from X bs off (length bs)) \<noteq> [] \<and> (\<exists>q. cur = cursor_of q \<and> valid_position bs q
        \<and> hp_end_offset q = length bs \<and> off < hp_offset q \<and> history_from X bs (hp_offset q) (length bs) = drop k (history_from X bs off (length bs)))"
proof -
  obtain k c where "r = response_history (map entry_at (take k (history_from X bs off (length bs)))) c"
    "case c of None \<Rightarrow> take k (history_from X bs off (length bs)) = history_from X bs off (length bs)
     | Some cur \<Rightarrow> take k (history_from X bs off (length bs)) \<noteq> [] \<and> (\<exists>q. cur = cursor_of q \<and> valid_position bs q
        \<and> hp_end_offset q = length bs \<and> off < hp_offset q \<and> history_from X bs (hp_offset q) (length bs) = drop k (history_from X bs off (length bs)))"
    using assms unfolding delivers_def Let_def by blast
  then show thesis by (intro that [of k c]) (simp_all only: option.case simp_thms)
qed

lemma run_pages:
  assumes daemon: "answers X W bs daemon" and first: "daemon 0 (Hist limit None) = Inr r" "delivers W X bs off r"
    and fits: "\<forall>i \<in> set (history_from X bs off (length bs)). fits_alone W (length bs) (record_of i)" and out: "failures out = []"
  shows "run_history_pages daemon limit now out = Some (Inr (), out\<lparr>written := written out @
      (if history_from X bs off (length bs) = [] then [''No posting history recorded.'']
       else map (\<lambda>i. history_line now (record_of i)) (history_from X bs off (length bs)))\<rparr>)"
proof -
  let ?S = "history_from X bs off (length bs)"
  obtain k c where r: "r = response_history (map entry_at (take k ?S)) c" and none: "c = None \<Longrightarrow> take k ?S = ?S"
      and some: "\<And>cur. c = Some cur \<Longrightarrow> take k ?S \<noteq> [] \<and> (\<exists>q. cur = cursor_of q \<and> valid_position bs q \<and> hp_end_offset q = length bs
           \<and> off < hp_offset q \<and> history_from X bs (hp_offset q) (length bs) = drop k ?S)"
    using delivered [OF first(2)] by metis
  show ?thesis
  proof (cases "?S = []")
    case True
    then have "r = response_history [] None" using r some by (cases c) auto
    then have "history_page_turn (daemon 0 (Hist limit None)) now None False out
        = Inl (Inr (), out\<lparr>written := written out @ [''No posting history recorded.'']\<rparr>)"
      using first(1) out by (simp add: history_page_turn_def response_history_def render_history_reply_def write_line_def)
    then show ?thesis using True unfolding run_history_pages_def by (subst history_pages_loop.simps) simp
  next
    case False
    let ?out = "out\<lparr>written := written out @ map (\<lambda>i. history_line now (record_of i)) (take k ?S)\<rparr>"
    have "map entry_at (take k ?S) \<noteq> []" using False none some by (cases c) auto
    then have turn: "history_page_turn (daemon 0 (Hist limit None)) now None False out = (if c = None then Inl (Inr (), ?out) else Inr (c, True, ?out))"
      using turn_works [OF out, of "map entry_at (take k ?S)" False None c] first(1) r by (simp add: Let_def comp_def)
    show ?thesis
    proof (cases c)
      case None
      then show ?thesis using turn none False unfolding run_history_pages_def by (subst history_pages_loop.simps) simp
    next
      case (Some cur)
      then obtain q where q: "cur = cursor_of q" "valid_position bs q" "hp_end_offset q = length bs"
          "history_from X bs (hp_offset q) (length bs) = drop k ?S" using some by blast
      have "\<forall>i \<in> set (history_from X bs (hp_offset q) (length bs)). fits_alone W (length bs) (record_of i)"
        using fits q(4) by (auto dest: in_set_dropD)
      from pages_from [OF daemon q(2,3) this, of ?out limit now "Suc 0"] out
      have "history_pages_loop daemon limit now (Suc 0) (Some cur) True ?out
          = Some (Inr (), ?out\<lparr>written := written ?out @ map (\<lambda>i. history_line now (record_of i)) (drop k ?S)\<rparr>)"
        unfolding q(1,4) by simp
      moreover have "map f (take k ?S) @ map f (drop k ?S) = map f ?S" for f :: "history_record_at \<Rightarrow> string"
        by (metis append_take_drop_id map_append)
      ultimately show ?thesis using turn Some False unfolding run_history_pages_def by (subst history_pages_loop.simps) simp
    qed
  qed
qed

section \<open>From the log to the terminal\<close>

lemma ask_answers:
  assumes W: "array_sizes W" "history_encodes W" "exchange_codec W" "\<And>c. within (length bs) (Some c) \<Longrightarrow> request_fits W (Hist None (Some c))"
    and log: "quiet (disk s)" "node_at (disk s) history_path = Some (Regular bs)"
  shows "answers X W bs (\<lambda>_. ask X W cfg sample t s sock)"
  unfolding answers_def
proof (intro allI impI)
  fix p n
  assume p: "valid_position bs p" "hp_end_offset p = length bs"
    and fits: "\<forall>i \<in> set (history_from X bs (hp_offset p) (length bs)). fits_alone W (length bs) (record_of i)"
  have n: "0 < HISTORY_READ_PAGE_SIZE" by (simp add: limits)
  obtain page where page: "read_page X (Some p) None HISTORY_READ_PAGE_SIZE (disk s) = (Inr page, disk s)" "page_from X bs (hp_offset p) page"
    using cursor_page [OF log p n] by blast
  obtain r where r: "response_for_history W page = Inr r" "delivers W X bs (hp_offset p) r"
    using page_delivers [OF W(1,2) page(2) fits] by blast
  have "request_fits W (Hist None (Some (cursor_of p)))"
    using W(4) p by (simp add: within_def cursor_of_def valid_position_def)
  moreover have "map_option (\<lambda>c. \<lparr>hp_offset = hc_offset c, hp_end_offset = hc_end_offset c\<rparr>) (Some (cursor_of p)) = Some p"
    by (cases p) (simp add: cursor_of_def)
  moreover have "reply_fits W r" using r(2) by (simp add: delivers_def)
  ultimately have "ask X W cfg sample t s sock (Hist None (Some (cursor_of p))) = Inr r"
    using ask_history [OF W(3) _ _ r(1), where limit = None and cur = "Some (cursor_of p)" and X = X and s = s] page(1) by metis
  then show "\<exists>r. ask X W cfg sample t s sock (Hist None (Some (cursor_of p))) = Inr r \<and> delivers W X bs (hp_offset p) r" using r(2) by blast
qed

text \<open>C4. \<open>comenq hist\<close> against \<open>comenqd\<close> prints the log: while no file operation fails and each record fits
  a reply of its own, the exchange of requests, pages and cursors over the wire ends with success
  and has printed every record the command asked for, each once and in the order of the log,
  however the daemon cuts its replies; an empty selection is reported as such.\<close>

theorem history_end_to_end:
  assumes "array_sizes W" "history_encodes W" "exchange_codec W"
    "request_fits W (Hist limit None)" "\<And>c. within (length bs) (Some c) \<Longrightarrow> request_fits W (Hist None (Some c))"
    and "quiet (disk s)" "node_at (disk s) history_path = Some (Regular bs)" "same_both_ways X bs"
    and "\<forall>r \<in> set (log_records X bs). fits_alone W (length bs) r" "failures out = []"
  shows "client_run W (\<lambda>_ _. Inr (served X W cfg sample t s)) streaming env \<lparr>socket = Some sock, command_of = HistCmd limit\<rparr> now out errs
    = (Some (Inr ()), out\<lparr>written := written out @
        (if wanted limit (log_records X bs) = [] then [''No posting history recorded.'']
         else map (history_line now) (wanted limit (log_records X bs)))\<rparr>, errs)"
proof -
  have n: "0 < HISTORY_READ_PAGE_SIZE" by (simp add: limits)
  obtain off page where page: "read_page X None limit HISTORY_READ_PAGE_SIZE (disk s) = (Inr page, disk s)" "page_from X bs off page"
      and recs: "map record_of (history_from X bs off (length bs)) = wanted limit (log_records X bs)"
    using first_page [OF assms(6-8) n] by blast
  have "set (wanted limit (log_records X bs)) \<subseteq> set (log_records X bs)" by (auto simp: wanted_def dest: in_set_dropD split: option.splits)
  then have fits: "\<forall>i \<in> set (history_from X bs off (length bs)). fits_alone W (length bs) (record_of i)"
    using assms(9) recs by (metis image_eqI set_map subsetD)
  obtain r where r: "response_for_history W page = Inr r" "delivers W X bs off r"
    using page_delivers [OF assms(1,2) page(2) fits] by blast
  have "ask X W cfg sample t s sock (Hist limit None) = Inr r"
    using ask_history [OF assms(3,4) _ r(1), of X s] page(1) r(2) by (simp add: delivers_def)
  from run_pages [OF ask_answers [OF assms(1-3,5-7)] this r(2) fits assms(10), of now]
  show ?thesis unfolding recs [symmetric]
    by (simp add: comp_def client_run_def args_socket_candidates_def ask_def [abs_def])
qed

text \<open>The reference codec and the sample log meet the laws.\<close>

definition log_queue :: shared_queue where
  "log_queue = \<lparr>disk = log_world, await_schedule = None, state_version = 0, permit = False, gauges = (0, 0)\<rparr>"

lemma length_show_nat_le: "length (show_nat n) \<le> Suc n"
proof (induction n rule: less_induct)
  case (less n)
  show ?case using less.IH [of "n div 10"] by (subst show_nat.simps) auto
qed

lemma cursor_small: "within n (Some c) \<Longrightarrow> length (enc_cursor c) \<le> 2 * n + 4"
  using length_show_nat_le [of "hc_offset c"] length_show_nat_le [of "hc_end_offset c"]
  by (simp add: within_def enc_cursor_def enc_pair_def enc_nat_def)

lemma ref_vec: "response_to_vec ref_wire r = Inr (enc_response r @ ''}'')" "request_to_vec ref_wire q = Inr (enc_req q @ ''}'')"
  "history_entry_to_vec ref_wire h = Inr (enc_hentry h)"
  by (simp_all add: ref_wire_def to_doc_def)

lemma ref_history_encodes: "history_encodes ref_wire"
proof -
  have "length (enc_response (response_history [] None) @ ''}'') < 100" by code_simp
  then show ?thesis by (simp add: history_encodes_def ref_vec reply_fits_def limits)
qed

lemma sample_requests: "request_fits ref_wire (Hist (Some 5) None)"
  "within 1000 (Some c) \<Longrightarrow> request_fits ref_wire (Hist None (Some c))"
proof -
  have "length (enc_req (Hist (Some 5) None) @ ''}'') < 100" by code_simp
  then show "request_fits ref_wire (Hist (Some 5) None)" by (simp add: request_fits_def ref_vec limits)
  show "request_fits ref_wire (Hist None (Some c))" if "within 1000 (Some c)"
    using cursor_small [OF that] by (simp add: request_fits_def ref_vec enc_req_def enc_sum_def enc_pair_def enc_option_def enc_unit_def limits)
qed

lemma sample_fits_alone: "fits_alone ref_wire 1000 sample_record"
proof -
  have h: "length (enc_hentry (history_entry_of sample_record)) < 1000" by code_simp
  have "length (enc_response (response_history [history_entry_of sample_record] c) @ ''}'') \<le> MAX_RESPONSE_BYTES" if "within 1000 c" for c
  proof (cases c)
    case None
    then show ?thesis using h
      by (simp add: enc_response_def response_history_def enc_sum_def enc_pair_def enc_option_def length_enc_list enc_unit_def limits)
  next
    case (Some cur)
    then show ?thesis using h cursor_small [of 1000 cur] that
      by (simp add: enc_response_def response_history_def enc_sum_def enc_pair_def enc_option_def length_enc_list enc_unit_def limits)
  qed
  then show ?thesis by (simp add: fits_alone_def reply_fits_def ref_vec)
qed

theorem history_end_to_end_witness:
  "client_run ref_wire (\<lambda>_ _. Inr (served ref_ext ref_wire (default_config (\<lambda>_. None)) id 0 log_queue))
      (\<lambda>_. Inl (IoError ConnectionRefused ''refused'')) (\<lambda>_. None) \<lparr>socket = Some ''/run/c'', command_of = HistCmd (Some 5)\<rparr> 900
      \<lparr>written = [], failures = []\<rparr> \<lparr>written = [], failures = []\<rparr>
   = (Some (Inr ()), \<lparr>written = [history_line 900 sample_record], failures = []\<rparr>, \<lparr>written = [], failures = []\<rparr>)"
proof -
  let ?bs = "sample_line @ [newline]"
  have n: "length ?bs \<le> 1000" using sample_line_length by simp
  have mono: "within (length ?bs) c \<Longrightarrow> within 1000 c" for c using n by (auto simp: within_def split: option.splits)
  have requests: "within (length ?bs) (Some c) \<Longrightarrow> request_fits ref_wire (Hist None (Some c))" for c
    using mono sample_requests(2) by blast
  have fits: "\<forall>r \<in> set (log_records ref_ext ?bs). fits_alone ref_wire (length ?bs) r"
    using sample_fits_alone mono by (simp add: sample_log_records fits_alone_def)
  have disk: "quiet (disk log_queue)" "node_at (disk log_queue) history_path = Some (Regular ?bs)"
    using log_world_node by (simp_all add: log_queue_def)
  from history_end_to_end [OF ref_array_sizes ref_history_encodes ref_exchange_codec sample_requests(1) requests disk sample_log_lines(2) fits,
      of "\<lparr>written = [], failures = []\<rparr>" "default_config (\<lambda>_. None)" id 0 "\<lambda>_. Inl (IoError ConnectionRefused ''refused'')"
        "\<lambda>_. None" "''/run/c''" 900]
  show ?thesis by (simp add: sample_log_records wanted_def)
qed

end
