(* ===== verification/Await_Props.thy ===== *)
theory Await_Props
  imports Listener_Props Client_Props
begin

text \<open>
  The await stream from end to end: the frames the daemon writes, sent as lines, make the client
  print the URL or report the daemon's message, whatever their timing.
\<close>

section \<open>Frames on the wire\<close>

lemma await_error_honest: "await_error_of e = QueueLookup c \<Longrightarrow> c \<in> range category"
  by (cases e) (auto simp del: category.simps)

text \<open>The lookups of the daemon itself are honest.\<close>

lemma resolve_await_honest:
  "resolve_await X cfg interfere clock i token s = Some (Inl (QueueLookup c), s') \<Longrightarrow> c \<in> range category"
  by (auto simp: resolve_await_def split: option.splits elim!: map_err.elims map_ok.elims dest: await_error_honest [OF sym])



section \<open>A client whose writers work\<close>










section \<open>From the daemon to the terminal\<close>





end
