(* ===== verification/Bounds_Props.thy ===== *)
theory Bounds_Props
  imports Bounds History_Props
begin

text \<open>
  What the bounded entry files amount to: replacing a file is atomic whatever fails, the scan of
  the entries directory yields the queue, sorted and complete, or a limit error, and an
  admitted write changes one entry and keeps the durable byte budget.
\<close>

section \<open>Atomic replacement\<close>

definition written :: "path \<Rightarrow> string \<Rightarrow> world \<Rightarrow> world" where
  "written p bs w = set_node p (Regular bs) (del_node (tmp_path p) w)"

lemma write_atomic_touches [frame]: "p \<in> A \<Longrightarrow> tmp_path p \<in> A \<Longrightarrow> touches A (write_atomic p bs)"
  unfolding write_atomic_def by (intro frame) auto

lemma fs_create_outcome:
  assumes "fs_create p w = (Inr (), w')"
  shows "node_at w' p = Some (Regular [])"
  using assms by (auto simp: fs_create_def syscall_def split: list.splits option.splits node.splits)

lemma fs_rename_outcome:
  assumes "fs_rename p q w = (r, w')" "node_at w p = Some n" "p \<noteq> q"
  shows "node_at w' q = node_at w q \<or> node_at w' q = Some n"
    and "r = Inr () \<Longrightarrow> node_at w' q = Some n \<and> node_at w' p = None"
  using assms
  by (auto simp: fs_rename_def syscall_def split: list.splits option.splits node.splits)

lemma syncs_node:
  "and_then (io fs_call) (\<lambda>_. f) w = (r, w') \<Longrightarrow>
   (\<exists>e. r = Inl e \<and> node_at w' = node_at w) \<or> (\<exists>w1. node_at w1 = node_at w \<and> f w1 = (r, w'))"
proof -
  assume *: "and_then (io fs_call) (\<lambda>_. f) w = (r, w')"
  obtain q w1 where q: "io fs_call w = (q, w1)" by fastforce
  then have "node_at w1 = node_at w" using io_call_frame by blast
  then show ?thesis using * q by (cases q) (auto simp: and_then_def)
qed

lemma syncs_rename_outcome:
  assumes "and_then (io fs_call) (\<lambda>_. and_then (io fs_call) (\<lambda>_. and_then (io fs_call) (\<lambda>_.
             and_then (io fs_call) (\<lambda>_. and_then (io (fs_rename t p)) (\<lambda>_. io fs_call))))) w = (r, w')"
    and n: "node_at w t = Some n" and ne: "t \<noteq> p"
  shows "(node_at w' p = node_at w p \<or> node_at w' p = Some n)
    \<and> (r = Inr () \<longrightarrow> node_at w' p = Some n \<and> node_at w' t = None)"
proof -
  have "(\<exists>e. r = Inl e \<and> node_at w' = node_at w)
      \<or> (\<exists>w1. node_at w1 = node_at w \<and> and_then (io (fs_rename t p)) (\<lambda>_. io fs_call) w1 = (r, w'))"
    using assms(1) by (auto dest!: syncs_node)
  then show ?thesis
  proof
    assume "\<exists>w1. node_at w1 = node_at w \<and> and_then (io (fs_rename t p)) (\<lambda>_. io fs_call) w1 = (r, w')"
    then obtain w1 where w1: "node_at w1 = node_at w"
      "and_then (io (fs_rename t p)) (\<lambda>_. io fs_call) w1 = (r, w')" by blast
    obtain q w2 where q: "fs_rename t p w1 = (q, w2)" by fastforce
    note ren = fs_rename_outcome [OF q, unfolded w1(1), OF n ne]
    show ?thesis
    proof (cases q)
      case (Inl e)
      then show ?thesis using w1(2) q ren by (auto simp: and_then_def map_error_def)
    next
      case (Inr u)
      then have "io fs_call w2 = (r, w')" using w1(2) q by (simp add: and_then_def map_error_def)
      then have "node_at w' = node_at w2" using io_call_frame by blast
      then show ?thesis using ren Inr by simp
    qed
  qed auto
qed

text \<open>Whatever call fails and however much of the new content was written, the target holds its
  old content or the complete new one.\<close>

lemma write_atomic_outcome:
  assumes run: "write_atomic p bs w = (r, w')" and ne: "tmp_path p \<noteq> p"
  shows "(node_at w' p = node_at w p \<or> node_at w' p = Some (Regular bs))
    \<and> (r = Inr () \<longrightarrow> node_at w' p = Some (Regular bs) \<and> node_at w' (tmp_path p) = None)"
proof -
  let ?t = "tmp_path p"
  obtain q1 w1 where one: "fs_create ?t w = (q1, w1)" by fastforce
  have p1: "node_at w1 p = node_at w p"
    using touchesD(1) [OF touches_create one, of "{?t}" p] ne by simp
  show ?thesis
  proof (cases q1)
    case (Inl e)
    then show ?thesis using run one p1 by (auto simp: write_atomic_def and_then_def map_error_def)
  next
    case (Inr u)
    have t1: "node_at w1 ?t = Some (Regular [])" using one Inr fs_create_outcome by simp
    obtain q2 w2 where two: "fs_write_all ?t bs w1 = (q2, w2)" by fastforce
    have p2: "node_at w2 p = node_at w p"
      using touchesD(1) [OF touches_write_all two, of "{?t}" p] ne p1 by simp
    show ?thesis
    proof (cases q2)
      case q2: (Inl e)
      then show ?thesis using run one two Inr p2 by (auto simp: write_atomic_def and_then_def map_error_def)
    next
      case q2: (Inr v)
      have t2: "node_at w2 ?t = Some (Regular bs)"
        using fs_write_all_outcome [OF two t1] q2 by auto
      show ?thesis
        using syncs_rename_outcome [OF _ t2 ne, of r w'] run one two Inr q2 p2
        by (simp add: write_atomic_def and_then_def [of "io (fs_create _)"]
            and_then_def [of "io (fs_write_all _ _)"] map_error_def)
    qed
  qed
qed

lemma del_set_node [simp]: "del_node p (set_node p n w) = del_node p w"
  by (simp add: del_node_def set_node_def delete_update_same)

lemma write_atomic_quiet:
  assumes w: "quiet w" and p: "node_at w p \<noteq> Some Special" and ne: "tmp_path p \<noteq> p"
  shows "write_atomic p bs w =
    (if node_at w (tmp_path p) = Some Special then (Inl (Io is_a_directory), w)
     else (Inr (), written p bs w))"
proof (cases "node_at w (tmp_path p) = Some Special")
  case True
  then show ?thesis using w by (simp add: write_atomic_def run_simps)
next
  case False
  define w2 where "w2 = set_node (tmp_path p) (Regular bs) (set_node (tmp_path p) (Regular []) w)"
  have q2: "quiet w2" "append_bytes (tmp_path p) bs (set_node (tmp_path p) (Regular []) w) = w2"
    using w by (simp_all add: w2_def append_bytes_def)
  have "fs_rename (tmp_path p) p w2 = (Inr (), written p bs w)"
    using q2(1) p ne by (cases "node_at w p") (auto simp: run_simps w2_def written_def split: node.splits)
  then show ?thesis
    using False w q2 by (simp add: write_atomic_def run_simps written_def)
qed

section \<open>Scanning the entries directory\<close>

definition is_entry_file :: "string \<times> node \<Rightarrow> bool" where
  "is_entry_file d \<longleftrightarrow> extension (fst d) = Some ''json'' \<and> snd d \<noteq> Special"

definition entry_files :: "world \<Rightarrow> (string \<times> node) list" where
  "entry_files w = filter is_entry_file (dirs w EntriesDir)"

definition bytes_of :: "(string \<times> node) list \<Rightarrow> nat" where
  "bytes_of ds = sum_list (map (\<lambda>d. node_len (snd d)) ds)"

abbreviation entry_paths :: "(string \<times> node) list \<Rightarrow> path list" where
  "entry_paths ds \<equiv> map (\<lambda>d. (EntriesDir, fst d)) ds"

lemma bytes_of_simps [simp]:
  "bytes_of [] = 0" "bytes_of (d # ds) = node_len (snd d) + bytes_of ds"
  "bytes_of (ds @ ds') = bytes_of ds + bytes_of ds'"
  by (simp_all add: bytes_of_def)

lemma budget_exact: "a + b \<le> MAX_QUEUE_BYTES \<Longrightarrow> sat_add a b = a + b"
  by (rule sat_add_exact) (simp add: limits)

lemma budget_exceeded: "a + b > MAX_QUEUE_BYTES \<Longrightarrow> sat_add a b > MAX_QUEUE_BYTES"
  by (simp add: sat_add_def limits)

lemma ensure_queue_bytes_run:
  "ensure_queue_bytes used requested w =
     (if used + requested \<le> MAX_QUEUE_BYTES then Inr ()
      else Inl (QueueByteBudgetExceeded used requested MAX_QUEUE_BYTES), w)"
  using budget_exact [of used requested] budget_exceeded [of used requested]
  by (auto simp: ensure_queue_bytes_def run_simps not_le)

lemma ensure_entry_size_run:
  "ensure_entry_size n limit w = (if n \<le> limit then Inr () else Inl (EntryTooLarge n limit), w)"
  by (simp add: ensure_entry_size_def run_simps)

fun is_limit_error :: "store_error \<Rightarrow> bool" where
  "is_limit_error (QueueFull _) = True"
| "is_limit_error (EntryTooLarge _ _) = True"
| "is_limit_error (QueueByteBudgetExceeded _ _ _) = True"
| "is_limit_error _ = False"

lemma scan_dirents_quiet:
  assumes w: "quiet w" and nodes: "\<forall>d \<in> set ds. node_at w (EntriesDir, fst d) = Some (snd d)"
    and start: "length paths \<le> MAX_QUEUE_ENTRIES" "acc \<le> MAX_QUEUE_BYTES"
  shows "if length paths + length (filter is_entry_file ds) \<le> MAX_QUEUE_ENTRIES
            \<and> acc + bytes_of (filter is_entry_file ds) \<le> MAX_QUEUE_BYTES
         then scan_dirents (map fst ds) paths acc w
              = (Inr (paths @ entry_paths (filter is_entry_file ds), acc + bytes_of (filter is_entry_file ds)), w)
         else \<exists>e. scan_dirents (map fst ds) paths acc w = (Inl e, w) \<and> is_limit_error e"
  using nodes start
proof (induction ds arbitrary: paths acc)
  case Nil
  then show ?case by (simp add: run_simps)
next
  case (Cons d ds)
  have node: "node_at w (EntriesDir, fst d) = Some (snd d)" using Cons.prems by simp
  show ?case
  proof (cases "is_entry_file d")
    case False
    then have "scan_dirents (map fst (d # ds)) paths acc w = scan_dirents (map fst ds) paths acc w"
      using w node by (auto simp: is_entry_file_def run_simps Let_def)
    then show ?thesis using Cons False by simp
  next
    case True
    then have ext: "extension (fst d) = Some ''json''" and reg: "snd d \<noteq> Special"
      by (simp_all add: is_entry_file_def)
    show ?thesis
    proof (cases "length paths = MAX_QUEUE_ENTRIES \<or> acc + node_len (snd d) > MAX_QUEUE_BYTES")
      case full: True
      then have "\<exists>e. scan_dirents (map fst (d # ds)) paths acc w = (Inl e, w) \<and> is_limit_error e"
        using w node ext reg by (auto simp: run_simps Let_def ensure_queue_bytes_run)
      then show ?thesis using full True Cons.prems by auto
    next
      case False
      then have "scan_dirents (map fst (d # ds)) paths acc w
          = scan_dirents (map fst ds) (paths @ [(EntriesDir, fst d)]) (acc + node_len (snd d)) w"
        using w node ext reg by (simp add: run_simps Let_def ensure_queue_bytes_run budget_exact)
      moreover have "length (paths @ [(EntriesDir, fst d)]) \<le> MAX_QUEUE_ENTRIES"
        "acc + node_len (snd d) \<le> MAX_QUEUE_BYTES" using False Cons.prems(2) by auto
      ultimately show ?thesis
        using Cons.IH [of "paths @ [(EntriesDir, fst d)]" "acc + node_len (snd d)"] Cons.prems(1) True
        by (simp add: add.assoc)
    qed
  qed
qed

text \<open>The entry a file holds, if it is the file of that entry.\<close>

definition decode_node :: "ext \<Rightarrow> node \<Rightarrow> stored_entry option" where
  "decode_node X n =
     (case n of
        Special \<Rightarrow> None
      | Regular bs \<Rightarrow>
          if length bs > MAX_ENTRY_BYTES then None
          else case entry_from_slice X bs of Inr e \<Rightarrow> Some e | Inl _ \<Rightarrow> None)"

definition stored_at :: "ext \<Rightarrow> string \<times> node \<Rightarrow> stored_entry option" where
  "stored_at X d =
     (if is_entry_file d then
        (case decode_node X (snd d) of
           Some e \<Rightarrow> if is_valid_id (ident e) \<and> file_stem (fst d) = Some (ident e) then Some e else None
         | None \<Rightarrow> None)
      else None)"

definition required_bytes :: "ext \<Rightarrow> string \<times> node \<Rightarrow> nat" where
  "required_bytes X d =
     (case stored_at X d of
        None \<Rightarrow> 0
      | Some e \<Rightarrow> sat_add (node_len (snd d)) (maximum_mutation_growth X e))"

text \<open>The queue's entries, in directory order and in posting order.\<close>

definition stored_entries :: "ext \<Rightarrow> world \<Rightarrow> stored_entry list" where
  "stored_entries X w = List.map_filter (stored_at X) (dirs w EntriesDir)"

definition pending_list :: "ext \<Rightarrow> world \<Rightarrow> stored_entry list" where
  "pending_list X w = sort_key entry_key (stored_entries X w)"

lemma read_entry_quiet:
  assumes "quiet w"
  shows "read_entry X p w =
    (case node_at w p of
       None \<Rightarrow> (Inl (Io not_found), w)
     | Some Special \<Rightarrow> (Inl not_regular, w)
     | Some (Regular bs) \<Rightarrow>
         if length bs > MAX_ENTRY_BYTES then (Inl (EntryTooLarge (length bs) MAX_ENTRY_BYTES), w)
         else (map_err Serde (entry_from_slice X bs), w))"
  using assms
  by (auto simp: read_entry_def run_simps node_len_def bytes_at_def ensure_entry_size_run
      split: option.splits node.splits)

lemma read_entry_decode:
  assumes "quiet w" "node_at w p = Some n"
  shows "fst (read_entry X p w) = Inr e \<longleftrightarrow> decode_node X n = Some e" and "snd (read_entry X p w) = w"
proof -
  show "fst (read_entry X p w) = Inr e \<longleftrightarrow> decode_node X n = Some e"
  proof (cases n)
    case (Regular bs)
    then show ?thesis using assms
      by (cases "entry_from_slice X bs") (auto simp: read_entry_quiet decode_node_def)
  qed (use assms in \<open>simp add: read_entry_quiet decode_node_def\<close>)
  show "snd (read_entry X p w) = w"
    using assms by (simp add: read_entry_quiet split: node.splits)
qed

definition headroom_of :: "ext \<Rightarrow> stored_entry list \<Rightarrow> nat" where
  "headroom_of X es = sum_list (map (entry_headroom X) es)"

lemma headroom_of_simps [simp]:
  "headroom_of X [] = 0" "headroom_of X (e # es) = entry_headroom X e + headroom_of X es"
  "headroom_of X (es @ fs) = headroom_of X es + headroom_of X fs"
  by (simp_all add: headroom_of_def)

lemma entry_headroom_le: "entry_headroom X e \<le> 137"
proof -
  let ?a = "ENTRY_MUTATION_HEADROOM_BYTES - (length (show_int (order e)) - 1)
      - (case claim_token e of None \<Rightarrow> 0
         | Some token \<Rightarrow> (case string_to_vec X token of Inl _ \<Rightarrow> u64_max | Inr encoded \<Rightarrow> length encoded - 4))"
  have "?a \<le> 80" by (simp add: limits)
  moreover have "incarnation_growth e \<le> 57" by (simp add: incarnation_growth_def)
  moreover have "entry_headroom X e \<le> ?a + incarnation_growth e"
    by (simp add: entry_headroom_def Let_def sat_add_def)
  ultimately show ?thesis by linarith
qed

lemma read_entries_quiet:
  assumes w: "quiet w" and nodes: "\<forall>d \<in> set ds. node_at w (EntriesDir, fst d) = Some (snd d) \<and> is_entry_file d"
    and room: "headroom_bytes usage + 137 * length ds \<le> u64_max"
  shows "if list_all (\<lambda>d. required_bytes X d \<le> MAX_ENTRY_BYTES) ds
         then read_entries X (entry_paths ds) es usage w
              = (Inr (es @ List.map_filter (stored_at X) ds,
                      usage\<lparr>headroom_bytes := headroom_bytes usage + headroom_of X (List.map_filter (stored_at X) ds)\<rparr>), w)
         else \<exists>e. read_entries X (entry_paths ds) es usage w = (Inl e, w) \<and> is_limit_error e"
  using nodes room
proof (induction ds arbitrary: es usage)
  case Nil
  then show ?case by (simp add: run_simps map_filter_simps)
next
  case (Cons d ds)
  let ?p = "(EntriesDir, fst d)"
  have node: "node_at w ?p = Some (snd d)" and isf: "is_entry_file d" using Cons.prems by simp_all
  have run: "read_entry X ?p w = (fst (read_entry X ?p w), w)"
    using read_entry_decode(2) [OF w node] by (metis prod.collapse)
  note dec = read_entry_decode(1) [OF w node, of X]
  show ?case
  proof (cases "stored_at X d")
    case None
    have "read_entries X (entry_paths (d # ds)) es usage w = read_entries X (entry_paths ds) es usage w"
    proof (cases "fst (read_entry X ?p w)")
      case (Inl e)
      then show ?thesis using run by (simp add: run_simps)
    next
      case (Inr e)
      then have "\<not> (is_valid_id (ident e) \<and> path_matches_id ?p (ident e))"
        using None dec [of e] isf by (auto simp: stored_at_def path_matches_id_def split: if_splits)
      then show ?thesis using run Inr by (simp add: run_simps)
    qed
    then show ?thesis using Cons None by (simp add: required_bytes_def map_filter_simps)
  next
    case (Some e)
    then have e: "fst (read_entry X ?p w) = Inr e" "is_valid_id (ident e)" "path_matches_id ?p (ident e)"
      using dec [of e] by (auto simp: stored_at_def path_matches_id_def split: if_splits option.splits)
    let ?req = "sat_add (node_len (snd d)) (maximum_mutation_growth X e)"
    let ?usage = "usage\<lparr>headroom_bytes := headroom_bytes usage + entry_headroom X e\<rparr>"
    show ?thesis
    proof (cases "?req \<le> MAX_ENTRY_BYTES")
      case False
      then have "read_entries X (entry_paths (d # ds)) es usage w = (Inl (EntryTooLarge ?req MAX_ENTRY_BYTES), w)"
        using run e w node by (simp add: run_simps Let_def)
      then show ?thesis using False Some by (simp add: required_bytes_def)
    next
      case True
      have "headroom_bytes usage + entry_headroom X e \<le> u64_max"
        using Cons.prems(2) entry_headroom_le [of X e] by simp
      then have "read_entries X (entry_paths (d # ds)) es usage w
          = read_entries X (entry_paths ds) (es @ [e]) ?usage w"
        using True run e w node by (simp add: run_simps Let_def sat_add_exact)
      moreover have "headroom_bytes ?usage + 137 * length ds \<le> u64_max"
        using Cons.prems(2) entry_headroom_le [of X e] by simp
      ultimately show ?thesis
        using Cons.IH [of ?usage "es @ [e]"] Cons.prems(1) True Some
        by (simp add: required_bytes_def map_filter_simps add.assoc)
    qed
  qed
qed

text \<open>The limits a queue directory has to meet.\<close>

definition fits :: "ext \<Rightarrow> world \<Rightarrow> bool" where
  "fits X w \<longleftrightarrow>
     length (entry_files w) \<le> MAX_QUEUE_ENTRIES \<and> bytes_of (entry_files w) \<le> MAX_QUEUE_BYTES
     \<and> list_all (\<lambda>d. required_bytes X d \<le> MAX_ENTRY_BYTES) (entry_files w)"

definition usage_of :: "ext \<Rightarrow> world \<Rightarrow> queue_usage" where
  "usage_of X w = \<lparr>entry_count = length (entry_files w), bytes = bytes_of (entry_files w),
     headroom_bytes = headroom_of X (stored_entries X w)\<rparr>"

lemma map_filter_filter:
  "(\<And>x. \<not> P x \<Longrightarrow> f x = None) \<Longrightarrow> List.map_filter f (filter P xs) = List.map_filter f xs"
  by (induction xs) (auto simp: map_filter_simps split: option.splits)

lemma stored_entries_files: "List.map_filter (stored_at X) (entry_files w) = stored_entries X w"
  unfolding entry_files_def stored_entries_def by (rule map_filter_filter) (simp add: stored_at_def)

lemma dirs_nodes:
  assumes "wf_dirs w" "d \<in> set (dirs w dir)"
  shows "node_at w (dir, fst d) = Some (snd d)"
  using assms by (cases d) (auto simp: wf_dirs_def node_at_def)

text \<open>A scan without failures returns the queue in posting order with its exact usage when the
  directory meets the limits, and a limit error otherwise.\<close>

lemma entries_with_usage_quiet:
  assumes w: "quiet w" "wf_dirs w"
  shows "if fits X w then entries_with_usage X w = (Inr (pending_list X w, usage_of X w), w)
         else \<exists>e. entries_with_usage X w = (Inl e, w) \<and> is_limit_error e"
proof -
  let ?ds = "dirs w EntriesDir"
  have nodes: "\<forall>d \<in> set ?ds. node_at w (EntriesDir, fst d) = Some (snd d)"
    using dirs_nodes [OF w(2)] by blast
  have scan: "if length (entry_files w) \<le> MAX_QUEUE_ENTRIES \<and> bytes_of (entry_files w) \<le> MAX_QUEUE_BYTES
       then scan_dirents (map fst ?ds) [] 0 w = (Inr (entry_paths (entry_files w), bytes_of (entry_files w)), w)
       else \<exists>e. scan_dirents (map fst ?ds) [] 0 w = (Inl e, w) \<and> is_limit_error e"
    using scan_dirents_quiet [OF w(1) nodes, of "[]" 0] by (simp add: entry_files_def)
  show ?thesis
  proof (cases "length (entry_files w) \<le> MAX_QUEUE_ENTRIES \<and> bytes_of (entry_files w) \<le> MAX_QUEUE_BYTES")
    case False
    then obtain e where "scan_dirents (map fst ?ds) [] 0 w = (Inl e, w)" "is_limit_error e" using scan by auto
    then show ?thesis using False w(1)
      by (auto simp: fits_def entries_with_usage_def scan_entry_files_def run_simps)
  next
    case True
    let ?u = "\<lparr>entry_count = length (entry_files w), bytes = bytes_of (entry_files w), headroom_bytes = 0\<rparr>"
    have "scan_entry_files w = (Inr (entry_paths (entry_files w), ?u), w)"
      using True scan w(1) by (simp add: scan_entry_files_def run_simps)
    then have run: "entries_with_usage X w =
        and_then (read_entries X (entry_paths (entry_files w)) [] ?u)
          (\<lambda>(es, usage'). ok (sort_key entry_key es, usage')) w"
      by (simp add: entries_with_usage_def run_simps)
    have "headroom_bytes ?u + 137 * length (entry_files w) \<le> u64_max" using True by (simp add: limits)
    moreover have "\<forall>d \<in> set (entry_files w). node_at w (EntriesDir, fst d) = Some (snd d) \<and> is_entry_file d"
      using nodes by (simp add: entry_files_def)
    ultimately have read: "if list_all (\<lambda>d. required_bytes X d \<le> MAX_ENTRY_BYTES) (entry_files w)
        then read_entries X (entry_paths (entry_files w)) [] ?u w
             = (Inr (stored_entries X w, usage_of X w), w)
        else \<exists>e. read_entries X (entry_paths (entry_files w)) [] ?u w = (Inl e, w) \<and> is_limit_error e"
      using read_entries_quiet [OF w(1), of "entry_files w" ?u X "[]"]
      by (simp add: stored_entries_files usage_of_def)
    show ?thesis
    proof (cases "list_all (\<lambda>d. required_bytes X d \<le> MAX_ENTRY_BYTES) (entry_files w)")
      case all: True
      then show ?thesis using read run True by (simp add: fits_def run_simps pending_list_def)
    next
      case False
      then obtain e where "read_entries X (entry_paths (entry_files w)) [] ?u w = (Inl e, w)" "is_limit_error e"
        using read by auto
      then show ?thesis using False run by (auto simp: fits_def run_simps)
    qed
  qed
qed

section \<open>The queue as a set of entries\<close>

definition entry_file :: "string \<Rightarrow> path" where
  "entry_file i = (EntriesDir, i @ ''.json'')"

lemma entry_path_run:
  "entry_path i w = (if is_valid_id i then Inr (entry_file i) else Inl (InvalidId i), w)"
  by (simp add: entry_path_def entry_file_def run_simps)

lemma tmp_entry_file: "is_valid_id i \<Longrightarrow> tmp_path (entry_file i) = (EntriesDir, i @ ''.tmp'')"
  by (simp add: tmp_path_def entry_file_def entry_file_name)

lemma tmp_entry_file_ne [simp]: "is_valid_id i \<Longrightarrow> tmp_path (entry_file i) \<noteq> entry_file i"
  by (simp add: tmp_entry_file) (simp add: entry_file_def)

lemma stored_at_name:
  assumes "stored_at X d = Some e"
  shows "fst d = ident e @ ''.json''" and "is_valid_id (ident e)" and "decode_node X (snd d) = Some e"
proof -
  have *: "extension (fst d) = Some ''json''" "file_stem (fst d) = Some (ident e)"
    and v: "is_valid_id (ident e)" and n: "decode_node X (snd d) = Some e"
    using assms by (auto simp: stored_at_def is_entry_file_def split: if_splits option.splits)
  show "fst d = ident e @ ''.json''" using extension_stemD [OF *] by simp
  show "is_valid_id (ident e)" "decode_node X (snd d) = Some e" by fact+
qed

lemma stored_at_file:
  assumes "is_valid_id (ident e)" "decode_node X n = Some e"
  shows "stored_at X (ident e @ ''.json'', n) = Some e"
  using assms by (auto simp: stored_at_def is_entry_file_def entry_file_name decode_node_def split: node.splits)

lemma set_map_filter: "set (List.map_filter f xs) = {y. \<exists>x \<in> set xs. f x = Some y}"
  by (induction xs) (auto simp: map_filter_simps split: option.splits)

definition stored :: "ext \<Rightarrow> world \<Rightarrow> stored_entry set" where
  "stored X w = {e. is_valid_id (ident e)
     \<and> (\<exists>n. node_at w (entry_file (ident e)) = Some n \<and> decode_node X n = Some e)}"

lemma set_stored_entries:
  assumes "wf_dirs w"
  shows "set (stored_entries X w) = stored X w"
proof -
  have "e \<in> stored X w" if "d \<in> set (dirs w EntriesDir)" "stored_at X d = Some e" for d e
    using stored_at_name [OF that(2)] dirs_nodes [OF assms that(1)]
    by (auto simp: stored_def entry_file_def)
  moreover have "\<exists>d \<in> set (dirs w EntriesDir). stored_at X d = Some e" if e: "e \<in> stored X w" for e
  proof -
    obtain n where "is_valid_id (ident e)" "node_at w (entry_file (ident e)) = Some n" "decode_node X n = Some e"
      using e by (auto simp: stored_def)
    then show ?thesis using stored_at_file [of e X n]
      by (auto simp: node_at_def entry_file_def dest: map_of_SomeD)
  qed
  ultimately show ?thesis unfolding stored_entries_def set_map_filter by blast
qed

lemma set_pending_list [simp]: "wf_dirs w \<Longrightarrow> set (pending_list X w) = stored X w"
  by (simp add: pending_list_def set_stored_entries)

lemma distinct_stored_entries:
  assumes "wf_dirs w"
  shows "distinct (map ident (stored_entries X w))"
proof -
  have "distinct (map ident (List.map_filter (stored_at X) ds))" if "distinct (map fst ds)" for ds
    using that
  proof (induction ds)
    case (Cons d ds)
    show ?case
    proof (cases "stored_at X d")
      case (Some e)
      have "ident e \<noteq> ident f" if f: "f \<in> set (List.map_filter (stored_at X) ds)" for f
      proof -
        obtain d' where "d' \<in> set ds" "stored_at X d' = Some f" using f by (auto simp: set_map_filter)
        then show ?thesis
          using stored_at_name(1) [OF Some] stored_at_name(1) [of X d' f] Cons.prems by force
      qed
      then show ?thesis using Cons Some by (auto simp: map_filter_simps)
    qed (use Cons in \<open>simp add: map_filter_simps\<close>)
  qed (simp add: map_filter_simps)
  then show ?thesis using assms by (simp add: stored_entries_def wf_dirs_def)
qed

lemma sorted_pending_list: "sorted (map entry_key (pending_list X w))"
  by (simp add: pending_list_def)

lemma distinct_pending_list:
  assumes "wf_dirs w"
  shows "distinct (map ident (pending_list X w))" and "distinct (pending_list X w)"
proof -
  have "distinct (stored_entries X w)"
    using distinct_stored_entries [OF assms] by (simp add: distinct_map)
  then show d: "distinct (pending_list X w)" by (simp add: pending_list_def)
  have "inj_on ident (set (stored_entries X w))"
    using distinct_stored_entries [OF assms] by (simp add: distinct_map)
  then show "distinct (map ident (pending_list X w))"
    using d by (simp add: distinct_map pending_list_def)
qed

lemma entry_key_inj: "inj_on ident A \<Longrightarrow> inj_on entry_key A"
  by (auto simp: inj_on_def entry_key_def)

text \<open>The queue is determined by its set of entries: it is their one sorted arrangement.\<close>

lemma pending_listI:
  assumes wf: "wf_dirs w" and set: "set xs = stored X w"
    and xs: "distinct xs" "sorted (map entry_key xs)"
  shows "pending_list X w = xs"
proof -
  have "mset (pending_list X w) = mset xs"
    using distinct_pending_list(2) [OF wf] xs(1) set wf by (metis set_eq_iff_mset_eq_distinct set_pending_list)
  moreover have "inj_on entry_key (set (pending_list X w))"
    using distinct_pending_list(1) [OF wf, of X] by (intro entry_key_inj) (simp add: distinct_map)
  ultimately show ?thesis
    using sorted_pending_list xs(2) by (intro sorted_key_unique [where k = entry_key])
qed

lemma find_entry_quiet:
  assumes w: "quiet w" and i: "is_valid_id i"
  shows "find_entry X i w =
    (case node_at w (entry_file i) of
       None \<Rightarrow> (Inl (UnknownId i), w)
     | Some Special \<Rightarrow> (Inl not_regular, w)
     | Some (Regular bs) \<Rightarrow>
         if length bs > MAX_ENTRY_BYTES then (Inl (EntryTooLarge (length bs) MAX_ENTRY_BYTES), w)
         else case entry_from_slice X bs of
                Inl m \<Rightarrow> (Inl (Serde m), w)
              | Inr e \<Rightarrow> if ident e \<noteq> i then (Inl (InvalidId (ident e)), w) else (Inr e, w))"
  using assms
  by (auto simp: find_entry_def entry_path_run run_simps read_entry_quiet not_regular_def not_found_def
      split: option.splits node.splits sum.splits)

lemma find_entry_invalid: "\<not> is_valid_id i \<Longrightarrow> find_entry X i w = (Inl (InvalidId i), w)"
  by (simp add: find_entry_def entry_path_run run_simps)

text \<open>Looking an entry up finds it exactly when it is in the queue.\<close>

lemma find_entry_stored:
  assumes w: "quiet w"
  shows "find_entry X i w = (Inr e, w) \<longleftrightarrow> e \<in> stored X w \<and> ident e = i"
proof (cases "is_valid_id i")
  case True
  have st: "e \<in> stored X w \<and> ident e = i \<longleftrightarrow>
      ident e = i \<and> (\<exists>n. node_at w (entry_file i) = Some n \<and> decode_node X n = Some e)"
    using True unfolding stored_def by blast
  show ?thesis
  proof (cases "node_at w (entry_file i)")
    case None
    then show ?thesis using w True unfolding st by (simp add: find_entry_quiet)
  next
    case (Some n)
    show ?thesis
    proof (cases n)
      case (Regular bs)
      then show ?thesis using w True Some unfolding st
        by (cases "entry_from_slice X bs") (auto simp: find_entry_quiet decode_node_def)
    next
      case Special
      then show ?thesis using w True Some unfolding st by (simp add: find_entry_quiet decode_node_def)
    qed
  qed
next
  case False
  then show ?thesis by (auto simp: find_entry_invalid stored_def)
qed

lemma find_entry_unknown:
  assumes w: "quiet w"
  shows "fst (find_entry X i w) = Inl (UnknownId i) \<longleftrightarrow> is_valid_id i \<and> node_at w (entry_file i) = None"
proof (cases "is_valid_id i")
  case True
  then show ?thesis using w
    by (auto simp: find_entry_quiet not_regular_def split: option.splits node.splits sum.splits)
qed (simp add: find_entry_invalid)

lemma find_entry_result:
  assumes w: "quiet w"
  obtains e where "find_entry X i w = (Inr e, w)" | er where "find_entry X i w = (Inl er, w)"
proof (cases "is_valid_id i")
  case True
  have "snd (find_entry X i w) = w"
    using w True by (simp add: find_entry_quiet split: option.splits node.splits sum.splits)
  then show ?thesis using that by (metis prod.collapse sum.exhaust)
qed (use that find_entry_invalid in blast)

lemma stored_same_ident: "e \<in> stored X w \<Longrightarrow> f \<in> stored X w \<Longrightarrow> ident e = ident f \<Longrightarrow> e = f"
  by (auto simp: stored_def)

section \<open>Writing one entry\<close>

lemma json_ne_tmp: "i @ ''.json'' \<noteq> j @ ''.tmp''"
proof
  assume "i @ ''.json'' = j @ ''.tmp''"
  then have "last (i @ ''.json'') = last (j @ ''.tmp'')" by (rule arg_cong)
  then show False by simp
qed

lemma entry_file_ne_tmp [simp]: "is_valid_id j \<Longrightarrow> entry_file i \<noteq> tmp_path (entry_file j)"
  by (simp add: tmp_entry_file) (simp add: entry_file_def json_ne_tmp)

lemma entry_file_inject [simp]: "entry_file i = entry_file j \<longleftrightarrow> i = j"
  by (simp add: entry_file_def)

lemma stored_frame:
  "(\<And>i. node_at w' (entry_file i) = node_at w (entry_file i)) \<Longrightarrow> stored X w' = stored X w"
  by (simp add: stored_def)

lemma node_at_written:
  assumes "is_valid_id i"
  shows "node_at (written (entry_file i) bs w) (entry_file j) =
    (if j = i then Some (Regular bs) else node_at w (entry_file j))"
  using assms by (auto simp: written_def)

lemma wf_dirs_written [simp]: "wf_dirs w \<Longrightarrow> wf_dirs (written p bs w)"
  by (simp add: written_def)

lemma script_written [simp]: "script (written p bs w) = script w"
  by (simp add: written_def)

lemma stored_written:
  assumes "is_valid_id (ident e)" "entry_from_slice X bs = Inr e" "length bs \<le> MAX_ENTRY_BYTES"
  shows "stored X (written (entry_file (ident e)) bs w) = insert e {x \<in> stored X w. ident x \<noteq> ident e}"
  using assms by (auto simp: stored_def node_at_written decode_node_def)

lemma stored_del_node:
  "stored X (del_node (entry_file i) w) = {x \<in> stored X w. ident x \<noteq> i}"
  by (auto simp: stored_def)

text \<open>The directory's entry files after a write and after a removal.\<close>

lemma filter_delete_other:
  "(\<And>n. \<not> P (k, n)) \<Longrightarrow> filter P (AList.delete k ds) = filter P ds"
  by (induction ds) auto

lemma tmp_not_entry_file: "is_valid_id i \<Longrightarrow> \<not> is_entry_file (i @ ''.tmp'', n)"
  using extension_append [of "''tmp''" i] valid_id_not_Nil [of i] by (auto simp: is_entry_file_def)

lemma entry_files_tmp: "is_valid_id i \<Longrightarrow> entry_files (del_node (tmp_path (entry_file i)) w) = entry_files w"
  by (simp add: entry_files_def del_node_def tmp_entry_file filter_delete_other tmp_not_entry_file)

lemma usage_update:
  assumes "extension k = Some ''json''" "map_of ds k \<noteq> Some Special"
  shows "bytes_of (filter is_entry_file (AList.update k (Regular bs) ds))
           + (case map_of ds k of Some n \<Rightarrow> node_len n | None \<Rightarrow> 0)
         = bytes_of (filter is_entry_file ds) + length bs
       \<and> length (filter is_entry_file (AList.update k (Regular bs) ds))
         = length (filter is_entry_file ds) + (if map_of ds k = None then 1 else 0)"
  using assms(2)
proof (induction ds)
  case Nil
  then show ?case using assms(1) by (simp add: is_entry_file_def node_len_def)
next
  case (Cons d ds)
  obtain a n where d: "d = (a, n)" by fastforce
  show ?case
  proof (cases "a = k")
    case True
    then show ?thesis using Cons.prems assms(1) d by (simp add: is_entry_file_def node_len_def)
  next
    case False
    then show ?thesis using Cons d by (cases "is_entry_file d") simp_all
  qed
qed

lemma usage_delete:
  assumes "distinct (map fst ds)" "extension k = Some ''json''" "map_of ds k = Some n" "n \<noteq> Special"
  shows "bytes_of (filter is_entry_file (AList.delete k ds)) + node_len n = bytes_of (filter is_entry_file ds)
       \<and> Suc (length (filter is_entry_file (AList.delete k ds))) = length (filter is_entry_file ds)"
  using assms(1,3)
proof (induction ds)
  case (Cons d ds)
  obtain a m where d: "d = (a, m)" by fastforce
  show ?case
  proof (cases "a = k")
    case True
    then have "AList.delete k ds = ds" using Cons.prems(1) d by (intro delete_id) auto
    then show ?thesis using Cons.prems(2) assms(2,4) d True by (simp add: is_entry_file_def)
  next
    case False
    then have "map_of ds k = Some n" using Cons.prems(2) d by simp
    then show ?thesis using Cons d False by (cases "is_entry_file d") simp_all
  qed
qed simp

definition old_bytes :: "world \<Rightarrow> string \<Rightarrow> nat" where
  "old_bytes w i = (case node_at w (entry_file i) of Some n \<Rightarrow> node_len n | None \<Rightarrow> 0)"

lemma entry_files_written:
  assumes "wf_dirs w" "is_valid_id i" "node_at w (entry_file i) \<noteq> Some Special"
  shows "bytes_of (entry_files (written (entry_file i) bs w)) + old_bytes w i = bytes_of (entry_files w) + length bs"
    and "length (entry_files (written (entry_file i) bs w))
         = length (entry_files w) + (if node_at w (entry_file i) = None then 1 else 0)"
proof -
  let ?w = "del_node (tmp_path (entry_file i)) w"
  have node: "node_at ?w (entry_file i) = node_at w (entry_file i)" using assms(2) by simp
  have m: "map_of (dirs ?w EntriesDir) (i @ ''.json'') = node_at w (entry_file i)"
    using node by (simp add: node_at_def entry_file_def)
  have f: "entry_files (written (entry_file i) bs w)
      = filter is_entry_file (AList.update (i @ ''.json'') (Regular bs) (dirs ?w EntriesDir))"
    by (simp add: entry_files_def written_def entry_file_def set_node_def)
  note u = usage_update [OF entry_file_name(2) [OF assms(2)], of "dirs ?w EntriesDir" bs, unfolded m, OF assms(3)]
  have e: "filter is_entry_file (dirs ?w EntriesDir) = entry_files w"
    using entry_files_tmp [OF assms(2)] by (simp add: entry_files_def)
  show "bytes_of (entry_files (written (entry_file i) bs w)) + old_bytes w i = bytes_of (entry_files w) + length bs"
    using u by (simp add: f e old_bytes_def)
  show "length (entry_files (written (entry_file i) bs w))
         = length (entry_files w) + (if node_at w (entry_file i) = None then 1 else 0)"
    using u by (simp add: f e)
qed

lemma sat_add_le_iff: "x + sat_add a b \<le> MAX_QUEUE_BYTES \<longleftrightarrow> x + (a + b) \<le> MAX_QUEUE_BYTES"
  by (auto simp: sat_add_def limits min_def)

lemma sat_add_twice_le_iff:
  "x + sat_add (sat_add a b) c \<le> MAX_QUEUE_BYTES \<longleftrightarrow> x + (a + b + c) \<le> MAX_QUEUE_BYTES"
  by (auto simp: sat_add_def limits min_def)

text \<open>The headroom of the entry a rewrite replaces.\<close>

definition old_headroom :: "ext \<Rightarrow> world \<Rightarrow> string \<Rightarrow> nat" where
  "old_headroom X w i =
     (case node_at w (entry_file i) of
        None \<Rightarrow> 0
      | Some n \<Rightarrow> (case decode_node X n of None \<Rightarrow> 0 | Some e \<Rightarrow> entry_headroom X e))"

text \<open>When a write is admitted.\<close>

definition admitted :: "ext \<Rightarrow> stored_entry \<Rightarrow> queue_usage \<Rightarrow> string \<Rightarrow> world \<Rightarrow> bool" where
  "admitted X e u bs w \<longleftrightarrow>
     (let old = node_at w (entry_file (ident e)) in
      is_valid_id (ident e) \<and> old \<noteq> Some Special \<and> node_at w (tmp_path (entry_file (ident e))) \<noteq> Some Special
      \<and> entry_count u + (if old = None then 1 else 0) \<le> MAX_QUEUE_ENTRIES
      \<and> length bs \<le> (if old = None then MAX_ENTRY_BYTES - ENTRY_MUTATION_HEADROOM_BYTES else MAX_ENTRY_BYTES)
      \<and> (case old of None \<Rightarrow> True | Some n \<Rightarrow> decode_node X n \<noteq> None)
      \<and> (bytes u - old_bytes w (ident e))
          + (length bs + (headroom_bytes u - old_headroom X w (ident e)) + entry_headroom X e) \<le> MAX_QUEUE_BYTES)"

lemma write_new_quiet:
  assumes w: "quiet w" and v: "entry_to_vec_pretty X e = Inr bs" and i: "is_valid_id (ident e)"
    and new: "node_at w (entry_file (ident e)) = None"
  shows "if admitted X e u bs w
         then write_entry_with_usage X e u w = (Inr (), written (entry_file (ident e)) bs w)
         else \<exists>er. write_entry_with_usage X e u w = (Inl er, w)"
  using assms
  by (auto simp: write_entry_with_usage_def run_simps entry_path_run admitted_def Let_def not_found_def
      ensure_entry_size_run ensure_queue_bytes_run sat_add_twice_le_iff write_atomic_quiet old_bytes_def
      old_headroom_def)

lemma write_old_quiet:
  assumes w: "quiet w" and v: "entry_to_vec_pretty X e = Inr bs" and i: "is_valid_id (ident e)"
    and old: "node_at w (entry_file (ident e)) = Some (Regular obs)"
  shows "if admitted X e u bs w
         then write_entry_with_usage X e u w = (Inr (), written (entry_file (ident e)) bs w)
         else \<exists>er. write_entry_with_usage X e u w = (Inl er, w)"
proof (cases "decode_node X (Regular obs)")
  case None
  then obtain er where er: "read_entry X (entry_file (ident e)) w = (Inl er, w)"
    using read_entry_decode [OF w old, of X] by (metis option.discI prod.collapse sum.exhaust)
  have "\<exists>er. write_entry_with_usage X e u w = (Inl er, w)"
    using w v i old er
    by (auto simp: write_entry_with_usage_def run_simps entry_path_run Let_def node_len_def
        ensure_entry_size_run)
  moreover have "\<not> admitted X e u bs w" using None old by (simp add: admitted_def)
  ultimately show ?thesis by simp
next
  case (Some prev)
  then have rd: "read_entry X (entry_file (ident e)) w = (Inr prev, w)"
    using read_entry_decode [OF w old, of X] by (metis prod.collapse)
  have sz: "old_bytes w (ident e) = length obs" "old_headroom X w (ident e) = entry_headroom X prev"
    using old Some by (simp_all add: old_bytes_def old_headroom_def node_len_def)
  show ?thesis
    using w v i old rd Some
    by (auto simp: write_entry_with_usage_def run_simps entry_path_run Let_def node_len_def admitted_def sz
        ensure_entry_size_run ensure_queue_bytes_run sat_add_twice_le_iff write_atomic_quiet)
qed

text \<open>A write without failures is admitted and replaces the entry's file, or it changes nothing.\<close>

lemma write_entry_with_usage_quiet:
  assumes w: "quiet w" and v: "entry_to_vec_pretty X e = Inr bs"
  shows "if admitted X e u bs w
         then write_entry_with_usage X e u w = (Inr (), written (entry_file (ident e)) bs w)
         else \<exists>er. write_entry_with_usage X e u w = (Inl er, w)"
proof (cases "is_valid_id (ident e)")
  case True
  show ?thesis
  proof (cases "node_at w (entry_file (ident e))")
    case None
    then show ?thesis by (rule write_new_quiet [OF w v True])
  next
    case (Some n)
    show ?thesis
    proof (cases n)
      case (Regular obs)
      then show ?thesis using write_old_quiet [OF w v True] Some by simp
    next
      case Special
      then show ?thesis using w v True Some
        by (auto simp: write_entry_with_usage_def run_simps entry_path_run Let_def admitted_def)
    qed
  qed
next
  case False
  then show ?thesis using v
    by (auto simp: write_entry_with_usage_def run_simps entry_path_run Let_def admitted_def)
qed

section \<open>The invariant of the queue directory\<close>

text \<open>What the store writes: orders are 64-bit, claims and incarnations are UUIDs or absent.\<close>

definition typed_entry :: "ext \<Rightarrow> stored_entry \<Rightarrow> bool" where
  "typed_entry X e \<longleftrightarrow>
     i64_min \<le> order e \<and> order e \<le> i64_max
     \<and> (case claim_token e of None \<Rightarrow> True | Some t \<Rightarrow> encoded_length X t = 38)
     \<and> (incarnation e \<noteq> [] \<longrightarrow> encoded_length X (incarnation e) = 38)"

text \<open>The bytes of the three mutable fields and the room reserved for them add up to a constant, which
  is why rewriting an admitted entry never needs more than was reserved.\<close>

lemma field_bytes_headroom:
  assumes "typed_entry X e" "uuid_law X"
  shows "field_bytes X e + entry_headroom X e = 142"
    and "field_bytes X e + maximum_mutation_growth X e = 115"
proof -
  let ?n = "length (show_int (order e))"
  have n: "1 \<le> ?n" "?n \<le> 20"
    using assms(1) show_int_length_pos show_int_length_le by (auto simp: typed_entry_def)
  have enc: "case claim_token e of None \<Rightarrow> True | Some t \<Rightarrow> (\<exists>v. string_to_vec X t = Inr v \<and> length v = 38)"
  proof (cases "claim_token e")
    case (Some t)
    obtain v where "string_to_vec X t = Inr v" using assms(2) by (auto simp: uuid_law_def)
    then show ?thesis using assms(1) Some by (simp add: typed_entry_def encoded_length_def)
  qed simp
  have small: "a \<le> 200 \<Longrightarrow> b \<le> 200 \<Longrightarrow> sat_add a b = a + b" for a b
    by (rule sat_add_exact) (simp add: limits)
  show "field_bytes X e + entry_headroom X e = 142"
    using n enc assms(1)
    by (auto simp: field_bytes_def entry_headroom_def incarnation_growth_def typed_entry_def Let_def small
        encoded_length_def ENTRY_MUTATION_HEADROOM_BYTES_def split: option.splits)
  show "field_bytes X e + maximum_mutation_growth X e = 115"
    using n enc assms(1)
    by (auto simp: field_bytes_def maximum_mutation_growth_def incarnation_growth_def typed_entry_def Let_def
        small encoded_length_def split: option.splits)
qed

definition all_regular :: "world \<Rightarrow> bool" where
  "all_regular w \<longleftrightarrow> (\<forall>name. node_at w (EntriesDir, name) \<noteq> Some Special)"

definition canonical :: "ext \<Rightarrow> world \<Rightarrow> bool" where
  "canonical X w \<longleftrightarrow> (\<forall>e \<in> stored X w. typed_entry X e
     \<and> (\<exists>v. entry_to_vec_pretty X e = Inr v \<and> node_at w (entry_file (ident e)) = Some (Regular v)))"

definition within_budget :: "ext \<Rightarrow> world \<Rightarrow> bool" where
  "within_budget X w \<longleftrightarrow>
     bytes_of (entry_files w) + headroom_of X (stored_entries X w) \<le> MAX_QUEUE_BYTES"

definition store_inv :: "ext \<Rightarrow> world \<Rightarrow> bool" where
  "store_inv X w \<longleftrightarrow> wf_dirs w \<and> all_regular w \<and> canonical X w \<and> fits X w \<and> within_budget X w"

lemma store_invD:
  assumes "store_inv X w"
  shows "wf_dirs w" "all_regular w" "canonical X w" "fits X w" "within_budget X w"
  using assms by (simp_all add: store_inv_def)

lemma all_regularD: "all_regular w \<Longrightarrow> node_at w (entry_file i) \<noteq> Some Special"
  "all_regular w \<Longrightarrow> is_valid_id i \<Longrightarrow> node_at w (tmp_path (entry_file i)) \<noteq> Some Special"
  by (simp_all add: all_regular_def entry_file_def tmp_path_def)

lemma all_regular_written: "all_regular w \<Longrightarrow> all_regular (written p bs w)"
  by (simp add: all_regular_def written_def)

lemma headroom_sum:
  assumes "wf_dirs w"
  shows "headroom_of X (stored_entries X w) = (\<Sum>e \<in> stored X w. entry_headroom X e)"
proof -
  have "distinct (stored_entries X w)"
    using distinct_stored_entries [OF assms, of X] by (simp add: distinct_map)
  then show ?thesis
    by (simp add: headroom_of_def sum_list_distinct_conv_sum_set set_stored_entries [OF assms])
qed

lemma finite_stored: "wf_dirs w \<Longrightarrow> finite (stored X w)"
  by (metis List.finite_set set_stored_entries)

lemma headroom_replaced:
  assumes wf: "wf_dirs w" and v: "is_valid_id (ident e)" "entry_from_slice X bs = Inr e" "length bs \<le> MAX_ENTRY_BYTES"
    and old: "old_headroom X w (ident e) = (\<Sum>x \<in> {x \<in> stored X w. ident x = ident e}. entry_headroom X x)"
  shows "headroom_of X (stored_entries X (written (entry_file (ident e)) bs w)) + old_headroom X w (ident e)
    = headroom_of X (stored_entries X w) + entry_headroom X e"
proof -
  let ?f = "entry_headroom X" and ?k = "{x \<in> stored X w. ident x \<noteq> ident e}" and ?o = "{x \<in> stored X w. ident x = ident e}"
  have fin: "finite (stored X w)" by (rule finite_stored [OF wf])
  have "sum ?f (?k \<union> ?o) = sum ?f ?k + sum ?f ?o" using fin by (intro sum.union_disjoint) auto
  moreover have "?k \<union> ?o = stored X w" by auto
  ultimately have "sum ?f (stored X w) = sum ?f ?k + sum ?f ?o" by simp
  moreover have "sum ?f (insert e ?k) = ?f e + sum ?f ?k" using fin by simp
  ultimately show ?thesis
    using wf old by (simp add: headroom_sum stored_written [OF v])
qed

lemma old_headroom_sum:
  assumes "wf_dirs w" "node_at w (entry_file i) = None \<or> (\<exists>x \<in> stored X w. ident x = i)"
  shows "old_headroom X w i = (\<Sum>x \<in> {x \<in> stored X w. ident x = i}. entry_headroom X x)"
proof (cases "\<exists>x \<in> stored X w. ident x = i")
  case True
  then obtain x where x: "x \<in> stored X w" "ident x = i" by blast
  then have "{y \<in> stored X w. ident y = i} = {x}" using stored_same_ident by blast
  moreover have "old_headroom X w i = entry_headroom X x" using x by (auto simp: old_headroom_def stored_def)
  ultimately show ?thesis by simp
next
  case False
  then have none: "{x \<in> stored X w. ident x = i} = {}" by auto
  show ?thesis unfolding none using assms(2) False by (auto simp: old_headroom_def)
qed

lemma entry_files_node: "wf_dirs w \<Longrightarrow> d \<in> set (entry_files w) \<Longrightarrow> node_at w (EntriesDir, fst d) = Some (snd d)"
  by (simp add: entry_files_def dirs_nodes)

lemma node_entry_file:
  assumes "node_at w (EntriesDir, name) = Some n" "is_entry_file (name, n)"
  shows "(name, n) \<in> set (entry_files w)"
  using assms by (auto simp: node_at_def entry_files_def dest: map_of_SomeD)

text \<open>An admitted write of a well-typed entry keeps the invariant.\<close>

lemma required_written:
  assumes wf: "wf_dirs w" and fit: "list_all (\<lambda>d. required_bytes X d \<le> MAX_ENTRY_BYTES) (entry_files w)"
    and v: "is_valid_id (ident e)" "entry_from_slice X bs = Inr e"
    and room: "length bs + maximum_mutation_growth X e \<le> MAX_ENTRY_BYTES"
  shows "list_all (\<lambda>d. required_bytes X d \<le> MAX_ENTRY_BYTES) (entry_files (written (entry_file (ident e)) bs w))"
  unfolding list_all_iff
proof
  let ?w = "written (entry_file (ident e)) bs w"
  fix d assume d: "d \<in> set (entry_files ?w)"
  have node: "node_at ?w (EntriesDir, fst d) = Some (snd d)" and isf: "is_entry_file d"
    using entry_files_node [of ?w d] wf d by (simp_all add: entry_files_def)
  show "required_bytes X d \<le> MAX_ENTRY_BYTES"
  proof (cases "fst d = ident e @ ''.json''")
    case True
    then have "snd d = Regular bs"
      using node node_at_written [OF v(1), of bs w "ident e"] by (simp add: entry_file_def)
    then have "stored_at X d = Some e"
      using True v room stored_at_file [of e X "Regular bs"] by (cases d) (simp add: decode_node_def)
    then have "required_bytes X d \<le> length bs + maximum_mutation_growth X e"
      using \<open>snd d = Regular bs\<close> by (simp add: required_bytes_def node_len_def sat_add_def)
    then show ?thesis using room by linarith
  next
    case False
    have "fst d \<noteq> ident e @ ''.tmp''" using isf tmp_not_entry_file [OF v(1), of "snd d"] by (cases d) auto
    then have "node_at w (EntriesDir, fst d) = Some (snd d)"
      using node False v(1) by (simp add: written_def tmp_entry_file) (simp add: entry_file_def)
    then have "d \<in> set (entry_files w)" using node_entry_file [of w "fst d" "snd d"] isf by simp
    then show ?thesis using fit by (simp add: list_all_iff)
  qed
qed

lemma canonical_written:
  assumes "canonical X w" "typed_entry X e" "entry_to_vec_pretty X e = Inr bs" "entry_from_slice X bs = Inr e"
    and "is_valid_id (ident e)" "length bs \<le> MAX_ENTRY_BYTES"
  shows "canonical X (written (entry_file (ident e)) bs w)"
  using assms by (auto simp: canonical_def stored_written node_at_written)

lemma old_bytes_le:
  assumes "wf_dirs w" "is_valid_id i" "node_at w (entry_file i) \<noteq> Some Special"
  shows "old_bytes w i \<le> bytes_of (entry_files w)"
proof (cases "node_at w (entry_file i)")
  case (Some n)
  then have "(i @ ''.json'', n) \<in> set (entry_files w)"
    using assms by (intro node_entry_file) (auto simp: entry_file_def is_entry_file_def entry_file_name)
  then have "node_len n \<le> bytes_of (entry_files w)"
    unfolding bytes_of_def by (intro member_le_sum_list) force+
  then show ?thesis using Some by (simp add: old_bytes_def)
qed (simp add: old_bytes_def)

lemma store_inv_written:
  assumes inv: "store_inv X w" and adm: "admitted X e (usage_of X w) bs w"
    and e: "typed_entry X e" "entry_to_vec_pretty X e = Inr bs" "entry_from_slice X bs = Inr e"
    and old: "node_at w (entry_file (ident e)) = None \<or> (\<exists>x \<in> stored X w. ident x = ident e)"
    and room: "length bs + maximum_mutation_growth X e \<le> MAX_ENTRY_BYTES"
  shows "store_inv X (written (entry_file (ident e)) bs w)"
proof -
  let ?w = "written (entry_file (ident e)) bs w" and ?i = "ident e"
  note inv' = store_invD [OF inv]
  have i: "is_valid_id ?i" and reg: "node_at w (entry_file ?i) \<noteq> Some Special"
    and cnt: "entry_count (usage_of X w) + (if node_at w (entry_file ?i) = None then 1 else 0) \<le> MAX_QUEUE_ENTRIES"
    and bud: "(bytes (usage_of X w) - old_bytes w ?i)
          + (length bs + (headroom_bytes (usage_of X w) - old_headroom X w ?i) + entry_headroom X e) \<le> MAX_QUEUE_BYTES"
    using adm unfolding admitted_def Let_def by blast+
  have len: "length bs \<le> MAX_ENTRY_BYTES" using room by linarith
  note files = entry_files_written [OF inv'(1) i reg, of bs]
  have ob: "old_bytes w ?i \<le> bytes_of (entry_files w)" by (rule old_bytes_le [OF inv'(1) i reg])
  note oh = old_headroom_sum [OF inv'(1) old]
  note head = headroom_replaced [OF inv'(1) i e(3) len oh]
  have "old_headroom X w ?i \<le> headroom_of X (stored_entries X w)"
    unfolding oh headroom_sum [OF inv'(1)] by (intro sum_mono2 finite_stored inv') auto
  then have budget: "within_budget X ?w"
    using bud files(1) head ob by (simp add: within_budget_def usage_of_def)
  have "fits X ?w"
    using files cnt budget required_written [OF inv'(1) _ i e(3) room] inv'(4)
    by (auto simp: fits_def usage_of_def within_budget_def split: if_splits)
  then show ?thesis
    using inv' budget canonical_written [OF inv'(3) e i len] all_regular_written
    by (simp add: store_inv_def)
qed

text \<open>The parameters' laws, gathered.\<close>

definition store_laws :: "ext \<Rightarrow> bool" where
  "store_laws X \<longleftrightarrow> entry_codec X \<and> entry_sizes X \<and> uuid_law X"

lemma store_lawsD:
  assumes "store_laws X"
  shows "entry_codec X" "entry_sizes X" "uuid_law X"
    and "entry_to_vec_pretty X e = Inr v \<Longrightarrow> entry_from_slice X v = Inr e"
    and "\<exists>v. entry_to_vec_pretty X e = Inr v"
proof -
  show "entry_codec X" "entry_sizes X" "uuid_law X" using assms by (simp_all add: store_laws_def)
  then show "\<exists>v. entry_to_vec_pretty X e = Inr v" by (auto simp: entry_codec_def)
  show "entry_to_vec_pretty X e = Inr v \<Longrightarrow> entry_from_slice X v = Inr e"
    using \<open>entry_codec X\<close> unfolding entry_codec_def by (metis Inr_inject)
qed

text \<open>An entry that differs from a stored one only in what claims, releases, reorderings and
  start-up recovery change.\<close>

definition revises :: "ext \<Rightarrow> stored_entry \<Rightarrow> stored_entry \<Rightarrow> bool" where
  "revises X e e' \<longleftrightarrow> typed_entry X e'
     \<and> e' = e\<lparr>order := order e', claim_token := claim_token e', incarnation := incarnation e'\<rparr>"

lemma revises_fields:
  assumes "revises X e e'"
  shows "ident e' = ident e" "request e' = request e" "enqueued_at e' = enqueued_at e"
    "not_before e' = not_before e" "flutter_seconds e' = flutter_seconds e" "typed_entry X e'"
proof -
  have eq: "e' = e\<lparr>order := order e', claim_token := claim_token e', incarnation := incarnation e'\<rparr>"
    and t: "typed_entry X e'" using assms by (simp_all add: revises_def)
  show "ident e' = ident e" "request e' = request e" "enqueued_at e' = enqueued_at e"
    "not_before e' = not_before e" "flutter_seconds e' = flutter_seconds e" by (subst eq, simp)+
  show "typed_entry X e'" by (rule t)
qed

lemma revised_size:
  assumes laws: "store_laws X" and rev: "revises X e e'" and e: "typed_entry X e"
    and v: "entry_to_vec_pretty X e = Inr v" "entry_to_vec_pretty X e' = Inr v'"
  shows "length v' + entry_headroom X e' = length v + entry_headroom X e"
    and "length v' + maximum_mutation_growth X e' = length v + maximum_mutation_growth X e"
proof -
  have eq: "e\<lparr>order := order e', claim_token := claim_token e', incarnation := incarnation e'\<rparr> = e'"
    using rev by (simp add: revises_def)
  have "length v' + field_bytes X e = length v + field_bytes X e'"
    using store_lawsD(2) [OF laws] v unfolding entry_sizes_def
    by (metis eq)
  then show "length v' + entry_headroom X e' = length v + entry_headroom X e"
    "length v' + maximum_mutation_growth X e' = length v + maximum_mutation_growth X e"
    using field_bytes_headroom [OF e store_lawsD(3) [OF laws]]
      field_bytes_headroom [OF revises_fields(6) [OF rev] store_lawsD(3) [OF laws]] by linarith+
qed

lemma canonicalD:
  assumes "canonical X w" "e \<in> stored X w"
  obtains v where "typed_entry X e" "entry_to_vec_pretty X e = Inr v"
    "node_at w (entry_file (ident e)) = Some (Regular v)"
  using assms by (auto simp: canonical_def)

lemma required_stored:
  assumes "wf_dirs w" "fits X w" "e \<in> stored X w" "node_at w (entry_file (ident e)) = Some (Regular v)"
  shows "length v + maximum_mutation_growth X e \<le> MAX_ENTRY_BYTES"
proof -
  have e: "is_valid_id (ident e)" "decode_node X (Regular v) = Some e"
    using assms(3,4) by (auto simp: stored_def)
  then have st: "stored_at X (ident e @ ''.json'', Regular v) = Some e" by (rule stored_at_file)
  then have "(ident e @ ''.json'', Regular v) \<in> set (entry_files w)"
    using assms(4) by (intro node_entry_file) (auto simp: entry_file_def stored_at_def split: if_splits)
  then have "sat_add (length v) (maximum_mutation_growth X e) \<le> MAX_ENTRY_BYTES"
    using assms(2) st by (auto simp: fits_def list_all_iff required_bytes_def node_len_def)
  then show ?thesis by (auto simp: sat_add_def limits min_def split: if_splits)
qed

lemma revision_admitted:
  assumes laws: "store_laws X" and inv: "store_inv X w" and e: "e \<in> stored X w" and rev: "revises X e e'"
    and v': "entry_to_vec_pretty X e' = Inr v'"
  shows "admitted X e' (usage_of X w) v' w" and "length v' + maximum_mutation_growth X e' \<le> MAX_ENTRY_BYTES"
proof -
  note inv' = store_invD [OF inv] and f = revises_fields [OF rev]
  obtain v where v: "typed_entry X e" "entry_to_vec_pretty X e = Inr v"
      "node_at w (entry_file (ident e)) = Some (Regular v)"
    using canonicalD [OF inv'(3) e] .
  note sz = revised_size [OF laws rev v(1,2) v']
  have req: "length v + maximum_mutation_growth X e \<le> MAX_ENTRY_BYTES"
    by (rule required_stored [OF inv'(1,4) e v(3)])
  then show "length v' + maximum_mutation_growth X e' \<le> MAX_ENTRY_BYTES" using sz by linarith
  have i: "is_valid_id (ident e)" and d: "decode_node X (Regular v) = Some e"
    using e v(3) by (auto simp: stored_def)
  have ob: "old_bytes w (ident e) = length v" and oh: "old_headroom X w (ident e) = entry_headroom X e"
    using v(3) d by (simp_all add: old_bytes_def old_headroom_def node_len_def)
  have "length v \<le> bytes_of (entry_files w)"
    using old_bytes_le [OF inv'(1) i] v(3) ob by simp
  moreover have "entry_headroom X e \<le> headroom_of X (stored_entries X w)"
    unfolding headroom_sum [OF inv'(1)] using finite_stored [OF inv'(1)] e by (intro member_le_sum) auto
  moreover have "bytes_of (entry_files w) + headroom_of X (stored_entries X w) \<le> MAX_QUEUE_BYTES"
    using inv'(5) by (simp add: within_budget_def)
  ultimately have "(bytes_of (entry_files w) - length v)
      + (length v' + (headroom_of X (stored_entries X w) - entry_headroom X e) + entry_headroom X e') \<le> MAX_QUEUE_BYTES"
    using sz(1) by linarith
  then show "admitted X e' (usage_of X w) v' w"
    using i v(3) d f(1) ob oh req sz(2) inv'(4) all_regularD [OF inv'(2)]
    by (simp add: admitted_def Let_def usage_of_def fits_def)
qed

lemma write_entry_quiet:
  assumes "quiet w" "store_inv X w"
  shows "write_entry X e w = write_entry_with_usage X e (usage_of X w) w"
  using entries_with_usage_quiet [OF assms(1), of X] store_invD [OF assms(2)] assms(1)
  by (simp add: write_entry_def run_simps)

text \<open>Rewriting a stored entry always succeeds: the budget reserved at admission covers every claim,
  release, reordering and repair.\<close>

lemma write_revision:
  assumes laws: "store_laws X" and w: "quiet w" and inv: "store_inv X w"
    and e: "e \<in> stored X w" and rev: "revises X e e'"
  obtains v where "entry_to_vec_pretty X e' = Inr v"
    "write_entry X e' w = (Inr (), written (entry_file (ident e)) v w)"
    "store_inv X (written (entry_file (ident e)) v w)"
    "stored X (written (entry_file (ident e)) v w) = insert e' (stored X w - {e})"
proof -
  note f = revises_fields [OF rev]
  obtain v where v: "entry_to_vec_pretty X e' = Inr v" using store_lawsD(5) [OF laws] by blast
  note adm = revision_admitted [OF laws inv e rev v]
  have from_v: "entry_from_slice X v = Inr e'" by (rule store_lawsD(4) [OF laws v])
  have i: "is_valid_id (ident e')" using e f(1) by (simp add: stored_def)
  have "write_entry X e' w = (Inr (), written (entry_file (ident e)) v w)"
    using write_entry_with_usage_quiet [OF w v, of "usage_of X w"] adm(1) write_entry_quiet [OF w inv] f(1)
    by simp
  moreover have "store_inv X (written (entry_file (ident e)) v w)"
    using store_inv_written [OF inv adm(1) f(6) v from_v _ adm(2)] e f(1) by auto
  moreover have "stored X (written (entry_file (ident e)) v w) = insert e' (stored X w - {e})"
  proof -
    have "{x \<in> stored X w. ident x \<noteq> ident e'} = stored X w - {e}"
      using e f(1) stored_same_ident by fastforce
    then show ?thesis using stored_written [OF i from_v, of w] adm(2) f(1) by simp
  qed
  ultimately show ?thesis using that v by blast
qed

section \<open>A concrete queue\<close>

text \<open>An empty queue directory, one entry, and the directory that holds it, under the reference codec.\<close>

definition empty_world :: world where
  "empty_world = \<lparr>dirs = (\<lambda>_. []), script = [], uuids_used = 0\<rparr>"

definition sample_request :: comment_request where
  "sample_request = \<lparr>owner = ''octo'', repo = ''cat'', pr_number = 7, body = ''hello''\<rparr>"

definition sample_entry :: stored_entry where
  "sample_entry = \<lparr>ident = ''0000abcd'', incarnation = ref_uuid 0, order = 0, flutter_seconds = 0,
     enqueued_at = 100, not_before = 0, claim_token = None, request = sample_request\<rparr>"

definition sample_bytes :: string where
  "sample_bytes = enc_entry sample_entry @ ''}''"

definition sample_world :: world where
  "sample_world = written (entry_file (ident sample_entry)) sample_bytes empty_world"

lemma ref_store_laws: "store_laws ref_ext"
  by (simp add: store_laws_def ref_entry_codec ref_entry_sizes ref_uuid_law)

lemma empty_world_simps [simp]:
  "node_at empty_world p = None" "wf_dirs empty_world" "quiet empty_world" "stored X empty_world = {}"
  "entry_files empty_world = []" "stored_entries X empty_world = []"
  by (simp_all add: empty_world_def node_at_def wf_dirs_def stored_def entry_files_def stored_entries_def
      map_filter_simps)

lemma store_inv_empty: "store_inv X empty_world"
  by (simp add: store_inv_def all_regular_def canonical_def fits_def within_budget_def)

lemma sample_encoded:
  "entry_to_vec_pretty ref_ext sample_entry = Inr sample_bytes"
  "entry_from_slice ref_ext sample_bytes = Inr sample_entry"
  using of_to_doc [OF prefix_code_entry, of sample_entry]
  by (simp_all add: ref_ext_def to_doc_def sample_bytes_def)

lemma sample_id: "is_valid_id (ident sample_entry)"
  by (simp add: sample_entry_def is_valid_id_def is_ascii_hexdigit_def is_ascii_digit_def byte_def)

lemma sample_typed: "typed_entry ref_ext sample_entry"
  using ref_uuid_law by (simp add: typed_entry_def sample_entry_def limits uuid_law_def ref_ext_def)

lemma sample_length: "length sample_bytes \<le> 1000"
  by code_simp

lemma sample_headroom: "entry_headroom ref_ext sample_entry \<le> 137"
  by (rule entry_headroom_le)

lemma sample_growth: "maximum_mutation_growth ref_ext sample_entry \<le> 115"
  using field_bytes_headroom(2) [OF sample_typed ref_uuid_law] by linarith

lemma sample_admitted: "admitted ref_ext sample_entry (usage_of ref_ext empty_world) sample_bytes empty_world"
  using sample_id sample_length sample_headroom
  by (simp add: admitted_def usage_of_def old_bytes_def old_headroom_def limits)

lemma sample_inv: "store_inv ref_ext sample_world"
  unfolding sample_world_def
  using store_inv_written [OF store_inv_empty sample_admitted sample_typed sample_encoded]
    sample_length sample_growth by (simp add: limits)

lemma sample_stored: "stored ref_ext sample_world = {sample_entry}"
  unfolding sample_world_def
  using stored_written [OF sample_id sample_encoded(2), of empty_world] sample_length by (simp add: limits)

lemma sample_quiet [simp]: "quiet sample_world"
  by (simp add: sample_world_def)

lemma sample_dirs:
  "dirs sample_world EntriesDir = [(''0000abcd.json'', Regular sample_bytes)]"
  "d \<noteq> EntriesDir \<Longrightarrow> dirs sample_world d = []"
  by (simp_all add: sample_world_def written_def entry_file_def sample_entry_def set_node_def del_node_def
      tmp_path_def empty_world_def)

section \<open>Properties\<close>

text \<open>C7. Replacing a file is atomic under every sequence of operating-system failures, torn writes
  included: afterwards the target holds its previous content or all of the new content, a
  reported success means the new content is there and the temporary sibling is gone, and no
  other file is touched.\<close>

theorem write_atomic_crash_safe:
  assumes "write_atomic p bs w = (r, w')" and "tmp_path p \<noteq> p"
  shows "node_at w' p \<in> {node_at w p, Some (Regular bs)}
    \<and> (r = Inr () \<longrightarrow> node_at w' p = Some (Regular bs) \<and> node_at w' (tmp_path p) = None)
    \<and> (\<forall>q. q \<noteq> p \<and> q \<noteq> tmp_path p \<longrightarrow> node_at w' q = node_at w q)"
proof -
  have t: "touches {p, tmp_path p} (write_atomic p bs)" by (rule write_atomic_touches) simp_all
  show ?thesis
    using write_atomic_outcome [OF assms] touchesD(1) [OF t assms(1)] by auto
qed

text \<open>The witness tears the write of the temporary file after three bytes.\<close>

theorem write_atomic_crash_safe_witness:
  "\<exists>r w'. write_atomic last_post_path ''12345'' (empty_world\<lparr>script := [None, Some (not_found, 3)]\<rparr>) = (r, w')
     \<and> node_at w' last_post_path \<in> {None, Some (Regular ''12345'')} \<and> r = Inl (Io not_found)"
proof -
  let ?w = "empty_world\<lparr>script := [None, Some (not_found, 3)]\<rparr>"
  obtain r w' where run: "write_atomic last_post_path ''12345'' ?w = (r, w')" by fastforce
  have ne: "tmp_path last_post_path \<noteq> last_post_path"
    by (simp add: tmp_path_def last_post_path_def with_extension_def file_stem_def rsplit_dot_def)
  have "r = Inl (Io not_found)"
    using run by (simp add: write_atomic_def and_then_def map_error_def fs_create_def fs_write_all_def syscall_def)
  then show ?thesis using run write_atomic_crash_safe [OF run ne] by auto
qed

text \<open>C15. Listing the queue, when it succeeds, yields exactly the entries a lookup by identifier
  finds, each once, in posting order: by explicit order, then enqueue time, then identifier.\<close>

theorem entries_complete:
  assumes "quiet w" "wf_dirs w" "entries X w = (Inr es, w')"
  shows "w' = w \<and> sorted (map entry_key es) \<and> distinct (map ident es)
    \<and> set es = {e. find_entry X (ident e) w = (Inr e, w)}"
proof -
  have run: "if fits X w then entries_with_usage X w = (Inr (pending_list X w, usage_of X w), w)
      else \<exists>e. entries_with_usage X w = (Inl e, w) \<and> is_limit_error e"
    by (rule entries_with_usage_quiet [OF assms(1,2)])
  then have "es = pending_list X w \<and> w' = w"
    using assms(3) by (cases "fits X w") (auto simp: entries_def run_simps)
  then show ?thesis
    using sorted_pending_list [of X w] distinct_pending_list(1) [OF assms(2), of X] set_pending_list [OF assms(2), of X]
    by (auto simp: find_entry_stored [OF assms(1)])
qed

theorem entries_complete_witness:
  "\<exists>es. entries ref_ext sample_world = (Inr es, sample_world)
     \<and> set es = {e. find_entry ref_ext (ident e) sample_world = (Inr e, sample_world)} \<and> es = [sample_entry]"
proof -
  have wf: "wf_dirs sample_world" and fit: "fits ref_ext sample_world" using store_invD [OF sample_inv] by blast+
  let ?es = "pending_list ref_ext sample_world"
  have run: "entries ref_ext sample_world = (Inr ?es, sample_world)"
    using entries_with_usage_quiet [OF sample_quiet wf, of ref_ext] fit by (simp add: entries_def run_simps)
  have "?es = [sample_entry]" by (rule pending_listI [OF wf]) (simp_all add: sample_stored)
  then show ?thesis using run entries_complete [OF sample_quiet wf run] by blast
qed

text \<open>C16. The headroom reserved when an entry is admitted covers every later rewrite: in a queue that
  satisfies the store's invariant, claiming, releasing, reordering or repairing any entry is
  never refused for lack of space, keeps the invariant, and replaces that entry only.\<close>

theorem revision_never_refused:
  assumes "store_laws X" "quiet w" "store_inv X w" "e \<in> stored X w" "revises X e e'"
  shows "\<exists>w'. write_entry X e' w = (Inr (), w') \<and> quiet w' \<and> store_inv X w'
    \<and> stored X w' = insert e' (stored X w - {e})"
  using write_revision [OF assms] assms(2) by (metis script_written)

theorem revision_never_refused_witness:
  "\<exists>w'. write_entry ref_ext (sample_entry\<lparr>order := -5, claim_token := Some (ref_uuid 1)\<rparr>) sample_world = (Inr (), w')
     \<and> stored ref_ext w' = {sample_entry\<lparr>order := -5, claim_token := Some (ref_uuid 1)\<rparr>}"
proof -
  let ?e = "sample_entry\<lparr>order := -5, claim_token := Some (ref_uuid 1)\<rparr>"
  have "encoded_length ref_ext (ref_uuid n) = 38" for n
    using ref_uuid_law by (simp add: uuid_law_def ref_ext_def)
  then have "revises ref_ext sample_entry ?e" by (simp add: revises_def typed_entry_def sample_entry_def limits)
  from revision_never_refused [OF ref_store_laws sample_quiet sample_inv _ this]
  show ?thesis by (auto simp: sample_stored)
qed

end
