(* ===== verification/Scheduling_Props.thy ===== *)
theory Scheduling_Props
  imports Scheduling Bounds_Props
begin

text \<open>
  Scheduling, enqueueing and claims: the projection keeps the order and the cooldown, the search for
  an identifier finds a free one or the same request, a put adds one entry at the tail or
  changes nothing, at most one entry is claimed at a time, and a claim is released only by its
  own token.
\<close>

section \<open>The projection\<close>

fun post_times :: "stored_entry list \<Rightarrow> u64 option \<Rightarrow> u64 \<Rightarrow> u64 \<Rightarrow> u64 list" where
  "post_times [] prev cool now = []"
| "post_times (e # es) prev cool now =
     (let t = max (max (case prev of None \<Rightarrow> now
                        | Some p \<Rightarrow> sat_add (sat_add p cool) (flutter_seconds e)) (not_before e)) now
      in t # post_times es (Some t) cool now)"

lemma projected_schedule_times:
  "projected_schedule es prev cool now = zip es (map (\<lambda>t. t - now) (post_times es prev cool now))"
  by (induction es arbitrary: prev) (simp_all add: Let_def)

lemma length_post_times [simp]: "length (post_times es prev cool now) = length es"
  by (induction es arbitrary: prev) (simp_all add: Let_def)

lemma post_times_ge: "t \<in> set (post_times es prev cool now) \<Longrightarrow> now \<le> t"
  by (induction es arbitrary: prev) (auto simp: Let_def)

lemma map_fst_projected [simp]: "map fst (projected_schedule es prev cool now) = es"
  by (simp add: projected_schedule_times)

lemma projected_post_times:
  "map (\<lambda>(_, eta). now + eta) (projected_schedule es prev cool now) = post_times es prev cool now"
  by (induction es arbitrary: prev) (simp_all add: Let_def)

lemma post_times_nth:
  assumes "i < length es"
  shows "post_times es prev cool now ! i =
    max (max (case (if i = 0 then prev else Some (post_times es prev cool now ! (i - 1))) of
                None \<Rightarrow> now
              | Some p \<Rightarrow> sat_add (sat_add p cool) (flutter_seconds (es ! i))) (not_before (es ! i))) now"
  using assms
proof (induction es arbitrary: prev i)
  case (Cons e es)
  show ?case
  proof (cases i)
    case 0
    then show ?thesis by (cases prev) (simp_all add: Let_def)
  next
    case (Suc j)
    define t where "t = post_times (e # es) prev cool now ! 0"
    have rec: "post_times (e # es) prev cool now = t # post_times es (Some t) cool now"
      by (simp add: t_def Let_def)
    show ?thesis using Cons.IH [of j "Some t"] Cons.prems Suc unfolding rec by (cases j) auto
  qed
qed simp

text \<open>The moment the cooldown, the flutter and the enqueue delay allow the \<open>i\<close>-th entry.\<close>

definition allowed :: "stored_entry list \<Rightarrow> u64 option \<Rightarrow> u64 \<Rightarrow> u64 \<Rightarrow> nat \<Rightarrow> u64 \<Rightarrow> bool" where
  "allowed es prev cool now i t \<longleftrightarrow>
     now \<le> t \<and> not_before (es ! i) \<le> t
     \<and> (case (if i = 0 then prev else Some (now + snd (projected_schedule es prev cool now ! (i - 1)))) of
          None \<Rightarrow> True
        | Some p \<Rightarrow> min (p + cool + flutter_seconds (es ! i)) u64_max \<le> t)"

lemma projected_nth:
  assumes "i < length es"
  shows "fst (projected_schedule es prev cool now ! i) = es ! i"
    and "now + snd (projected_schedule es prev cool now ! i) = post_times es prev cool now ! i"
proof -
  have "post_times es prev cool now ! i \<in> set (post_times es prev cool now)" using assms by simp
  then have "now \<le> post_times es prev cool now ! i" by (rule post_times_ge)
  then show "fst (projected_schedule es prev cool now ! i) = es ! i"
    "now + snd (projected_schedule es prev cool now ! i) = post_times es prev cool now ! i"
    using assms by (simp_all add: projected_schedule_times)
qed

lemma sat_add_twice: "sat_add (sat_add p c) f = min (p + c + f) u64_max"
  by (auto simp: sat_add_def min_def)

lemma post_time_allowed:
  assumes "i < length es"
  shows "allowed es prev cool now i (post_times es prev cool now ! i)"
    and "allowed es prev cool now i t \<Longrightarrow> post_times es prev cool now ! i \<le> t"
proof -
  define before where "before = (if i = 0 then prev else Some (post_times es prev cool now ! (i - 1)))"
  have before: "(if i = 0 then prev else Some (now + snd (projected_schedule es prev cool now ! (i - 1)))) = before"
    using assms projected_nth(2) [of "i - 1" es] by (simp add: before_def)
  have nth: "post_times es prev cool now ! i =
      max (max (case before of None \<Rightarrow> now | Some p \<Rightarrow> min (p + cool + flutter_seconds (es ! i)) u64_max)
             (not_before (es ! i))) now"
    using post_times_nth [OF assms, of prev cool now] unfolding before_def sat_add_twice .
  show "allowed es prev cool now i (post_times es prev cool now ! i)"
    unfolding allowed_def before nth by (cases before) auto
  show "allowed es prev cool now i t \<Longrightarrow> post_times es prev cool now ! i \<le> t"
    unfolding allowed_def before nth by (cases before) auto
qed

section \<open>What the queue directory's owner leaves alone\<close>

lemma stored_dirs:
  "dirs w' EntriesDir = dirs w EntriesDir \<Longrightarrow> stored X w' = stored X w"
  by (rule stored_frame) (simp add: node_at_def entry_file_def)

lemma store_inv_frame:
  assumes "dirs w' EntriesDir = dirs w EntriesDir" "wf_dirs w \<Longrightarrow> wf_dirs w'"
  shows "store_inv X w \<Longrightarrow> store_inv X w'"
proof -
  have nodes: "node_at w' (EntriesDir, n) = node_at w (EntriesDir, n)" for n
    using assms(1) by (simp add: node_at_def)
  have files: "entry_files w' = entry_files w" "stored_entries X w' = stored_entries X w"
    using assms(1) by (simp_all add: entry_files_def stored_entries_def)
  show "store_inv X w \<Longrightarrow> store_inv X w'"
    using assms(2)
    by (simp add: store_inv_def all_regular_def canonical_def fits_def within_budget_def files nodes
        stored_dirs [OF assms(1)] entry_file_def)
qed

lemma pending_list_dirs:
  "dirs w' EntriesDir = dirs w EntriesDir \<Longrightarrow> pending_list X w' = pending_list X w"
  by (simp add: pending_list_def stored_entries_def)

text \<open>The markers are files of the queue directory itself.\<close>

lemma marker_paths [simp]:
  "fst last_post_path = QueueDir" "fst last_attempt_path = QueueDir" "fst completion_path = QueueDir"
  "fst history_path = QueueDir" "fst (tmp_path p) = fst p" "fst (entry_file i) = EntriesDir"
  by (simp_all add: path_defs tmp_path_def entry_file_def)

lemma marker_tmp:
  "tmp_path last_post_path = (QueueDir, ''last_post.tmp'')"
  "tmp_path last_attempt_path = (QueueDir, ''last_attempt.tmp'')"
  "tmp_path completion_path = (QueueDir, ''completion.tmp'')"
  by (simp_all add: tmp_path_def path_defs with_extension_def file_stem_def rsplit_dot_def)

lemma marker_tmp_ne [simp]:
  "tmp_path last_post_path \<noteq> last_post_path" "tmp_path last_attempt_path \<noteq> last_attempt_path"
  "tmp_path completion_path \<noteq> completion_path"
  by (simp_all add: tmp_path_def path_defs with_extension_def file_stem_def rsplit_dot_def)

lemma written_other_dir: "d \<noteq> fst p \<Longrightarrow> dirs (written p bs w) d = dirs w d"
  by (simp add: written_def)

lemma last_marker_reads [reads]: "reads_only last_post" "reads_only last_attempt" "reads_only previous_activity"
proof -
  show a: "reads_only last_post" unfolding last_post_def by (intro reads)
  show b: "reads_only last_attempt" unfolding last_attempt_def by (intro reads)
  show "reads_only previous_activity" unfolding previous_activity_def by (intro reads a b)
qed

lemma read_entry_reads [reads]: "reads_only (read_entry X p)"
  unfolding read_entry_def ensure_entry_size_def by (intro reads)

lemma find_entry_reads [reads]: "reads_only (find_entry X i)"
  unfolding find_entry_def entry_path_def
  by (intro reads) (auto intro: reads_only_err reads_only_if split: store_error.splits)

section \<open>The search for an identifier\<close>

definition salted :: "comment_request \<Rightarrow> u64 \<Rightarrow> u64 option \<Rightarrow> string" where
  "salted req now salt = entry_id_with_salt req now salt"

lemma salted_choice:
  "(case salt of None \<Rightarrow> entry_id req now | Some v \<Rightarrow> entry_id_with_salt req now (Some v)) = salted req now salt"
  by (cases salt) (simp_all add: salted_def entry_id_def)

lemma salted_valid: "is_valid_id (salted req now salt)"
  by (simp add: salted_def entry_id_with_salt_valid)

definition next_salt :: "u64 option \<Rightarrow> u64" where
  "next_salt salt = (case salt of None \<Rightarrow> 1 | Some v \<Rightarrow> sat_add v 1)"

lemma resolve_loop_step:
  assumes "quiet w"
  shows "resolve_loop X req now salt w =
    (case find_entry X (salted req now salt) w of
       (Inr existing, _) \<Rightarrow>
         if request existing = req then Some (Inr (salted req now salt, Some existing), w)
         else resolve_loop X req now (Some (next_salt salt)) w
     | (Inl er, _) \<Rightarrow>
         (case er of UnknownId _ \<Rightarrow> Some (Inr (salted req now salt, None), w)
          | _ \<Rightarrow> Some (Inl er, w)))"
  using find_entry_result [OF assms, of X "salted req now salt"]
proof cases
  case (1 e)
  then show ?thesis by (subst resolve_loop.simps) (simp add: Let_def salted_choice next_salt_def)
next
  case (2 er)
  then show ?thesis
    by (subst resolve_loop.simps) (simp add: Let_def salted_choice split: store_error.splits)
qed

definition salt_of :: "nat \<Rightarrow> u64 option" where
  "salt_of k = (if k = 0 then None else Some k)"

lemma next_salt_of: "k < u64_max \<Longrightarrow> Some (next_salt (salt_of k)) = salt_of (Suc k)"
  by (simp add: next_salt_def salt_of_def sat_add_exact)

text \<open>The search returns as soon as one salt is free: the entry identifiers tried before it are taken
  by other requests, or end the search themselves.\<close>

lemma resolve_loop_returns:
  assumes w: "quiet w" and free: "node_at w (entry_file (salted req now (salt_of m))) = None"
    and m: "m \<le> u64_max" "k \<le> m"
  shows "\<exists>y. resolve_loop X req now (salt_of k) w = Some y"
  using m(2)
proof (induction "m - k" arbitrary: k)
  case 0
  then have "k = m" by simp
  then have "fst (find_entry X (salted req now (salt_of k)) w) = Inl (UnknownId (salted req now (salt_of k)))"
    using free find_entry_unknown [OF w] salted_valid by blast
  then show ?case
    unfolding resolve_loop_step [OF w, of X req now "salt_of k"] by (cases "find_entry X (salted req now (salt_of k)) w") simp
next
  case (Suc n)
  then have "k < u64_max" "n = m - Suc k" "Suc k \<le> m" using m(1) by auto
  then have rec: "\<exists>y. resolve_loop X req now (Some (next_salt (salt_of k))) w = Some y"
    using Suc.hyps(1) [of "Suc k"] next_salt_of by simp
  show ?case
    using find_entry_result [OF w, of X "salted req now (salt_of k)"]
  proof cases
    case (1 e)
    then show ?thesis using rec unfolding resolve_loop_step [OF w, of X req now "salt_of k"] by simp
  next
    case (2 er)
    then show ?thesis
      unfolding resolve_loop_step [OF w, of X req now "salt_of k"] by (simp split: store_error.splits)
  qed
qed

definition resolved :: "ext \<Rightarrow> world \<Rightarrow> comment_request \<Rightarrow> string \<Rightarrow> stored_entry option \<Rightarrow> bool" where
  "resolved X w req i existing \<longleftrightarrow>
     is_valid_id i
     \<and> (case existing of
          None \<Rightarrow> node_at w (entry_file i) = None
        | Some e \<Rightarrow> e \<in> stored X w \<and> ident e = i \<and> request e = req)"

lemma resolve_loop_result:
  assumes "resolve_loop X req now salt w = Some (r, w')" "quiet w"
  shows "w' = w \<and> (\<forall>i existing. r = Inr (i, existing) \<longrightarrow> resolved X w req i existing)"
proof -
  let ?P = "\<lambda>X req now salt w y. quiet w \<longrightarrow>
      snd y = w \<and> (\<forall>i existing. fst y = Inr (i, existing) \<longrightarrow> resolved X w req i existing)"
  have "?P X req now salt w (r, w')"
  proof (rule resolve_loop.raw_induct [where P = ?P, OF _ assms(1)], intro impI)
    fix rec X req now salt w y
    assume IH: "\<And>X req now salt w y. rec X req now salt w = Some y \<Longrightarrow> ?P X req now salt w y"
      and raw: "(let i = case salt of None \<Rightarrow> entry_id req now | Some value \<Rightarrow> entry_id_with_salt req now (Some value)
        in case find_entry X i w of
          (Inl (UnknownId _), w') \<Rightarrow> Some (Inr (i, None), w')
        | (Inl e, w') \<Rightarrow> Some (Inl e, w')
        | (Inr existing, w') \<Rightarrow>
            if request existing = req then Some (Inr (i, Some existing), w')
            else rec X req now (Some (case salt of None \<Rightarrow> 1 | Some value \<Rightarrow> sat_add value 1)) w') = Some y"
      and w: "quiet w"
    let ?i = "salted req now salt"
    note body = raw [unfolded salted_choice Let_def next_salt_def [symmetric]]
    show "snd y = w \<and> (\<forall>i existing. fst y = Inr (i, existing) \<longrightarrow> resolved X w req i existing)"
      using find_entry_result [OF w, of X ?i]
    proof cases
      case (1 e)
      then have e: "e \<in> stored X w" "ident e = ?i" using find_entry_stored [OF w] by blast+
      show ?thesis
      proof (cases "request e = req")
        case True
        then show ?thesis using body 1 e salted_valid [of req now salt] by (auto simp: resolved_def)
      next
        case False
        then show ?thesis using body 1 IH w by simp
      qed
    next
      case (2 er)
      show ?thesis
      proof (cases "\<exists>j. er = UnknownId j")
        case True
        then have "node_at w (entry_file ?i) = None"
          using 2 w salted_valid [of req now salt]
          by (auto simp: find_entry_quiet not_regular_def split: option.splits node.splits sum.splits if_splits)
        then show ?thesis using body 2 True salted_valid [of req now salt] by (auto simp: resolved_def)
      next
        case False
        then show ?thesis using body 2 by (auto split: store_error.splits)
      qed
    qed
  qed
  then show ?thesis using assms(2) by simp
qed

section \<open>Positions in the queue\<close>

lemma entry_key_order: "entry_key x \<le> entry_key y \<Longrightarrow> order x \<le> order y"
  by (auto simp: entry_key_def less_eq_prod_def)

lemma order_less_key: "order x < order y \<Longrightarrow> entry_key x \<le> entry_key y"
  by (simp add: entry_key_def less_eq_prod_def)

lemma sorted_bounds:
  assumes "sorted (map k xs)" "x \<in> set xs"
  shows "k (hd xs) \<le> k x" "k x \<le> k (last xs)"
proof -
  show "k (hd xs) \<le> k x" using assms by (cases xs) auto
  show "k x \<le> k (last xs)" using assms by (cases xs rule: rev_cases) (auto simp: sorted_append)
qed

lemma pending_orders:
  assumes "x \<in> set (pending_list X w)"
  shows "order (hd (pending_list X w)) \<le> order x" "order x \<le> order (last (pending_list X w))"
  using sorted_bounds [OF sorted_pending_list assms] by (auto dest: entry_key_order)

text \<open>An entry with the greatest order is last, one with the least order first.\<close>

lemma pending_list_tail:
  assumes wf: "wf_dirs w" "wf_dirs w'" and set: "stored X w' = insert e {x \<in> stored X w. ident x \<noteq> ident e}"
    and last: "\<And>x. x \<in> stored X w \<Longrightarrow> ident x \<noteq> ident e \<Longrightarrow> order x < order e"
  shows "pending_list X w' = filter (\<lambda>x. ident x \<noteq> ident e) (pending_list X w) @ [e]"
proof (rule pending_listI [OF wf(2)])
  let ?rest = "filter (\<lambda>x. ident x \<noteq> ident e) (pending_list X w)"
  show "set (?rest @ [e]) = stored X w'" using set set_pending_list [OF wf(1), of X] by auto
  show "distinct (?rest @ [e])" using distinct_pending_list(2) [OF wf(1), of X] by auto
  have "entry_key x \<le> entry_key e" if "x \<in> set ?rest" for x
    using that last set_pending_list [OF wf(1), of X] by (auto intro: order_less_key)
  then show "sorted (map entry_key (?rest @ [e]))"
    using sorted_map_filter [OF sorted_pending_list, of "\<lambda>x. ident x \<noteq> ident e" X w]
    by (simp add: sorted_append)
qed

lemma pending_list_head:
  assumes wf: "wf_dirs w" "wf_dirs w'" and set: "stored X w' = insert e {x \<in> stored X w. ident x \<noteq> ident e}"
    and first: "\<And>x. x \<in> stored X w \<Longrightarrow> ident x \<noteq> ident e \<Longrightarrow> order e < order x"
  shows "pending_list X w' = e # filter (\<lambda>x. ident x \<noteq> ident e) (pending_list X w)"
proof (rule pending_listI [OF wf(2)])
  let ?rest = "filter (\<lambda>x. ident x \<noteq> ident e) (pending_list X w)"
  show "set (e # ?rest) = stored X w'" using set set_pending_list [OF wf(1), of X] by auto
  show "distinct (e # ?rest)" using distinct_pending_list(2) [OF wf(1), of X] by auto
  have "entry_key e \<le> entry_key x" if "x \<in> set ?rest" for x
    using that first set_pending_list [OF wf(1), of X] by (auto intro: order_less_key)
  then show "sorted (map entry_key (e # ?rest))"
    using sorted_map_filter [OF sorted_pending_list, of "\<lambda>x. ident x \<noteq> ident e" X w] by simp
qed

section \<open>Enqueueing\<close>

lemma entries_with_usage_inv:
  assumes "quiet w" "store_inv X w"
  shows "entries_with_usage X w = (Inr (pending_list X w, usage_of X w), w)"
  using entries_with_usage_quiet [OF assms(1), of X] store_invD [OF assms(2)] by simp

lemma entries_inv:
  assumes "quiet w" "store_inv X w"
  shows "entries X w = (Inr (pending_list X w), w)"
  using entries_with_usage_inv [OF assms] by (simp add: entries_def run_simps)

definition drawn :: "world \<Rightarrow> world" where
  "drawn w = w\<lparr>uuids_used := Suc (uuids_used w)\<rparr>"

lemma drawn_simps [simp]:
  "dirs (drawn w) = dirs w" "script (drawn w) = script w" "node_at (drawn w) p = node_at w p"
  "wf_dirs (drawn w) = wf_dirs w" "stored X (drawn w) = stored X w" "usage_of X (drawn w) = usage_of X w"
  "pending_list X (drawn w) = pending_list X w" "store_inv X (drawn w) = store_inv X w"
proof -
  show d: "dirs (drawn w) = dirs w" "script (drawn w) = script w" by (simp_all add: drawn_def)
  show n: "node_at (drawn w) p = node_at w p" for p by (simp add: node_at_def d)
  show wf: "wf_dirs (drawn w) = wf_dirs w" by (simp add: wf_dirs_def d)
  show st: "stored X (drawn w) = stored X w" by (rule stored_dirs) (simp add: d)
  show "usage_of X (drawn w) = usage_of X w" by (simp add: usage_of_def entry_files_def stored_entries_def d)
  show "pending_list X (drawn w) = pending_list X w" by (rule pending_list_dirs) (simp add: d)
  show "store_inv X (drawn w) = store_inv X w"
    using store_inv_frame [of "drawn w" w X] store_inv_frame [of w "drawn w" X] by (simp add: d wf) blast
qed

definition new_entry :: "ext \<Rightarrow> comment_request \<Rightarrow> put_options \<Rightarrow> u64 \<Rightarrow> string \<Rightarrow> world \<Rightarrow> stored_entry" where
  "new_entry X req opts now i w =
     \<lparr>ident = i, incarnation = new_uuid X (uuids_used w),
      order = (if pending_list X w = [] then 0 else sat_add_i64 (order (last (pending_list X w))) 1),
      flutter_seconds = po_flutter_seconds opts, enqueued_at = now,
      not_before = (if immediate opts then 0 else sat_add (sat_add now (cooldown opts)) (po_flutter_seconds opts)),
      claim_token = None, request = req\<rparr>"

lemma new_entry_typed:
  assumes "uuid_law X"
  shows "typed_entry X (new_entry X req opts now i w)"
    and "maximum_mutation_growth X (new_entry X req opts now i w) \<le> ENTRY_MUTATION_HEADROOM_BYTES"
proof -
  let ?e = "new_entry X req opts now i w"
  have u: "incarnation ?e \<noteq> []" "encoded_length X (incarnation ?e) = 38"
    using assms by (simp_all add: new_entry_def uuid_law_def)
  have "i64_min \<le> 0" "0 \<le> i64_max" by (simp_all add: limits)
  then have o: "i64_min \<le> order ?e" "order ?e \<le> i64_max" by (simp_all add: new_entry_def)
  show t: "typed_entry X ?e" using u o by (simp add: typed_entry_def new_entry_def)
  have "62 \<le> field_bytes X ?e"
    using u show_int_length_pos [of "order ?e"] by (simp add: field_bytes_def) (simp add: new_entry_def)
  then show "maximum_mutation_growth X ?e \<le> ENTRY_MUTATION_HEADROOM_BYTES"
    using field_bytes_headroom(2) [OF t assms] by (simp add: limits)
qed

text \<open>A put of a request that is not queued yet: the new entry is stored, or nothing is.\<close>

lemma put_new_quiet:
  assumes laws: "store_laws X" and w: "quiet w" and inv: "store_inv X w" and res: "resolved X w req i None"
    and run: "put_resolved X req opts now i None w = (r, w')"
  defines "e \<equiv> new_entry X req opts now i w"
  shows "(\<exists>er. r = Inl er \<and> dirs w' = dirs w)
    \<or> (\<exists>eta v. r = Inr (e, eta) \<and> w' = written (entry_file i) v (drawn w) \<and> store_inv X w'
         \<and> stored X w' = insert e (stored X w)
         \<and> (\<exists>act. previous_activity w = (Inr act, w)
              \<and> eta = eta_of (projected_schedule (pending_list X w @ [e]) act (cooldown opts) now) i))"
proof -
  have i: "is_valid_id i" and free: "node_at w (entry_file i) = None" using res by (simp_all add: resolved_def)
  have id: "ident e = i" by (simp add: e_def new_entry_def)
  obtain a wa where act: "previous_activity w = (a, wa)" by fastforce
  then have wa: "wa = w" using reads_only_quiet [OF last_marker_reads(3) w] by blast
  note ew = entries_with_usage_inv [OF w inv]
  show ?thesis
  proof (cases "\<exists>act. a = Inr act \<and> length (pending_list X w) < MAX_QUEUE_ENTRIES")
    case False
    then have "\<exists>er. r = Inl er \<and> w' = w"
      using run ew act wa by (cases a) (auto simp: put_resolved_def run_simps)
    then show ?thesis by auto
  next
    case True
    then obtain ac where a: "a = Inr ac" and room: "length (pending_list X w) < MAX_QUEUE_ENTRIES" by blast
    obtain v where v: "entry_to_vec_pretty X e = Inr v" using store_lawsD(5) [OF laws] by blast
    have from_v: "entry_from_slice X v = Inr e" by (rule store_lawsD(4) [OF laws v])
    let ?eta = "eta_of (projected_schedule (pending_list X w @ [e]) ac (cooldown opts) now) i"
    have put: "put_resolved X req opts now i None w
        = and_then (write_entry_with_usage X e (usage_of X w)) (\<lambda>_. ok (e, ?eta)) (drawn w)"
      using ew act wa a room w
      by (simp add: put_resolved_def run_simps Let_def e_def new_entry_def drawn_def)
    have wr: "if admitted X e (usage_of X w) v (drawn w)
        then write_entry_with_usage X e (usage_of X w) (drawn w) = (Inr (), written (entry_file i) v (drawn w))
        else \<exists>er. write_entry_with_usage X e (usage_of X w) (drawn w) = (Inl er, drawn w)"
      using write_entry_with_usage_quiet [OF _ v, of "drawn w" "usage_of X w"] w id by simp
    show ?thesis
    proof (cases "admitted X e (usage_of X w) v (drawn w)")
      case False
      then show ?thesis using wr put run by (auto simp: run_simps)
    next
      case adm: True
      have "length v + maximum_mutation_growth X e \<le> MAX_ENTRY_BYTES"
        using adm free id new_entry_typed(2) [OF store_lawsD(3) [OF laws], of req opts now i w]
        by (simp add: admitted_def Let_def e_def limits)
      then have inv': "store_inv X (written (entry_file i) v (drawn w))"
        using store_inv_written [of X "drawn w" e v] adm inv v from_v free id
          new_entry_typed(1) [OF store_lawsD(3) [OF laws], of req opts now i w]
        by (simp add: e_def)
      have "stored X (written (entry_file i) v (drawn w)) = insert e (stored X w)"
      proof -
        have "x \<in> stored X w \<Longrightarrow> ident x \<noteq> i" for x using free by (auto simp: stored_def)
        then have "{x \<in> stored X w. ident x \<noteq> i} = stored X w" by blast
        then show ?thesis
          using stored_written [of e X v "drawn w"] from_v i id adm free
          by (simp add: admitted_def Let_def limits)
      qed
      then show ?thesis using adm wr put run inv' act wa a by (auto simp: run_simps)
    qed
  qed
qed

lemma put_existing_quiet:
  assumes w: "quiet w" and inv: "store_inv X w" and run: "put_resolved X req opts now i (Some e) w = (r, w')"
  shows "w' = w \<and> (\<forall>e' eta. r = Inr (e', eta) \<longrightarrow> e' = e)"
proof -
  obtain a wa where act: "previous_activity w = (a, wa)" by fastforce
  then have wa: "wa = w" using reads_only_quiet [OF last_marker_reads(3) w] by blast
  show ?thesis
    using run entries_with_usage_inv [OF w inv] act wa by (cases a) (auto simp: put_resolved_def run_simps)
qed

lemma new_entry_last:
  assumes "pending_list X w = [] \<or> order (last (pending_list X w)) < i64_max" "store_inv X w"
    and "x \<in> stored X w"
  shows "order x < order (new_entry X req opts now i w)"
proof -
  have wf: "wf_dirs w" using store_invD [OF assms(2)] by blast
  have x: "x \<in> set (pending_list X w)" using assms(3) set_pending_list [OF wf] by blast
  then have ne: "pending_list X w \<noteq> []" by auto
  have "last (pending_list X w) \<in> stored X w" using ne set_pending_list [OF wf, of X] last_in_set by blast
  then have "i64_min \<le> order (last (pending_list X w))"
    using store_invD(3) [OF assms(2)] by (auto simp: canonical_def typed_entry_def)
  then have "order (new_entry X req opts now i w) = order (last (pending_list X w)) + 1"
    using ne assms(1) by (simp add: new_entry_def sat_add_i64_greater)
  then show ?thesis using pending_orders(2) [OF x] by linarith
qed

section \<open>Cooldown anchors\<close>

definition marker_value :: "(parse_int_error \<Rightarrow> store_error) \<Rightarrow> node option \<Rightarrow> store_error + u64 option" where
  "marker_value er n =
     (case n of
        None \<Rightarrow> Inr None
      | Some Special \<Rightarrow> Inl (Io is_a_directory)
      | Some (Regular bs) \<Rightarrow>
          if valid_utf8 bs then (case parse_u64 (str_trim bs) of Inl x \<Rightarrow> Inl (er x) | Inr k \<Rightarrow> Inr (Some k))
          else Inl (Io (IoError InvalidData ''stream did not contain valid UTF-8'')))"

lemma fs_read_to_string_quiet:
  assumes "quiet w"
  shows "fs_read_to_string p w =
    ((case node_at w p of
       None \<Rightarrow> Inl not_found
     | Some Special \<Rightarrow> Inl is_a_directory
     | Some (Regular bs) \<Rightarrow>
         if valid_utf8 bs then Inr bs else Inl (IoError InvalidData ''stream did not contain valid UTF-8'')), w)"
proof (cases "node_at w p")
  case None
  then show ?thesis using assms by (simp add: fs_read_to_string_def run_simps)
next
  case (Some n)
  then show ?thesis using assms by (cases n) (simp_all add: fs_read_to_string_def run_simps)
qed

lemma last_post_quiet: "quiet w \<Longrightarrow> last_post w = (marker_value LastPost (node_at w last_post_path), w)"
  by (simp add: last_post_def run_simps fs_read_to_string_quiet marker_value_def not_found_def
      is_a_directory_def split: option.splits node.splits sum.splits)

lemma last_attempt_quiet:
  "quiet w \<Longrightarrow> last_attempt w = (marker_value LastAttempt (node_at w last_attempt_path), w)"
  by (simp add: last_attempt_def run_simps fs_read_to_string_quiet marker_value_def not_found_def
      is_a_directory_def split: option.splits node.splits sum.splits)

lemma marker_value_shown [simp]: "k \<le> u64_max \<Longrightarrow> marker_value er (Some (Regular (show_nat k))) = Inr (Some k)"
  by (simp add: marker_value_def)

lemma parse_digits_bound: "parse_digits acc s = Inr k \<Longrightarrow> acc \<le> u64_max \<Longrightarrow> k \<le> u64_max"
  by (induction acc s rule: parse_digits.induct) (auto split: if_splits)

lemma parse_u64_bound: "parse_u64 s = Inr k \<Longrightarrow> k \<le> u64_max"
  unfolding parse_u64_def using parse_digits_bound [of 0]
  by (simp del: parse_digits.simps split: if_splits list.splits)

lemma marker_value_bound: "marker_value er n = Inr (Some k) \<Longrightarrow> k \<le> u64_max"
  by (auto simp: marker_value_def dest: parse_u64_bound split: option.splits node.splits sum.splits if_splits)

definition activity :: "world \<Rightarrow> store_error + u64 option" where
  "activity w =
     (case marker_value LastPost (node_at w last_post_path) of
        Inl e \<Rightarrow> Inl e
      | Inr p \<Rightarrow> map_ok (max_option p) (marker_value LastAttempt (node_at w last_attempt_path)))"

lemma previous_activity_quiet: "quiet w \<Longrightarrow> previous_activity w = (activity w, w)"
  by (cases "marker_value LastPost (node_at w last_post_path)";
      cases "marker_value LastAttempt (node_at w last_attempt_path)")
    (simp_all add: previous_activity_def activity_def run_simps last_post_quiet last_attempt_quiet)

lemma activity_dirs:
  assumes "dirs w' QueueDir = dirs w QueueDir"
  shows "activity w' = activity w"
proof -
  have "node_at w' last_post_path = node_at w last_post_path"
    "node_at w' last_attempt_path = node_at w last_attempt_path"
    using assms by (simp_all add: node_at_def)
  then show ?thesis unfolding activity_def by (simp only:)
qed

section \<open>Claims\<close>

lemma schedule_quiet:
  assumes "quiet w" "store_inv X w"
  shows "schedule X cool now w =
    (map_ok (\<lambda>act. projected_schedule (pending_list X w) act cool now) (activity w), w)"
  using entries_inv [OF assms] previous_activity_quiet [OF assms(1)]
  by (cases "activity w") (simp_all add: schedule_def run_simps)

lemma next_due_quiet:
  assumes "quiet w" "store_inv X w"
  shows "next_due X cool now w =
    (map_ok (\<lambda>act. if \<exists>e \<in> stored X w. claim_token e \<noteq> None then None
        else (case projected_schedule (pending_list X w) act cool now of [] \<Rightarrow> None | h # _ \<Rightarrow> Some h))
      (activity w), w)"
proof (cases "activity w")
  case (Inl e)
  then show ?thesis using schedule_quiet [OF assms] by (simp add: next_due_def run_simps)
next
  case (Inr act)
  let ?s = "projected_schedule (pending_list X w) act cool now"
  have "fst ` set ?s = stored X w"
    using set_pending_list [OF store_invD(1) [OF assms(2)], of X] by (metis map_fst_projected set_map)
  then have "list_ex (\<lambda>(e, _). claim_token e \<noteq> None) ?s \<longleftrightarrow> (\<exists>e \<in> stored X w. claim_token e \<noteq> None)"
    unfolding list_ex_iff by force
  then show ?thesis using schedule_quiet [OF assms] Inr by (simp add: next_due_def run_simps)
qed

lemma projected_schedule_head:
  assumes "projected_schedule es prev cool now = (e, k) # rest"
  shows "es \<noteq> [] \<and> e = hd es"
  using assms by (cases es) (auto simp: Let_def)

text \<open>Rewriting an entry without changing its key keeps its place.\<close>

lemma pending_list_replaced:
  assumes wf: "wf_dirs w" "wf_dirs w'" and set: "stored X w' = insert e' (stored X w - {e})"
    and e: "e \<in> stored X w" "entry_key e' = entry_key e"
  shows "pending_list X w' = map (\<lambda>x. if x = e then e' else x) (pending_list X w)"
proof (rule pending_listI [OF wf(2)])
  let ?f = "\<lambda>x. if x = e then e' else x"
  show "set (map ?f (pending_list X w)) = stored X w'"
    using set e(1) set_pending_list [OF wf(1), of X] by auto
  have "map entry_key (map ?f (pending_list X w)) = map entry_key (pending_list X w)"
    using e(2) by (simp add: comp_def)
  then show "sorted (map entry_key (map ?f (pending_list X w)))"
    using sorted_pending_list [of X w] by (simp only:)
  have "map ident (map ?f (pending_list X w)) = map ident (pending_list X w)"
    using e(2) by (auto simp: entry_key_def)
  then have "distinct (map ident (map ?f (pending_list X w)))"
    using distinct_pending_list(1) [OF wf(1), of X] by (simp only:)
  then show "distinct (map ?f (pending_list X w))" by (rule distinct_map [THEN iffD1, THEN conjunct1])
qed

lemma uuid_encoded: "uuid_law X \<Longrightarrow> encoded_length X (new_uuid X n) = 38"
  by (simp add: uuid_law_def)

lemma claim_revises:
  "uuid_law X \<Longrightarrow> typed_entry X e \<Longrightarrow> revises X e (e\<lparr>claim_token := Some (new_uuid X n)\<rparr>)"
  by (simp add: revises_def typed_entry_def uuid_encoded)

lemma release_revises: "typed_entry X e \<Longrightarrow> revises X e (e\<lparr>claim_token := None\<rparr>)"
  by (simp add: revises_def typed_entry_def)

lemma write_revision_drawn:
  assumes laws: "store_laws X" and w: "quiet w" and inv: "store_inv X w"
    and e: "e \<in> stored X w" and rev: "revises X e e'"
  shows "\<exists>v. write_entry X e' (drawn w) = (Inr (), written (entry_file (ident e)) v (drawn w))
    \<and> store_inv X (written (entry_file (ident e)) v (drawn w))
    \<and> stored X (written (entry_file (ident e)) v (drawn w)) = insert e' (stored X w - {e})"
proof -
  have d: "quiet (drawn w)" "store_inv X (drawn w)" "e \<in> stored X (drawn w)" using w inv e by simp_all
  show ?thesis by (rule write_revision [OF laws d rev]) auto
qed

lemma claim_next_due_outcome:
  assumes laws: "store_laws X" and w: "quiet w" and inv: "store_inv X w"
    and run: "claim_next_due X cool now w = (r, w')"
  shows "(w' = w \<and> (\<forall>e k. r = Inr (Some (e, k)) \<longrightarrow> 0 < k \<and> e = hd (pending_list X w)))
    \<or> (\<exists>e v act. e = hd (pending_list X w) \<and> pending_list X w \<noteq> [] \<and> (\<forall>x \<in> stored X w. claim_token x = None)
         \<and> activity w = Inr act \<and> hd (projected_schedule (pending_list X w) act cool now) = (e, 0)
         \<and> r = Inr (Some (e\<lparr>claim_token := Some (new_uuid X (uuids_used w))\<rparr>, 0))
         \<and> w' = written (entry_file (ident e)) v (drawn w) \<and> store_inv X w'
         \<and> stored X w' = insert (e\<lparr>claim_token := Some (new_uuid X (uuids_used w))\<rparr>) (stored X w - {e}))"
proof -
  note due = next_due_quiet [OF w inv, of cool now]
  show ?thesis
  proof (cases "activity w")
    case (Inl er)
    then show ?thesis using run due by (auto simp: claim_next_due_def run_simps)
  next
    case (Inr act)
    let ?s = "projected_schedule (pending_list X w) act cool now"
    show ?thesis
    proof (cases "(\<exists>x \<in> stored X w. claim_token x \<noteq> None) \<or> ?s = []")
      case True
      then have "next_due X cool now w = (Inr None, w)" using due Inr by auto
      then have "claim_next_due X cool now w = (Inr None, w)" by (simp add: claim_next_due_def run_simps)
      then show ?thesis using run by simp
    next
      case False
      then obtain e k rest where s: "?s = (e, k) # rest" by (cases ?s) auto
      then have hd: "pending_list X w \<noteq> []" "e = hd (pending_list X w)" using projected_schedule_head by blast+
      have due': "next_due X cool now w = (Inr (Some (e, k)), w)" using due Inr False s by auto
      show ?thesis
      proof (cases "k = 0")
        case pos: False
        then have "claim_next_due X cool now w = (Inr (Some (e, k)), w)"
          using due' by (simp add: claim_next_due_def run_simps)
        then show ?thesis using run pos hd by simp
      next
        case True
        let ?c = "e\<lparr>claim_token := Some (new_uuid X (uuids_used w))\<rparr>"
        have e: "e \<in> stored X w" using hd set_pending_list [OF store_invD(1) [OF inv], of X] by (metis list.set_sel(1))
        have t: "typed_entry X e" using e store_invD(3) [OF inv] by (auto simp: canonical_def)
        obtain v where v: "write_entry X ?c (drawn w) = (Inr (), written (entry_file (ident e)) v (drawn w))"
          "store_inv X (written (entry_file (ident e)) v (drawn w))"
          "stored X (written (entry_file (ident e)) v (drawn w)) = insert ?c (stored X w - {e})"
          using write_revision_drawn [OF laws w inv e claim_revises [OF store_lawsD(3) [OF laws] t]] by blast
        have "claim_next_due X cool now w = (Inr (Some (?c, 0)), written (entry_file (ident e)) v (drawn w))"
          using due' True v(1) by (simp add: claim_next_due_def run_simps Let_def drawn_def)
        then show ?thesis using run v hd Inr False s True by auto
      qed
    qed
  qed
qed

lemma store_inv_written_marker:
  "fst p \<noteq> EntriesDir \<Longrightarrow> store_inv X w \<Longrightarrow> store_inv X (written p bs w)"
  by (rule store_inv_frame) (auto simp: written_other_dir)

lemma release_claim_stale:
  assumes "quiet w" "e \<in> stored X w" "claim_token e \<noteq> Some token"
  shows "release_claim X (ident e) token t w = (Inr (), w)"
proof -
  have "find_entry X (ident e) w = (Inr e, w)" using assms find_entry_stored by blast
  then show ?thesis using assms by (simp add: release_claim_def run_simps)
qed

lemma release_claim_unknown:
  assumes "quiet w" "is_valid_id i" "node_at w (entry_file i) = None"
  shows "release_claim X i token t w = (Inr (), w)"
  using assms by (simp add: release_claim_def run_simps find_entry_quiet)

lemma release_claim_own:
  fixes t :: nat
  assumes laws: "store_laws X" and w: "quiet w" and inv: "store_inv X w" and e: "e \<in> stored X w"
    and token: "claim_token e = Some token"
    and latest: "marker_value LastAttempt (node_at w last_attempt_path) = Inr latest"
    and tmp: "node_at w (tmp_path last_attempt_path) \<noteq> Some Special"
  defines "n \<equiv> max (case latest of None \<Rightarrow> 0 | Some n \<Rightarrow> n) t"
  shows "\<exists>v. release_claim X (ident e) token t w
        = (Inr (), written (entry_file (ident e)) v (written last_attempt_path (show_nat n) w))
    \<and> store_inv X (written (entry_file (ident e)) v (written last_attempt_path (show_nat n) w))
    \<and> stored X (written (entry_file (ident e)) v (written last_attempt_path (show_nat n) w))
        = insert (e\<lparr>claim_token := None\<rparr>) (stored X w - {e})"
proof -
  let ?w1 = "written last_attempt_path (show_nat n) w"
  have fe: "find_entry X (ident e) w = (Inr e, w)" using w e find_entry_stored by blast
  have reg: "node_at w last_attempt_path \<noteq> Some Special" using latest by (auto simp: marker_value_def)
  have wa: "write_atomic last_attempt_path (show_nat n) w = (Inr (), ?w1)"
    using write_atomic_quiet [OF w reg marker_tmp_ne(2)] tmp by simp
  have d: "dirs ?w1 EntriesDir = dirs w EntriesDir" by (rule written_other_dir) simp
  have q1: "quiet ?w1" "store_inv X ?w1" "e \<in> stored X ?w1"
    using w store_inv_written_marker [OF _ inv] e stored_dirs [OF d] by simp_all
  have t: "typed_entry X e" using e store_invD(3) [OF inv] by (auto simp: canonical_def)
  obtain v where v: "write_entry X (e\<lparr>claim_token := None\<rparr>) ?w1 = (Inr (), written (entry_file (ident e)) v ?w1)"
      "store_inv X (written (entry_file (ident e)) v ?w1)"
      "stored X (written (entry_file (ident e)) v ?w1) = insert (e\<lparr>claim_token := None\<rparr>) (stored X ?w1 - {e})"
    by (rule write_revision [OF laws q1 release_revises [OF t]])
  have "release_claim X (ident e) token t w = (Inr (), written (entry_file (ident e)) v ?w1)"
    using fe token last_attempt_quiet [OF w] latest wa v(1)
    by (simp add: release_claim_def run_simps Let_def n_def)
  then show ?thesis using v stored_dirs [OF d] by auto
qed

section \<open>Start-up: clearing claims\<close>

definition reclaimed :: "stored_entry \<Rightarrow> stored_entry \<Rightarrow> bool" where
  "reclaimed e e' \<longleftrightarrow>
     e' = e\<lparr>claim_token := None, incarnation := incarnation e'\<rparr> \<and> incarnation e' \<noteq> []
     \<and> (incarnation e \<noteq> [] \<longrightarrow> incarnation e' = incarnation e)"

lemma reclaimed_revises:
  "reclaimed e e' \<Longrightarrow> typed_entry X e \<Longrightarrow> (incarnation e = [] \<Longrightarrow> encoded_length X (incarnation e') = 38)
   \<Longrightarrow> revises X e e'"
  unfolding reclaimed_def revises_def typed_entry_def
  by (cases e; cases e') auto

lemma reclaimed_key: "reclaimed e e' \<Longrightarrow> entry_key e' = entry_key e"
  by (cases e; cases e') (simp add: reclaimed_def entry_key_def)

text \<open>One turn of the loop.\<close>

lemma reclaim_turn:
  assumes laws: "store_laws X" and w: "quiet w" and inv: "store_inv X w" and e: "e \<in> stored X w"
  shows "\<exists>e' w1. reclaim_loop X (e # es) w = reclaim_loop X es w1 \<and> quiet w1 \<and> store_inv X w1
    \<and> reclaimed e e' \<and> stored X w1 = insert e' (stored X w - {e})"
proof -
  have t: "typed_entry X e" using e store_invD(3) [OF inv] by (auto simp: canonical_def)
  note u = store_lawsD(3) [OF laws]
  show ?thesis
  proof (cases "incarnation e = []")
    case True
    let ?e = "e\<lparr>claim_token := None, incarnation := new_uuid X (uuids_used w)\<rparr>"
    have r: "reclaimed e ?e" using u True by (simp add: reclaimed_def uuid_law_def)
    then have "revises X e ?e" using reclaimed_revises [OF r t] uuid_encoded [OF u] by simp
    then obtain v where v: "write_entry X ?e (drawn w) = (Inr (), written (entry_file (ident e)) v (drawn w))"
        "store_inv X (written (entry_file (ident e)) v (drawn w))"
        "stored X (written (entry_file (ident e)) v (drawn w)) = insert ?e (stored X w - {e})"
      using write_revision_drawn [OF laws w inv e] by blast
    have "reclaim_loop X (e # es) w = reclaim_loop X es (written (entry_file (ident e)) v (drawn w))"
      using True v(1) by (simp add: run_simps Let_def drawn_def)
    then show ?thesis using v r w by (intro exI [of _ ?e] exI [of _ "written (entry_file (ident e)) v (drawn w)"]) simp
  next
    case False
    let ?e = "e\<lparr>claim_token := None\<rparr>"
    have r: "reclaimed e ?e" using False by (simp add: reclaimed_def)
    show ?thesis
    proof (cases "claim_token e = None")
      case True
      then have eq: "?e = e" by simp
      have "stored X w = insert ?e (stored X w - {e})" unfolding eq using e by blast
      moreover have "reclaim_loop X (e # es) w = reclaim_loop X es w"
        using False True by (simp add: run_simps Let_def)
      ultimately have "reclaim_loop X (e # es) w = reclaim_loop X es w \<and> stored X w = insert ?e (stored X w - {e})"
        by blast
      then show ?thesis using w inv r by blast
    next
      case claimed: False
      obtain v where v: "write_entry X ?e w = (Inr (), written (entry_file (ident e)) v w)"
          "store_inv X (written (entry_file (ident e)) v w)"
          "stored X (written (entry_file (ident e)) v w) = insert ?e (stored X w - {e})"
        by (rule write_revision [OF laws w inv e release_revises [OF t]])
      have "reclaim_loop X (e # es) w = reclaim_loop X es (written (entry_file (ident e)) v w)"
        using False claimed v(1) by (simp add: run_simps Let_def)
      then show ?thesis using v r w by (intro exI [of _ ?e] exI [of _ "written (entry_file (ident e)) v w"]) simp
    qed
  qed
qed

lemma reclaim_loop_all:
  assumes laws: "store_laws X"
  shows "quiet w \<Longrightarrow> store_inv X w \<Longrightarrow> set es \<subseteq> stored X w \<Longrightarrow> distinct (map ident es) \<Longrightarrow>
    \<exists>w' g. reclaim_loop X es w = (Inr (), w') \<and> quiet w' \<and> store_inv X w'
      \<and> pending_list X w' = map g (pending_list X w)
      \<and> (\<forall>x \<in> stored X w. if x \<in> set es then reclaimed x (g x) else g x = x)"
proof (induction es arbitrary: w)
  case Nil
  then show ?case by (intro exI [of _ w] exI [of _ id]) (simp add: run_simps)
next
  case (Cons e es)
  then have e: "e \<in> stored X w" by simp
  obtain e' w1 where turn: "reclaim_loop X (e # es) w = reclaim_loop X es w1" "quiet w1" "store_inv X w1"
      "reclaimed e e'" "stored X w1 = insert e' (stored X w - {e})"
    using reclaim_turn [OF laws Cons.prems(1,2) e] by blast
  have "set es \<subseteq> stored X w1" using Cons.prems(3,4) turn(5) by auto
  then obtain w' g where IH: "reclaim_loop X es w1 = (Inr (), w')" "quiet w'" "store_inv X w'"
      "pending_list X w' = map g (pending_list X w1)"
      "\<forall>x \<in> stored X w1. if x \<in> set es then reclaimed x (g x) else g x = x"
    using Cons.IH [OF turn(2,3)] Cons.prems(4) by auto
  note wf = store_invD(1) [OF Cons.prems(2)] store_invD(1) [OF turn(3)]
  have p1: "pending_list X w1 = map (\<lambda>x. if x = e then e' else x) (pending_list X w)"
    by (rule pending_list_replaced [OF wf turn(5) e reclaimed_key [OF turn(4)]])
  have id': "ident e' = ident e" using reclaimed_key [OF turn(4)] by (simp add: entry_key_def)
  then have "e' \<notin> set es" using Cons.prems(4) by (auto simp: image_iff)
  then have ge': "g e' = e'" using IH(5) turn(5) by auto
  let ?g = "\<lambda>x. if x = e then e' else g x"
  have "pending_list X w' = map ?g (pending_list X w)"
    unfolding IH(4) p1 using ge' by simp
  moreover have "\<forall>x \<in> stored X w. if x \<in> set (e # es) then reclaimed x (?g x) else ?g x = x"
    using IH(5) turn(4,5) Cons.prems(4) by auto
  moreover have "reclaim_loop X (e # es) w = (Inr (), w')" using turn(1) IH(1) by (simp only:)
  ultimately show ?case using IH(2,3) by (intro exI [of _ w'] exI [of _ ?g] conjI)
qed

lemma reclaimed_settled: "reclaimed e e' \<Longrightarrow> claim_token e' = None \<and> incarnation e' \<noteq> []"
  by (cases e') (auto simp: reclaimed_def)

lemma reclaim_loop_settled:
  "\<forall>x \<in> set es. claim_token x = None \<and> incarnation x \<noteq> [] \<Longrightarrow> reclaim_loop X es w = (Inr (), w)"
  by (induction es) (simp_all add: run_simps Let_def)

section \<open>Properties\<close>

text \<open>C26. The projected schedule keeps the queue's order and gives every entry the earliest moment that
  respects the present, the entry's own delay, and the cooldown plus flutter after the entry
  before it (saturating at the largest representable time).\<close>

theorem projected_schedule_earliest:
  assumes "i < length es"
  shows "map fst (projected_schedule es prev cool now) = es
    \<and> allowed es prev cool now i (now + snd (projected_schedule es prev cool now ! i))
    \<and> (\<forall>t. allowed es prev cool now i t \<longrightarrow> now + snd (projected_schedule es prev cool now ! i) \<le> t)"
  using post_time_allowed [OF assms] projected_nth(2) [OF assms] by simp

theorem projected_schedule_earliest_witness:
  "projected_schedule [sample_entry, sample_entry\<lparr>flutter_seconds := 5\<rparr>] (Some 1000) 900 1800
     = [(sample_entry, 100), (sample_entry\<lparr>flutter_seconds := 5\<rparr>, 1005)]
   \<and> allowed [sample_entry, sample_entry\<lparr>flutter_seconds := 5\<rparr>] (Some 1000) 900 1800 1 2805"
proof -
  let ?es = "[sample_entry, sample_entry\<lparr>flutter_seconds := 5\<rparr>]"
  have p: "projected_schedule ?es (Some 1000) 900 1800
      = [(sample_entry, 100), (sample_entry\<lparr>flutter_seconds := 5\<rparr>, 1005)]"
    by (simp add: sample_entry_def sat_add_def limits Let_def)
  have "1 < length ?es" by simp
  from projected_schedule_earliest [OF this, of "Some 1000" 900 1800] show ?thesis using p by simp
qed

text \<open>C27. The search for an entry's identifier ends as soon as one salt is free, reads only, and
  returns a well-formed identifier that is unused or belongs to the same request.\<close>

theorem resolve_entry_id_terminates:
  assumes "quiet w" "m \<le> u64_max" "node_at w (entry_file (salted req now (salt_of m))) = None"
  shows "\<exists>r. resolve_entry_id X req now w = Some (r, w)
    \<and> (\<forall>i existing. r = Inr (i, existing) \<longrightarrow> resolved X w req i existing)"
proof -
  obtain r w' where run: "resolve_loop X req now (salt_of 0) w = Some (r, w')"
    using resolve_loop_returns [OF assms(1,3,2), of 0 X] by auto
  then show ?thesis using resolve_loop_result [OF run assms(1)] by (simp add: resolve_entry_id_def salt_of_def)
qed

theorem resolve_entry_id_terminates_witness:
  "\<exists>r. resolve_entry_id ref_ext sample_request 100 empty_world = Some (r, empty_world)"
proof -
  have "node_at empty_world (entry_file (salted sample_request 100 (salt_of 0))) = None" by simp
  from resolve_entry_id_terminates [OF _ _ this, of ref_ext] show ?thesis by auto
qed

text \<open>C10. A put keeps the store's invariant and either adds the new entry at the tail of the queue,
  behind every queued one, or returns the entry already queued for the same request without
  any change, or fails without touching a file. This holds while the last order is below the
  largest 64-bit integer.\<close>

theorem put_at_tail:
  assumes laws: "store_laws X" and w: "quiet w" and inv: "store_inv X w"
    and room: "pending_list X w = [] \<or> order (last (pending_list X w)) < i64_max"
    and run: "put_with_eta X req opts now w = Some (r, w')"
  shows "store_inv X w' \<and>
    (case r of
       Inl _ \<Rightarrow> dirs w' = dirs w
     | Inr (e, eta) \<Rightarrow> request e = req \<and>
         (w' = w \<and> e \<in> stored X w
          \<or> ident e \<notin> ident ` stored X w \<and> pending_list X w' = pending_list X w @ [e]
             \<and> (\<exists>act. previous_activity w = (Inr act, w)
                  \<and> eta = eta_of (projected_schedule (pending_list X w') act (cooldown opts) now) (ident e))))"
proof -
  obtain r0 w0 where rs: "resolve_loop X req now None w = Some (r0, w0)"
    using run by (auto simp: put_with_eta_def resolve_entry_id_def split: option.splits)
  note res = resolve_loop_result [OF rs w]
  show ?thesis
  proof (cases r0)
    case (Inl er)
    then show ?thesis using run rs res inv by (auto simp: put_with_eta_def resolve_entry_id_def)
  next
    case (Inr p)
    obtain i ex where p: "p = (i, ex)" by fastforce
    have rsd: "resolved X w req i ex" using res Inr p by blast
    have pr: "put_resolved X req opts now i ex w = (r, w')"
      using run rs res Inr p by (auto simp: put_with_eta_def resolve_entry_id_def)
    show ?thesis
    proof (cases ex)
      case (Some e)
      then show ?thesis
        using put_existing_quiet [OF w inv, of req opts now i e r w'] pr rsd inv
        by (auto simp: resolved_def split: sum.splits)
    next
      case None
      let ?e = "new_entry X req opts now i w"
      have free: "ident ?e \<notin> ident ` stored X w"
        using rsd None by (auto simp: resolved_def stored_def new_entry_def)
      note new = put_new_quiet [OF laws w inv, of req i opts now r w'] 
      from new rsd pr None consider er where "r = Inl er" "dirs w' = dirs w"
        | eta v where "r = Inr (?e, eta)" "w' = written (entry_file i) v (drawn w)" "store_inv X w'"
            "stored X w' = insert ?e (stored X w)"
            "\<exists>act. previous_activity w = (Inr act, w)
              \<and> eta = eta_of (projected_schedule (pending_list X w @ [?e]) act (cooldown opts) now) i"
        by blast
      then show ?thesis
      proof cases
        case 1
        then show ?thesis using store_inv_frame [of w' w X] inv by (simp add: wf_dirs_def)
      next
        case 2
        have keep: "{x \<in> stored X w. ident x \<noteq> ident ?e} = stored X w" using free by (auto simp: image_iff)
        have "pending_list X w' = filter (\<lambda>x. ident x \<noteq> ident ?e) (pending_list X w) @ [?e]"
          using new_entry_last [OF room inv] 2(4) keep
          by (intro pending_list_tail store_invD(1) [OF inv] store_invD(1) [OF 2(3)]) auto
        moreover have "filter (\<lambda>x. ident x \<noteq> ident ?e) (pending_list X w) = pending_list X w"
          using free set_pending_list [OF store_invD(1) [OF inv], of X] by (auto simp: filter_id_conv image_iff)
        ultimately show ?thesis using 2 free by (simp add: new_entry_def)
      qed
    qed
  qed
qed

theorem put_at_tail_witness:
  "\<exists>r w'. put_with_eta ref_ext sample_request \<lparr>cooldown = 900, po_flutter_seconds = 3, immediate = False\<rparr> 100 empty_world
       = Some (r, w') \<and> store_inv ref_ext w'
     \<and> (case r of Inl _ \<Rightarrow> dirs w' = dirs empty_world | Inr (e, _) \<Rightarrow> pending_list ref_ext w' = [e])"
proof -
  let ?opts = "\<lparr>cooldown = 900, po_flutter_seconds = 3, immediate = False\<rparr>"
  have "node_at empty_world (entry_file (salted sample_request 100 (salt_of 0))) = None" by simp
  then obtain q where "resolve_loop ref_ext sample_request 100 (salt_of 0) empty_world = Some q"
    using resolve_loop_returns [of empty_world sample_request 100 0 0 ref_ext] by auto
  then obtain r w' where run: "put_with_eta ref_ext sample_request ?opts 100 empty_world = Some (r, w')"
    by (cases q; cases "fst q") (fastforce simp: put_with_eta_def resolve_entry_id_def salt_of_def)+
  have nil: "pending_list ref_ext empty_world = []" by (simp add: pending_list_def)
  from put_at_tail [OF ref_store_laws _ store_inv_empty _ run] nil show ?thesis
    using run by (auto split: sum.splits)
qed

text \<open>C11. A claim takes the head of the queue, only when nothing is claimed and the entry may be posted
  now; the entry keeps its place and gains the token; and until the claim is released or the
  entry removed no second claim succeeds, whatever the cooldown and the time.\<close>

theorem claim_exclusive:
  assumes laws: "store_laws X" and w: "quiet w" and inv: "store_inv X w"
    and run: "claim_next_due X cool now w = (Inr (Some (e, 0)), w')"
  shows "store_inv X w'
    \<and> (\<exists>e0 es act. pending_list X w = e0 # es \<and> e = e0\<lparr>claim_token := Some (new_uuid X (uuids_used w))\<rparr>
         \<and> pending_list X w' = e # es \<and> previous_activity w = (Inr act, w)
         \<and> allowed (e0 # es) act cool now 0 now)
    \<and> (\<forall>x \<in> stored X w. claim_token x = None)
    \<and> (\<forall>cool' now'. claim_next_due X cool' now' w' = (Inr None, w'))"
proof -
  obtain e0 v act where c: "e0 = hd (pending_list X w)" "pending_list X w \<noteq> []"
      "\<forall>x \<in> stored X w. claim_token x = None" "activity w = Inr act"
      "hd (projected_schedule (pending_list X w) act cool now) = (e0, 0)"
      "e = e0\<lparr>claim_token := Some (new_uuid X (uuids_used w))\<rparr>"
      "w' = written (entry_file (ident e0)) v (drawn w)" "store_inv X w'"
      "stored X w' = insert e (stored X w - {e0})"
    using claim_next_due_outcome [OF laws w inv run] by auto
  note wf = store_invD(1) [OF inv] store_invD(1) [OF c(8)]
  obtain es where p: "pending_list X w = e0 # es" using c(1,2) by (cases "pending_list X w") auto
  have e0: "e0 \<in> stored X w" using p set_pending_list [OF wf(1), of X] by auto
  have "pending_list X w' = map (\<lambda>x. if x = e0 then e else x) (pending_list X w)"
    by (rule pending_list_replaced [OF wf c(9) e0]) (simp add: c(6) entry_key_def)
  moreover have "e0 \<notin> set es" using distinct_pending_list(2) [OF wf(1), of X] p by simp
  ultimately have p': "pending_list X w' = e # es" using p by (auto intro!: map_idI)
  have ok0: "allowed (e0 # es) act cool now 0 now"
  proof -
    have l: "0 < length (e0 # es)" by simp
    have "snd (projected_schedule (e0 # es) act cool now ! 0) = 0" using c(5) p by (simp add: Let_def)
    then show ?thesis
      using post_time_allowed(1) [OF l, of act cool now] projected_nth(2) [OF l, of now act cool] by (simp only: add_0_right)
  qed
  have q': "quiet w'" using w by (simp add: c(7))
  have "activity w' = Inr act"
    using c(4) activity_dirs [of w' w] by (simp add: c(7) written_other_dir)
  moreover have "\<exists>x \<in> stored X w'. claim_token x \<noteq> None" using c(6,9) by auto
  ultimately have "next_due X cool' now' w' = (Inr None, w')" for cool' now'
    using next_due_quiet [OF q' c(8), of cool' now'] by auto
  then have "claim_next_due X cool' now' w' = (Inr None, w')" for cool' now'
    by (simp add: claim_next_due_def run_simps)
  moreover have "previous_activity w = (Inr act, w)" using previous_activity_quiet [OF w] c(4) by simp
  ultimately show ?thesis using c(3,6,8) p p' ok0 by blast
qed

lemma sample_pending: "pending_list ref_ext sample_world = [sample_entry]"
  by (rule pending_listI) (simp_all add: sample_stored store_invD [OF sample_inv])

lemma ref_new_uuid: "new_uuid ref_ext = ref_uuid"
  by (simp add: ref_ext_def)

lemma sample_activity: "activity sample_world = Inr None"
  by (simp add: activity_def marker_value_def node_at_def sample_dirs path_defs)

theorem claim_exclusive_witness:
  "\<exists>e w'. claim_next_due ref_ext 900 500 sample_world = (Inr (Some (e, 0)), w')
     \<and> pending_list ref_ext w' = [sample_entry\<lparr>claim_token := Some (ref_uuid 0)\<rparr>]
     \<and> claim_next_due ref_ext 0 999999 w' = (Inr None, w')"
proof -
  have due: "next_due ref_ext 900 500 sample_world = (Inr (Some (sample_entry, 0)), sample_world)"
    using next_due_quiet [OF sample_quiet sample_inv, of 900 500]
    by (simp add: sample_activity sample_stored sample_pending) (simp add: sample_entry_def Let_def)
  have u: "uuids_used sample_world = 0" by (simp add: sample_world_def written_def empty_world_def set_node_def del_node_def)
  obtain w' where "write_entry ref_ext (sample_entry\<lparr>claim_token := Some (ref_uuid 0)\<rparr>) (drawn sample_world) = (Inr (), w')"
    using write_revision_drawn [OF ref_store_laws sample_quiet sample_inv _ claim_revises [OF ref_uuid_law sample_typed, of 0]]
    by (auto simp: sample_stored ref_new_uuid)
  then have run: "claim_next_due ref_ext 900 500 sample_world
      = (Inr (Some (sample_entry\<lparr>claim_token := Some (ref_uuid 0)\<rparr>, 0)), w')"
    using due u by (simp add: claim_next_due_def run_simps Let_def drawn_def ref_new_uuid)
  from claim_exclusive [OF ref_store_laws sample_quiet sample_inv run] show ?thesis
    using run by (auto simp: sample_pending)
qed

text \<open>C28. Releasing a claim acts only for the holder of the token: it then clears the claim and moves
  the last-attempt time forward, never back; with any other token nothing changes.\<close>

theorem release_claim_owner_only:
  assumes laws: "store_laws X" and w: "quiet w" and inv: "store_inv X w" and e: "e \<in> stored X w"
    and latest: "last_attempt w = (Inr latest, w)" and time: "t \<le> u64_max"
    and tmp: "node_at w (tmp_path last_attempt_path) \<noteq> Some Special"
  shows "\<exists>w'. release_claim X (ident e) token t w = (Inr (), w') \<and> store_inv X w'
    \<and> (if claim_token e = Some token
       then stored X w' = insert (e\<lparr>claim_token := None\<rparr>) (stored X w - {e})
          \<and> last_attempt w' = (Inr (Some (max (case latest of None \<Rightarrow> 0 | Some n \<Rightarrow> n) t)), w')
       else w' = w)"
proof (cases "claim_token e = Some token")
  case False
  then show ?thesis using release_claim_stale [OF w e] inv by auto
next
  case True
  let ?n = "max (case latest of None \<Rightarrow> 0 | Some n \<Rightarrow> n) t"
  have mv: "marker_value LastAttempt (node_at w last_attempt_path) = Inr latest"
    using latest last_attempt_quiet [OF w] by simp
  then have n: "?n \<le> u64_max" using time by (cases latest) (auto dest: marker_value_bound)
  obtain v where v: "release_claim X (ident e) token t w
        = (Inr (), written (entry_file (ident e)) v (written last_attempt_path (show_nat ?n) w))"
      "store_inv X (written (entry_file (ident e)) v (written last_attempt_path (show_nat ?n) w))"
      "stored X (written (entry_file (ident e)) v (written last_attempt_path (show_nat ?n) w))
        = insert (e\<lparr>claim_token := None\<rparr>) (stored X w - {e})"
    using release_claim_own [OF laws w inv e True mv tmp, of t] by blast
  let ?w' = "written (entry_file (ident e)) v (written last_attempt_path (show_nat ?n) w)"
  have "node_at ?w' last_attempt_path = Some (Regular (show_nat ?n))"
    by (simp add: written_def marker_tmp_ne last_attempt_path_def entry_file_def tmp_path_def)
  then have "last_attempt ?w' = (Inr (Some ?n), ?w')" using last_attempt_quiet [of ?w'] w n by simp
  then show ?thesis using v True by auto
qed

theorem release_claim_owner_only_witness:
  "\<exists>w'. release_claim ref_ext ''0000abcd'' ''stale'' 700 sample_world = (Inr (), w') \<and> w' = sample_world"
proof -
  have "last_attempt sample_world = (Inr None, sample_world)"
    "node_at sample_world (tmp_path last_attempt_path) \<noteq> Some Special"
    by (simp_all add: last_attempt_quiet marker_value_def node_at_def sample_dirs path_defs tmp_path_def)
  from release_claim_owner_only [OF ref_store_laws sample_quiet sample_inv _ this(1) _ this(2), of sample_entry 700 "''stale''"]
  show ?thesis by (simp add: sample_stored limits) (simp add: sample_entry_def)
qed

text \<open>C29. Start-up releases every claim left behind by a crash: each entry keeps its place and all
  its fields but the claim, entries of older versions gain an incarnation, and a second pass
  changes nothing.\<close>

theorem reclaim_claims_all:
  assumes laws: "store_laws X" and w: "quiet w" and inv: "store_inv X w"
  shows "\<exists>w'. reclaim_claims X w = (Inr (), w') \<and> store_inv X w'
    \<and> list_all2 reclaimed (pending_list X w) (pending_list X w')
    \<and> reclaim_claims X w' = (Inr (), w')"
proof -
  note wf = store_invD(1) [OF inv]
  have set: "set (pending_list X w) = stored X w" by (rule set_pending_list [OF wf])
  obtain w' g where r: "reclaim_loop X (pending_list X w) w = (Inr (), w')" "quiet w'" "store_inv X w'"
      "pending_list X w' = map g (pending_list X w)"
      "\<forall>x \<in> stored X w. if x \<in> set (pending_list X w) then reclaimed x (g x) else g x = x"
    using reclaim_loop_all [OF laws w inv, of "pending_list X w"] set distinct_pending_list(1) [OF wf] by auto
  have run: "reclaim_claims X w = (Inr (), w')"
    using entries_inv [OF w inv] r(1) by (simp add: reclaim_claims_def run_simps)
  have all: "\<forall>x \<in> set (pending_list X w). reclaimed x (g x)" using r(5) set by simp
  then have l2: "list_all2 reclaimed (pending_list X w) (pending_list X w')"
    unfolding r(4) list_all2_map2 by (simp add: list.rel_refl_strong)
  have "\<forall>x \<in> set (pending_list X w'). claim_token x = None \<and> incarnation x \<noteq> []"
    using all unfolding r(4) by (auto dest!: bspec reclaimed_settled)
  then have "reclaim_claims X w' = (Inr (), w')"
    using entries_inv [OF r(2,3)] reclaim_loop_settled by (simp add: reclaim_claims_def run_simps)
  then show ?thesis using run r(3) l2 by blast
qed

theorem reclaim_claims_all_witness:
  "\<exists>w'. reclaim_claims ref_ext sample_world = (Inr (), w') \<and> pending_list ref_ext w' = [sample_entry]"
proof -
  have "reclaimed sample_entry y \<Longrightarrow> y = sample_entry" for y
    by (cases y) (auto simp: reclaimed_def sample_entry_def ref_uuid_def)
  then show ?thesis
    using reclaim_claims_all [OF ref_store_laws sample_quiet sample_inv] by (auto simp: sample_pending list_all2_Cons1)
qed

end
