(* ===== verification/Completion_Props.thy ===== *)
theory Completion_Props
  imports Scheduling_Props History_Log
begin

text \<open>
  Removing entries, and the crash-safety of a completion. A completion first writes a journal
  and then works it off; the invariant of this theory describes every state a completion can
  stop in, is kept by every further attempt however it fails, and leads, once an attempt runs
  to its end, to the state in which the post is recorded exactly once.
\<close>

section \<open>Removing an entry\<close>

lemma bytes_of_filter: "bytes_of (filter P ds) \<le> bytes_of ds"
  by (induction ds) simp_all

lemma headroom_of_filtered:
  "headroom_of X (List.map_filter f (filter P ds)) \<le> headroom_of X (List.map_filter f ds)"
  by (induction ds) (auto simp: map_filter_simps split: option.split)

lemma entries_of_del_node:
  "dirs (del_node (EntriesDir, n) w) EntriesDir = filter (\<lambda>(k, _). n \<noteq> k) (dirs w EntriesDir)"
  by (simp add: del_node_def AList.delete_eq)

lemma store_inv_removed:
  assumes inv: "store_inv X w"
  shows "store_inv X (del_node (entry_file i) w)"
proof -
  let ?w = "del_node (entry_file i) w" and ?keep = "\<lambda>(k, _). i @ ''.json'' \<noteq> k"
  note inv' = store_invD [OF inv]
  have dirs: "dirs ?w EntriesDir = filter ?keep (dirs w EntriesDir)"
    by (simp add: entry_file_def entries_of_del_node)
  have files: "entry_files ?w = filter ?keep (entry_files w)"
    unfolding entry_files_def dirs by (simp add: conj_commute)
  have reg: "all_regular ?w" using inv'(2) by (simp add: all_regular_def)
  have can: "canonical X ?w"
    using inv'(3) by (auto simp: canonical_def stored_del_node)
  have fit: "fits X ?w"
    using inv'(4) bytes_of_filter [of ?keep "entry_files w"] length_filter_le [of ?keep "entry_files w"]
    by (auto simp: fits_def files list_all_iff intro: le_trans [OF length_filter_le])
  have "headroom_of X (stored_entries X ?w) \<le> headroom_of X (stored_entries X w)"
    unfolding stored_entries_def dirs by (rule headroom_of_filtered)
  then have "within_budget X ?w"
    using inv'(5) bytes_of_filter [of ?keep "entry_files w"] by (simp add: within_budget_def files)
  then show ?thesis using inv'(1) reg can fit by (simp add: store_inv_def)
qed

lemma pending_list_removed:
  assumes wf: "wf_dirs w" "wf_dirs w'" and set: "stored X w' = {x \<in> stored X w. ident x \<noteq> i}"
  shows "pending_list X w' = filter (\<lambda>x. ident x \<noteq> i) (pending_list X w)"
proof (rule pending_listI [OF wf(2)])
  show "set (filter (\<lambda>x. ident x \<noteq> i) (pending_list X w)) = stored X w'"
    using set set_pending_list [OF wf(1), of X] by auto
  show "distinct (filter (\<lambda>x. ident x \<noteq> i) (pending_list X w))"
    using distinct_pending_list(2) [OF wf(1), of X] by simp
  show "sorted (map entry_key (filter (\<lambda>x. ident x \<noteq> i) (pending_list X w)))"
    by (rule sorted_map_filter) (rule sorted_pending_list)
qed

section \<open>Steps that may stop\<close>

text \<open>
  \<open>upholds J P m Q\<close>: started in a state of \<open>P\<close>, the computation \<open>m\<close> ends in a state of
  \<open>Q\<close> for its result or stops with an error in a state of \<open>J\<close>, the states from which
  recovery is possible.
\<close>

definition upholds ::
  "(world \<Rightarrow> bool) \<Rightarrow> (world \<Rightarrow> bool) \<Rightarrow> ('e, 'a) eff \<Rightarrow> ('a \<Rightarrow> world \<Rightarrow> bool) \<Rightarrow> bool" where
  "upholds J P m Q \<longleftrightarrow> (\<forall>w. P w \<longrightarrow> (case m w of (Inl _, w') \<Rightarrow> J w' | (Inr x, w') \<Rightarrow> Q x w'))"

named_theorems crash

lemma upholdsI:
  assumes "\<And>w e w'. P w \<Longrightarrow> m w = (Inl e, w') \<Longrightarrow> J w'" "\<And>w x w'. P w \<Longrightarrow> m w = (Inr x, w') \<Longrightarrow> Q x w'"
  shows "upholds J P m Q"
  using assms by (auto simp: upholds_def split: prod.splits sum.splits)

lemma upholdsD:
  assumes "upholds J P m Q" "P w"
  shows "m w = (Inl e, w') \<Longrightarrow> J w'" "m w = (Inr x, w') \<Longrightarrow> Q x w'"
  using assms by (auto simp: upholds_def)

lemma upholds_and_then [crash]:
  assumes "upholds J P m Q" "\<And>x. upholds J (Q x) (f x) R"
  shows "upholds J P (and_then m f) R"
  using assms unfolding upholds_def and_then_def by (fastforce split: prod.splits sum.splits)

lemma upholds_ok: "(\<And>w. P w \<Longrightarrow> Q x w) \<Longrightarrow> upholds J P (ok x) Q"
  by (simp add: upholds_def ok_def)

lemma upholds_weaken: "upholds J P m Q \<Longrightarrow> (\<And>w. P' w \<Longrightarrow> P w) \<Longrightarrow> (\<And>x w. Q x w \<Longrightarrow> Q' x w) \<Longrightarrow> upholds J P' m Q'"
  unfolding upholds_def by (fastforce split: prod.splits sum.splits)

text \<open>A step that keeps a property of the state, whatever it returns.\<close>

lemma upholds_keep:
  assumes "\<And>w r w'. P w \<Longrightarrow> m w = (r, w') \<Longrightarrow> P w'" "\<And>w. P w \<Longrightarrow> J w"
  shows "upholds J P m (\<lambda>_. P)"
  using assms by (intro upholdsI) blast+

section \<open>Lookups under failures\<close>

lemma map_err_Inr [simp]: "map_err f r = Inr x \<longleftrightarrow> r = Inr x"
  by (cases r) simp_all

lemma map_err_Inl: "map_err f r = Inl x \<longleftrightarrow> (\<exists>e. r = Inl e \<and> x = f e)"
  by (cases r) auto

lemma fs_read_at_result: "fs_read_at p off n w = (Inr bs, w') \<Longrightarrow> bs = take n (drop off (bytes_at w p))"
  by (auto simp: fs_read_at_def syscall_def split: list.splits option.splits)

lemma read_entry_result:
  assumes "read_entry X p w = (Inr e, w')"
  shows "\<exists>n. node_at w p = Some n \<and> decode_node X n = Some e"
proof -
  from assms obtain len w1 where md: "fs_metadata p w = (Inr (True, len), w1)"
    and k: "and_then (ensure_entry_size len MAX_ENTRY_BYTES) (\<lambda>_.
       and_then (io (fs_open p)) (\<lambda>_.
       and_then (io (fs_read_at p 0 (MAX_ENTRY_BYTES + 1))) (\<lambda>bs.
       and_then (ensure_entry_size (length bs) MAX_ENTRY_BYTES) (\<lambda>_.
       serde (entry_from_slice X bs))))) w1 = (Inr e, w')"
    unfolding read_entry_def by (auto elim!: and_then_InrE map_error_InrE simp: err_def split: if_splits)
  from k obtain w2 w3 bs where len: "len \<le> MAX_ENTRY_BYTES" and op: "fs_open p w1 = (Inr (), w2)"
    and rd: "fs_read_at p 0 (MAX_ENTRY_BYTES + 1) w2 = (Inr bs, w3)" and e: "entry_from_slice X bs = Inr e"
    by (auto elim!: and_then_InrE map_error_InrE simp: ensure_entry_size_def err_def ok_def from_result_def
        split: if_splits sum.splits)
  obtain n where n: "node_at w p = Some n" "len = node_len n" "n \<noteq> Special" using fs_metadata_result [OF md] by auto
  then obtain c where c: "n = Regular c" by (cases n) auto
  have "node_at w2 p = Some n"
    using reads_only_frame(2) [OF reads_only_calls(4) md] reads_only_frame(2) [OF reads_only_calls(3) op] n by simp
  then have "bs = c" using fs_read_at_result [OF rd] len n(2) c by (simp add: bytes_at_def node_len_def)
  then show ?thesis using n c len e by (auto simp: decode_node_def node_len_def)
qed

lemma honest_calls:
  assumes "honest w" "kind_of e = NotFound"
  shows "fs_metadata p w = (Inl e, w') \<Longrightarrow> node_at w p = None"
    and "fs_read p w = (Inl e, w') \<Longrightarrow> node_at w p = None"
    and "fs_remove_file p w = (Inl e, w') \<Longrightarrow> node_at w p = None"
    and "fs_read_at p off n w \<noteq> (Inl e, w')"
  using assms
  by (auto simp: fs_metadata_def fs_read_def fs_remove_file_def fs_read_at_def syscall_def honest_def
      is_a_directory_def not_found_def split: list.splits option.splits node.splits)

lemma io_InlE:
  assumes "io m w = (Inl er, w')"
  obtains e where "er = Io e" "m w = (Inl e, w')"
  using assms by (auto simp: map_error_def map_err_Inl split: prod.splits)

lemma read_entry_missing:
  assumes run: "read_entry X p w = (Inl (Io e), w')" and w: "honest w" and e: "kind_of e = NotFound"
  shows "node_at w p = None"
proof -
  obtain q w1 where md: "fs_metadata p w = (q, w1)" by fastforce
  show ?thesis
  proof (cases q)
    case (Inl er)
    then show ?thesis using run md honest_calls(1) [OF w] e
      by (auto simp: read_entry_def and_then_def map_error_def)
  next
    case (Inr x)
    then obtain b len where x: "q = Inr (b, len)" by (cases x) auto
    have n1: "node_at w1 p = node_at w p" "honest w1"
      using reads_only_frame(2) [OF reads_only_calls(4) md]
        touchesD(5) [OF reads_only_touches [OF reads_only_calls(4)] md w] by simp_all
    obtain q2 w2 where op: "fs_open p w1 = (q2, w2)" by fastforce
    have h2: "honest w2" using touchesD(5) [OF reads_only_touches [OF reads_only_calls(3)] op n1(2)] .
    show ?thesis
    proof (cases q2)
      case (Inl er)
      then have "er = e"
        using run md x op e
        by (auto simp: read_entry_def and_then_def map_error_def ensure_entry_size_def err_def ok_def not_regular_def split: if_splits)
      then show ?thesis using fs_open_honest [OF _ n1(2) e] op Inl n1(1) by simp
    next
      case (Inr u)
      have "fs_read_at p 0 (Suc MAX_ENTRY_BYTES) w2 \<noteq> (Inl e, w'')" for w'' by (rule honest_calls(4) [OF h2 e])
      then show ?thesis
        using run md x op Inr e
        by (auto simp: read_entry_def and_then_def map_error_def ensure_entry_size_def err_def ok_def not_regular_def
            from_result_def map_err_Inl split: if_splits prod.splits sum.splits)
    qed
  qed
qed

lemma find_entry_sound:
  assumes "find_entry X i w = (Inr e, w')"
  shows "e \<in> stored X w \<and> ident e = i"
proof -
  have i: "is_valid_id i" using assms by (auto simp: find_entry_def entry_path_def run_simps split: if_splits)
  obtain r w1 where r: "read_entry X (entry_file i) w = (r, w1)" by fastforce
  then have "r = Inr e \<and> ident e = i"
    using assms i
    by (auto simp: find_entry_def entry_path_run run_simps and_then_def attempt_def err_def ok_def
        split: sum.splits store_error.splits if_splits)
  then show ?thesis using read_entry_result [of X "entry_file i" w e w1] r i by (auto simp: stored_def)
qed

lemma find_entry_missing:
  assumes "find_entry X i w = (Inl (UnknownId j), w')" "honest w"
  shows "node_at w (entry_file i) = None"
proof -
  have i: "is_valid_id i" using assms by (auto simp: find_entry_def entry_path_def run_simps split: if_splits)
  obtain r w1 where r: "read_entry X (entry_file i) w = (r, w1)" by fastforce
  have "\<And>k. r \<noteq> Inl (UnknownId k)"
    using r by (auto simp: read_entry_def and_then_def map_error_def ensure_entry_size_def err_def ok_def not_regular_def
            from_result_def map_err_Inl split: if_splits prod.splits sum.splits)
  then obtain e where "r = Inl (Io e)" "kind_of e = NotFound"
    using assms(1) i r
    by (auto simp: find_entry_def entry_path_run run_simps and_then_def attempt_def err_def ok_def
        split: sum.splits store_error.splits if_splits)
  then show ?thesis using read_entry_missing [of X "entry_file i" w e w1] r assms(2) by simp
qed

section \<open>The log during a completion\<close>

text \<open>The log has grown since the journal was written, by the records \<open>a\<close> and possibly a torn line.\<close>

definition log_at :: "ext \<Rightarrow> string \<Rightarrow> history_record list \<Rightarrow> string \<Rightarrow> bool" where
  "log_at X old a bs \<longleftrightarrow>
     (\<exists>x. bs = old @ x
        \<and> (\<forall>k \<le> length old. no_edge_line (drop k old) \<longrightarrow>
             no_edge_line (drop k bs) \<and> log_records X (drop k bs) = log_records X (drop k old) @ a))"

lemma log_at_start: "log_at X old [] old"
  by (auto simp: log_at_def)

lemma log_atD:
  assumes "log_at X old a bs" "k \<le> length old" "no_edge_line (drop k old)"
  shows "no_edge_line (drop k bs)" "log_records X (drop k bs) = log_records X (drop k old) @ a"
  using assms by (auto simp: log_at_def)

lemma no_edge_line_torn_suffix:
  assumes "no_edge_line x" "newline \<notin> set v" "length v < MAX_HISTORY_LINE_BYTES"
    and x: "x = [] \<or> last x = last bs \<and> bs \<noteq> []"
  shows "no_edge_line (x @ take k (repair bs @ v @ [newline]))"
proof (cases "x = []")
  case False
  then have "repair bs = repair x" using x by (auto simp: repair_def)
  then show ?thesis using no_edge_line_torn [OF assms(1-3)] by simp
next
  case True
  have nil: "no_edge_line []" by (simp add: no_edge_line_def)
  have torn: "no_edge_line (take j (v @ [newline]))" for j
    using no_edge_line_torn [OF nil assms(2,3), of j] by (simp add: repair_def)
  show ?thesis
  proof (cases "repair bs = [] \<or> k = 0")
    case True
    then show ?thesis using torn nil \<open>x = []\<close> by auto
  next
    case False
    then obtain j where k: "k = Suc j" and rep: "repair bs = [newline]"
      by (cases k) (auto simp: repair_def split: if_splits)
    have "no_edge_line [newline]" using no_edge_line_newline [OF nil] by simp
    then show ?thesis
      using no_edge_line_append [of "[newline]" "take j (v @ [newline])"] torn [of j] \<open>x = []\<close> k rep by simp
  qed
qed

lemma log_at_append:
  assumes codec: "history_codec X" "history_to_vec X r = Inr v" "length v < MAX_HISTORY_LINE_BYTES"
    and log: "log_at X old [] bs"
  shows "log_at X old (if k < length (repair bs @ v) then [] else [r]) (bs @ take k (repair bs @ v @ [newline]))"
proof -
  let ?t = "take k (repair bs @ v @ [newline])" and ?a = "if k < length (repair bs @ v) then [] else [r]"
  obtain x where x: "bs = old @ x" using log by (auto simp: log_at_def)
  have nl: "newline \<notin> set v" by (rule history_codecD(3) [OF codec(1,2)])
  have "no_edge_line (drop i (bs @ ?t)) \<and> log_records X (drop i (bs @ ?t)) = log_records X (drop i old) @ ?a"
    if i: "i \<le> length old" and edge: "no_edge_line (drop i old)" for i
  proof -
    have drop: "drop i (bs @ ?t) = drop i bs @ ?t" using i x by simp
    have suffix: "drop i bs = [] \<or> last (drop i bs) = last bs \<and> bs \<noteq> []"
      by (cases "i < length bs") auto
    note d = log_atD [OF log i edge]
    have "log_records X (drop i bs @ ?t) = log_records X (drop i bs) @ ?a"
      by (rule torn_append_records [OF codec d(1) suffix])
    moreover have "no_edge_line (drop i bs @ ?t)" by (rule no_edge_line_torn_suffix [OF d(1) nl codec(3) suffix])
    ultimately show ?thesis using d(2) unfolding drop by simp
  qed
  then show ?thesis unfolding log_at_def using x by (intro exI [of _ "x @ ?t"]) simp
qed

lemma append_once_log:
  assumes codec: "history_codec X" "history_to_vec X r = Inr v" "length v < MAX_HISTORY_LINE_BYTES"
    and w: "honest w" "node_at w history_path \<noteq> Some Special"
    and log: "log_at X old a (bytes_at w history_path)" "a = [] \<or> a = [r]"
    and run: "append_once X r (length old) w = (res, w')"
  shows "\<exists>a'. log_at X old a' (bytes_at w' history_path) \<and> (a' = [] \<or> a' = [r]) \<and> (res = Inr () \<longrightarrow> a' = [r])"
proof -
  let ?bs = "bytes_at w history_path"
  obtain q w1 where q: "contains_attempt X (attempt_id r) (length old) w = (q, w1)" by fastforce
  have bs1: "bytes_at w1 history_path = ?bs" by (rule reads_only_frame(1) [OF contains_attempt_reads q])
  have rest: "log_records X (drop (length old) ?bs) = a" 
    using log_atD(2) [OF log(1), of "length old"] by (simp add: no_edge_line_def)
  show ?thesis
  proof (cases q)
    case (Inl e)
    then have "w' = w1" "res \<noteq> Inr ()" using run q by (auto simp: append_once_def and_then_def)
    then show ?thesis using bs1 log by auto
  next
    case (Inr b)
    have b: "b \<longleftrightarrow> a = [r]"
      using contains_attempt_result [OF codec(1) _ w] q Inr rest log(2) by fastforce
    show ?thesis
    proof (cases b)
      case True
      then have "w' = w1" using run q Inr by (auto simp: append_once_def and_then_def run_simps)
      then show ?thesis using bs1 log True b by auto
    next
      case False
      then have "history_append X r w1 = (res, w')" using run q Inr by (simp add: append_once_def and_then_def)
      from history_append_outcome [OF this codec(2)] obtain k
        where k: "bytes_at w' history_path = ?bs @ take k (repair ?bs @ v @ [newline])"
          and whole: "res = Inr () \<longrightarrow> node_at w' history_path = Some (Regular (?bs @ repair ?bs @ v @ [newline]))"
        unfolding bs1 by blast
      have "log_at X old [] ?bs" using log False b by auto
      note grown = log_at_append [OF codec this]
      show ?thesis
      proof (cases "res = Inr ()")
        case True
        then have "bytes_at w' history_path = ?bs @ repair ?bs @ v @ [newline]" using whole by (simp add: bytes_at_def)
        then show ?thesis using grown [of "length (repair ?bs @ v @ [newline])"] by auto
      next
        case False
        then show ?thesis using k grown [of k] by (auto split: if_splits)
      qed
    qed
  qed
qed

section \<open>The states of a completion\<close>

text \<open>The journal \<open>c\<close> of a completion of the entry \<open>e\<close>, with its history record and that record's
  encoding.\<close>

definition journal_of :: "ext \<Rightarrow> completion_record \<Rightarrow> stored_entry \<Rightarrow> history_record \<Rightarrow> string \<Rightarrow> bool" where
  "journal_of X c e h v \<longleftrightarrow>
     history_codec X \<and> history_to_vec X h = Inr v \<and> length v < MAX_HISTORY_LINE_BYTES
     \<and> cr_history c = Some h \<and> cr_id c = ident e \<and> is_valid_id (ident e) \<and> cr_claim_token c = claim_token e"

definition marker_ok :: "ext \<Rightarrow> string \<Rightarrow> world \<Rightarrow> bool" where
  "marker_ok X i w \<longleftrightarrow>
     (case node_at w (AwaitDeletionsDir, i) of
        None \<Rightarrow> True
      | Some Special \<Rightarrow> False
      | Some (Regular bs) \<Rightarrow> is_ok (deletion_from_slice X bs))"

definition taken_out :: "ext \<Rightarrow> stored_entry set \<Rightarrow> string \<Rightarrow> world \<Rightarrow> bool" where
  "taken_out X S i w \<longleftrightarrow> stored X w = {x \<in> S. ident x \<noteq> i} \<and> node_at w (entry_file i) = None"

lemma taken_out_dirs: "dirs w' EntriesDir = dirs w EntriesDir \<Longrightarrow> taken_out X S i w' = taken_out X S i w"
  using stored_dirs [of w' w X] by (simp add: taken_out_def node_at_def)

text \<open>Where a completion can stand: \<open>logged\<close> says that the record is in the log, \<open>gone\<close> that the
  entry is no longer queued; without them either is possible.\<close>

definition progress ::
  "ext \<Rightarrow> stored_entry \<Rightarrow> history_record \<Rightarrow> string \<Rightarrow> stored_entry set \<Rightarrow> bool \<Rightarrow> bool \<Rightarrow> world \<Rightarrow> bool" where
  "progress X e h old S logged gone w \<longleftrightarrow>
     honest w \<and> store_inv X w \<and> marker_ok X (ident e) w
     \<and> node_at w history_path \<noteq> Some Special \<and> node_at w last_post_path \<noteq> Some Special
     \<and> node_at w (tmp_path last_post_path) \<noteq> Some Special
     \<and> (\<exists>a. log_at X old a (bytes_at w history_path) \<and> (a = [] \<or> a = [h]) \<and> (logged \<longrightarrow> a = [h]))
     \<and> (taken_out X S (ident e) w \<or> \<not> gone \<and> stored X w = S)"

lemma progress_weaken: "progress X e h old S True gone w \<Longrightarrow> progress X e h old S logged gone w"
  "progress X e h old S logged True w \<Longrightarrow> progress X e h old S logged gone w"
  by (auto simp: progress_def)

definition own_paths :: "stored_entry \<Rightarrow> path set" where
  "own_paths e = {history_path, last_post_path, tmp_path last_post_path, (AwaitDeletionsDir, ident e)}"

lemma progress_touches:
  assumes m: "touches A m" "m w = (r, w')" and A: "A \<inter> own_paths e = {}" "EntriesDir \<notin> fst ` A"
    and p: "progress X e h old S logged gone w"
  shows "progress X e h old S logged gone w'"
proof -
  have n: "q \<in> own_paths e \<Longrightarrow> node_at w' q = node_at w q" for q using touchesD(1) [OF m] A(1) by blast
  have d: "dirs w' EntriesDir = dirs w EntriesDir" by (rule touchesD(2) [OF m A(2)])
  have inv: "store_inv X w'" using p store_inv_frame [OF d touchesD(3) [OF m]] by (simp add: progress_def)
  have "honest w'" using p touchesD(5) [OF m] by (simp add: progress_def)
  then show ?thesis
    using p inv n stored_dirs [OF d, of X] taken_out_dirs [OF d, of X] by (simp add: progress_def marker_ok_def bytes_at_def own_paths_def)
qed

lemma progress_reads:
  "reads_only m \<Longrightarrow> m w = (r, w') \<Longrightarrow> progress X e h old S logged gone w \<Longrightarrow> progress X e h old S logged gone w'"
  by (rule progress_touches [where A = "{}" and m = m]) (auto intro: reads_only_touches)

text \<open>Steps that can only remove a file.\<close>

definition only_removes :: "path \<Rightarrow> ('e, 'a) eff \<Rightarrow> bool" where
  "only_removes p m \<longleftrightarrow> (\<forall>w. node_at (snd (m w)) p = node_at w p \<or> node_at (snd (m w)) p = None)"

named_theorems removing

lemma only_removes_reads: "reads_only m \<Longrightarrow> only_removes p m"
  unfolding only_removes_def using reads_only_frame(2) by (metis prod.collapse)

lemma only_removes_remove [removing]: "only_removes p (fs_remove_file p)"
  by (auto simp: only_removes_def fs_remove_file_def syscall_def split: list.splits option.splits node.splits)

lemma only_removes_and_then [removing]:
  assumes "only_removes p m" "\<And>x. only_removes p (f x)"
  shows "only_removes p (and_then m f)"
  unfolding only_removes_def
proof
  fix w
  obtain r w1 where m: "m w = (r, w1)" by fastforce
  have one: "node_at w1 p = node_at w p \<or> node_at w1 p = None" using assms(1) m by (metis only_removes_def snd_conv)
  show "node_at (snd (and_then m f w)) p = node_at w p \<or> node_at (snd (and_then m f w)) p = None"
  proof (cases r)
    case (Inl e)
    then show ?thesis using m one by (simp add: and_then_def)
  next
    case (Inr x)
    then have "and_then m f w = f x w1" using m by (simp add: and_then_def)
    then show ?thesis using one assms(2) [of x] unfolding only_removes_def by metis
  qed
qed

lemma only_removes_control [removing]:
  "only_removes p m \<Longrightarrow> only_removes p (map_error g m)"
  "only_removes p m \<Longrightarrow> only_removes p (attempt m)"
  "(\<And>e. only_removes p (k e)) \<Longrightarrow> (\<And>x. only_removes p (l x)) \<Longrightarrow> only_removes p (case r of Inl e \<Rightarrow> k e | Inr x \<Rightarrow> l x)"
  "(b \<Longrightarrow> only_removes p m) \<Longrightarrow> (\<not> b \<Longrightarrow> only_removes p m') \<Longrightarrow> only_removes p (if b then m else m')"
  "only_removes p (ok y)" "only_removes p (err z)" "only_removes p (from_result q)"
  by (auto simp: only_removes_def map_error_def attempt_def split_beta ok_def err_def from_result_def split: sum.splits)

lemma and_then_ok: "and_then (ok x) f = f x"
  by (rule ext) (simp add: and_then_def ok_def)

section \<open>One step after the other\<close>

lemma paths_apart:
  "distinct [history_path, last_post_path, tmp_path last_post_path, completion_path, tmp_path completion_path,
     last_attempt_path, tmp_path last_attempt_path]"
  by (simp add: marker_tmp) (simp add: path_defs)

lemma paths_ne [simp]:
  "last_post_path \<noteq> history_path" "tmp_path last_post_path \<noteq> history_path"
  "completion_path \<noteq> history_path" "completion_path \<noteq> last_post_path" "completion_path \<noteq> tmp_path last_post_path"
  "tmp_path completion_path \<noteq> history_path" "tmp_path completion_path \<noteq> last_post_path"
  "tmp_path completion_path \<noteq> tmp_path last_post_path"
  "history_path \<noteq> last_post_path" "history_path \<noteq> tmp_path last_post_path"
  "history_path \<noteq> completion_path" "last_post_path \<noteq> completion_path" "tmp_path last_post_path \<noteq> completion_path"
  "history_path \<noteq> tmp_path completion_path" "last_post_path \<noteq> tmp_path completion_path"
  "tmp_path last_post_path \<noteq> tmp_path completion_path"
  using paths_apart by auto

lemma dir_ne [simp]: "fst p \<noteq> d \<Longrightarrow> p \<noteq> (d, n)" "fst p \<noteq> d \<Longrightarrow> (d, n) \<noteq> p"
  by auto

lemma append_once_touches [frame]: "touches {history_path} (append_once X r off)"
proof -
  have "touches {history_path} (history_append X r)"
    unfolding history_append_def append_line_def has_final_newline_def sync_parent_directory_def
    by (intro frame) auto
  then show ?thesis
    unfolding append_once_def by (intro frame reads_only_touches [OF contains_attempt_reads]) auto
qed

lemma append_once_progress:
  assumes j: "journal_of X c e h v" and p: "progress X e h old S logged gone w"
    and run: "append_once X h (length old) w = (r, w')"
  shows "progress X e h old S (r = Inr ()) gone w'"
proof -
  have codec: "history_codec X" "history_to_vec X h = Inr v" "length v < MAX_HISTORY_LINE_BYTES"
    using j by (simp_all add: journal_of_def)
  have w: "honest w" "node_at w history_path \<noteq> Some Special" using p by (simp_all add: progress_def)
  obtain a where "log_at X old a (bytes_at w history_path)" "a = [] \<or> a = [h]" using p by (auto simp: progress_def)
  from append_once_log [OF codec w this run]
  have log: "\<exists>a. log_at X old a (bytes_at w' history_path) \<and> (a = [] \<or> a = [h]) \<and> (r = Inr () \<longrightarrow> a = [h])" .
  have reg: "node_at w' history_path \<noteq> Some Special" by (rule append_once_regular [OF run codec(2) w(2)])
  note t = append_once_touches [of X h "length old"]
  have n: "q \<noteq> history_path \<Longrightarrow> node_at w' q = node_at w q" for q using touchesD(1) [OF t run] by blast
  have d: "dirs w' EntriesDir = dirs w EntriesDir" by (rule touchesD(2) [OF t run]) simp
  have inv: "store_inv X w'" using p store_inv_frame [OF d touchesD(3) [OF t run]] by (simp add: progress_def)
  have ne: "last_post_path \<noteq> history_path" "tmp_path last_post_path \<noteq> history_path" "(AwaitDeletionsDir, ident e) \<noteq> history_path"
    by simp_all
  have "honest w'" by (rule touchesD(5) [OF t run w(1)])
  then show ?thesis
    using p log reg inv n [OF ne(1)] n [OF ne(2)] n [OF ne(3)] stored_dirs [OF d, of X] taken_out_dirs [OF d, of X]
    unfolding progress_def marker_ok_def by simp
qed

lemma clear_await_touches [frame]:
  assumes "is_valid_id i"
  shows "touches {(AwaitDeletionsDir, i)} (clear_await_deletion X i inc)"
proof -
  have path: "await_deletion_path i = ok (AwaitDeletionsDir, i)" using assms by (simp add: await_deletion_path_def)
  show ?thesis
    unfolding clear_await_deletion_def path and_then_ok
    by (intro frame reads_only_touches [OF find_entry_reads]) (auto intro: frame split: store_error.split)
qed

lemma clear_await_progress:
  assumes p: "progress X e h old S logged gone w" and i: "is_valid_id (ident e)"
    and run: "clear_await_deletion X (ident e) inc w = (r, w')"
  shows "progress X e h old S logged gone w' \<and> node_at w' completion_path = node_at w completion_path"
proof -
  let ?m = "(AwaitDeletionsDir, ident e)"
  have path: "await_deletion_path (ident e) = ok ?m" using i by (simp add: await_deletion_path_def)
  note t = clear_await_touches [OF i, of X inc]
  have rm: "only_removes ?m (clear_await_deletion X (ident e) inc)"
    unfolding clear_await_deletion_def path and_then_ok
    by (intro removing only_removes_reads [OF find_entry_reads] only_removes_reads [OF reads_only_calls(2)]
        only_removes_reads [OF reads_only_calls(1)]) (auto intro: removing split: store_error.split)
  have n: "q \<noteq> ?m \<Longrightarrow> node_at w' q = node_at w q" for q using touchesD(1) [OF t run] by blast
  have d: "dirs w' EntriesDir = dirs w EntriesDir" by (rule touchesD(2) [OF t run]) simp
  have inv: "store_inv X w'" using p store_inv_frame [OF d touchesD(3) [OF t run]] by (simp add: progress_def)
  have "node_at w' ?m = node_at w ?m \<or> node_at w' ?m = None" using rm run by (metis only_removes_def snd_conv)
  moreover have "marker_ok X (ident e) w" using p by (simp add: progress_def)
  ultimately have "marker_ok X (ident e) w'" by (auto simp: marker_ok_def)
  moreover have "honest w'" using p touchesD(5) [OF t run] by (simp add: progress_def)
  ultimately show ?thesis
    using p inv n [of history_path] n [of last_post_path] n [of "tmp_path last_post_path"] n [of completion_path]
      stored_dirs [OF d, of X] taken_out_dirs [OF d, of X]
    unfolding progress_def bytes_at_def by simp
qed

lemma fs_remove_file_outcome:
  assumes "fs_remove_file p w = (r, w')"
  obtains s where "suffix s (script w)" "r \<noteq> Inr ()" "w' = w\<lparr>script := s\<rparr>"
  | s where "suffix s (script w)" "r = Inr ()" "w' = (del_node p w)\<lparr>script := s\<rparr>"
proof -
  have same: "w\<lparr>script := []\<rparr> = w" if "script w = []" using that by (cases w) simp
  have "w' = w\<lparr>script := tl (script w)\<rparr> \<and> r \<noteq> Inr () \<or> w' = (del_node p w)\<lparr>script := tl (script w)\<rparr> \<and> r = Inr ()"
    using assms same
    by (auto simp: fs_remove_file_def syscall_def del_node_def split: list.splits option.splits node.splits)
  then show ?thesis using that suffix_tl by metis
qed

lemma store_inv_script [simp]: "store_inv X (w\<lparr>script := s\<rparr>) = store_inv X w"
  using store_inv_frame [of "w\<lparr>script := s\<rparr>" w X] store_inv_frame [of w "w\<lparr>script := s\<rparr>" X] by auto

lemma stored_script [simp]: "stored X (w\<lparr>script := s\<rparr>) = stored X w"
  by (rule stored_dirs) simp

lemma stored_absent: "node_at w (entry_file i) = None \<Longrightarrow> stored X w = {x \<in> stored X w. ident x \<noteq> i}"
  by (auto simp: stored_def)

lemma progress_gone:
  assumes "progress X e h old S logged gone w" "node_at w (entry_file (ident e)) = None"
  shows "progress X e h old S logged True w"
proof -
  have "taken_out X S (ident e) w \<or> stored X w = S" using assms(1) by (auto simp: progress_def)
  then have "taken_out X S (ident e) w" using assms(2) stored_absent [OF assms(2), of X] by (auto simp: taken_out_def)
  then show ?thesis using assms(1) by (simp add: progress_def)
qed

lemma remove_entry_progress:
  assumes p: "progress X e h old S logged gone w" and run: "fs_remove_file (entry_file (ident e)) w = (r, w')"
  shows "progress X e h old S logged (gone \<or> r = Inr ()) w' \<and> node_at w' completion_path = node_at w completion_path"
  using run
proof (cases rule: fs_remove_file_outcome)
  case (1 s)
  then show ?thesis
    using p set_mono_suffix [OF 1(1)]
    by (auto simp: progress_def marker_ok_def honest_def taken_out_def)
next
  case (2 s)
  have ne: "q \<noteq> entry_file (ident e)" if "fst q \<noteq> EntriesDir" for q using that by auto
  have "honest w'" using 2 p set_mono_suffix [OF 2(1)] by (auto simp: progress_def honest_def)
  moreover have "store_inv X w'" using 2 p store_inv_removed by (simp add: progress_def)
  moreover have "taken_out X S (ident e) w'"
    using 2 p by (auto simp: progress_def stored_del_node taken_out_def)
  ultimately show ?thesis using 2 p ne
    by (simp add: progress_def marker_ok_def bytes_at_def entry_file_def)
qed

text \<open>No step turns a regular file into something else.\<close>

definition keeps_regular :: "path set \<Rightarrow> ('e, 'a) eff \<Rightarrow> bool" where
  "keeps_regular A m \<longleftrightarrow>
     (\<forall>w. (\<forall>p \<in> A. node_at w p \<noteq> Some Special) \<longrightarrow> (\<forall>p \<in> A. node_at (snd (m w)) p \<noteq> Some Special))"

named_theorems regular

lemma keeps_regular_and_then [regular]:
  assumes "keeps_regular A m" "\<And>x. keeps_regular A (f x)"
  shows "keeps_regular A (and_then m f)"
  unfolding keeps_regular_def
proof (rule allI, rule impI)
  fix w
  assume w: "\<forall>p \<in> A. node_at w p \<noteq> Some Special"
  obtain r w1 where m: "m w = (r, w1)" by fastforce
  then have one: "\<forall>p \<in> A. node_at w1 p \<noteq> Some Special" using assms(1) w by (metis keeps_regular_def snd_conv)
  show "\<forall>p \<in> A. node_at (snd (and_then m f w)) p \<noteq> Some Special"
  proof (cases r)
    case (Inl e)
    then show ?thesis using m one by (simp add: and_then_def)
  next
    case (Inr x)
    then have "and_then m f w = f x w1" using m by (simp add: and_then_def)
    then show ?thesis using one assms(2) [of x] unfolding keeps_regular_def by auto
  qed
qed

lemma keeps_regular_calls [regular]:
  "keeps_regular A m \<Longrightarrow> keeps_regular A (map_error g m)"
  "keeps_regular A (fs_create p)" "keeps_regular A (fs_write_all p bs)" "keeps_regular A fs_call"
  "p \<in> A \<Longrightarrow> keeps_regular A (fs_rename p q)"
  by (auto simp: keeps_regular_def map_error_def split_beta fs_create_def fs_write_all_def fs_call_def fs_rename_def
      append_bytes_def syscall_def split: list.splits option.splits node.splits)

lemma write_atomic_regular:
  assumes "write_atomic p bs w = (r, w')" "node_at w p \<noteq> Some Special" "node_at w (tmp_path p) \<noteq> Some Special"
  shows "node_at w' p \<noteq> Some Special \<and> node_at w' (tmp_path p) \<noteq> Some Special"
proof -
  have "keeps_regular {p, tmp_path p} (write_atomic p bs)" unfolding write_atomic_def by (intro regular) simp
  then show ?thesis using assms by (auto simp: keeps_regular_def dest!: spec [of _ w])
qed

lemma last_post_progress:
  assumes p: "progress X e h old S logged gone w" and run: "write_atomic last_post_path bs w = (r, w')"
  shows "progress X e h old S logged gone w' \<and> node_at w' completion_path = node_at w completion_path
    \<and> (r = Inr () \<longrightarrow> node_at w' last_post_path = Some (Regular bs))"
proof -
  have t: "touches {last_post_path, tmp_path last_post_path} (write_atomic last_post_path bs)"
    by (rule write_atomic_touches) simp_all
  have n: "q \<noteq> last_post_path \<Longrightarrow> q \<noteq> tmp_path last_post_path \<Longrightarrow> node_at w' q = node_at w q" for q
    using touchesD(1) [OF t run] by blast
  have d: "dirs w' EntriesDir = dirs w EntriesDir" by (rule touchesD(2) [OF t run]) simp
  have inv: "store_inv X w'" using p store_inv_frame [OF d touchesD(3) [OF t run]] by (simp add: progress_def)
  have "honest w'" using p touchesD(5) [OF t run] by (simp add: progress_def)
  moreover have "node_at w' last_post_path \<noteq> Some Special \<and> node_at w' (tmp_path last_post_path) \<noteq> Some Special"
    using write_atomic_regular [OF run] p by (simp add: progress_def)
  moreover have "r = Inr () \<longrightarrow> node_at w' last_post_path = Some (Regular bs)"
    using write_atomic_outcome [OF run] by simp
  ultimately show ?thesis
    using p inv n [of history_path] n [of completion_path] n [of "(AwaitDeletionsDir, ident e)"] stored_dirs [OF d, of X] taken_out_dirs [OF d, of X]
    unfolding progress_def marker_ok_def bytes_at_def by simp
qed

lemma remove_journal_progress:
  assumes p: "progress X e h old S logged gone w" and run: "fs_remove_file completion_path w = (r, w')"
  shows "progress X e h old S logged gone w' \<and> node_at w' last_post_path = node_at w last_post_path
    \<and> node_at w' completion_path = (if r = Inr () then None else node_at w completion_path)"
proof -
  have t: "touches {completion_path} (fs_remove_file completion_path)" by (rule touches_remove_file) simp
  have "progress X e h old S logged gone w'"
    by (rule progress_touches [OF t run _ _ p]) (simp_all add: own_paths_def)
  moreover have "node_at w' last_post_path = node_at w last_post_path" by (rule touchesD(1) [OF t run]) simp
  moreover have "node_at w' completion_path = (if r = Inr () then None else node_at w completion_path)"
    using run by (cases rule: fs_remove_file_outcome) simp_all
  ultimately show ?thesis by simp
qed

section \<open>Working the journal off\<close>

definition journalled ::
  "ext \<Rightarrow> stored_entry \<Rightarrow> history_record \<Rightarrow> string \<Rightarrow> stored_entry set \<Rightarrow> string \<Rightarrow> bool \<Rightarrow> bool \<Rightarrow> world \<Rightarrow> bool" where
  "journalled X e h old S j logged gone w \<longleftrightarrow>
     progress X e h old S logged gone w \<and> node_at w completion_path = Some (Regular j)"

definition finished ::
  "ext \<Rightarrow> stored_entry \<Rightarrow> history_record \<Rightarrow> string \<Rightarrow> stored_entry set \<Rightarrow> u64 \<Rightarrow> world \<Rightarrow> bool" where
  "finished X e h old S t w \<longleftrightarrow>
     progress X e h old S True True w \<and> node_at w completion_path = None
     \<and> node_at w last_post_path = Some (Regular (show_nat t))"

abbreviation recoverable ::
  "ext \<Rightarrow> stored_entry \<Rightarrow> history_record \<Rightarrow> string \<Rightarrow> stored_entry set \<Rightarrow> string \<Rightarrow> u64 \<Rightarrow> world \<Rightarrow> bool" where
  "recoverable X e h old S j t w \<equiv> journalled X e h old S j False False w \<or> finished X e h old S t w"

lemma journalled_weaken: "journalled X e h old S j logged gone w \<Longrightarrow> journalled X e h old S j False False w"
  by (auto simp: journalled_def progress_def)

lemma finished_reads:
  assumes "reads_only m" "m w = (r, w')" "finished X e h old S t w"
  shows "finished X e h old S t w'"
  using assms progress_reads [OF assms(1,2)] reads_only_frame(2) [OF assms(1,2)] by (simp add: finished_def)

lemma journalled_reads:
  assumes "reads_only m" "m w = (r, w')" "journalled X e h old S j logged gone w"
  shows "journalled X e h old S j logged gone w'"
  using assms progress_reads [OF assms(1,2)] reads_only_frame(2) [OF assms(1,2)] by (simp add: journalled_def)

lemma step_history:
  assumes j: "journal_of X c e h v"
  shows "upholds (recoverable X e h old S j t) (journalled X e h old S j False False)
    (append_completion_history X h (length old)) (\<lambda>_. journalled X e h old S j True False)"
proof -
  have step: "journalled X e h old S j (r = Inr ()) False w'"
    if P: "journalled X e h old S j False False w" and run: "append_once X h (length old) w = (r, w')" for w r w'
  proof -
    have "node_at w' completion_path = node_at w completion_path"
      by (rule touchesD(1) [OF append_once_touches run]) simp
    then show ?thesis using append_once_progress [OF j _ run, of S False False] P by (simp add: journalled_def)
  qed
  show ?thesis unfolding append_completion_history_def
  proof (rule upholdsI)
    fix w er w'
    assume "journalled X e h old S j False False w" "append_once X h (length old) w = (Inl er, w')"
    from step [OF this] show "recoverable X e h old S j t w'" by simp
  next
    fix w x w'
    assume "journalled X e h old S j False False w" "append_once X h (length old) w = (Inr x, w')"
    from step [OF this] show "journalled X e h old S j True False w'" by simp
  qed
qed

lemma step_marker:
  assumes "is_valid_id (ident e)"
  shows "upholds (recoverable X e h old S j t) (journalled X e h old S j True False)
    (clear_await_deletion X (ident e) inc) (\<lambda>_. journalled X e h old S j True False)"
proof (rule upholds_keep)
  fix w r w'
  assume P: "journalled X e h old S j True False w" and run: "clear_await_deletion X (ident e) inc w = (r, w')"
  then have "progress X e h old S True False w" by (simp add: journalled_def)
  from clear_await_progress [OF this assms run] show "journalled X e h old S j True False w'"
    using P by (simp add: journalled_def)
qed (simp add: journalled_weaken)

lemma step_find:
  assumes e: "\<forall>x \<in> S. ident x = ident e \<longrightarrow> x = e"
  shows "upholds (recoverable X e h old S j t) (journalled X e h old S j True False)
    (attempt (find_entry X (ident e)))
    (\<lambda>found w. journalled X e h old S j True False w
       \<and> (\<forall>x. found = Inr x \<longrightarrow> x = e)
       \<and> ((\<exists>i. found = Inl (UnknownId i)) \<longrightarrow> node_at w (entry_file (ident e)) = None))"
proof (rule upholdsI)
  fix w er w'
  assume "attempt (find_entry X (ident e)) w = (Inl er, w')"
  then show "recoverable X e h old S j t w'" by (simp add: attempt_def split: prod.splits)
next
  fix w found w'
  assume P: "journalled X e h old S j True False w" and "attempt (find_entry X (ident e)) w = (Inr found, w')"
  then have run: "find_entry X (ident e) w = (found, w')" by (simp add: attempt_def split: prod.splits)
  have "x = e" if "found = Inr x" for x
    using find_entry_sound [of X "ident e" w x w'] run that P e by (auto simp: journalled_def progress_def taken_out_def)
  moreover have "node_at w' (entry_file (ident e)) = None" if "found = Inl (UnknownId i)" for i
    using find_entry_missing [of X "ident e" w i w'] run that P reads_only_frame(2) [OF find_entry_reads run]
    by (simp add: journalled_def progress_def)
  ultimately show "journalled X e h old S j True False w' \<and> (\<forall>x. found = Inr x \<longrightarrow> x = e)
       \<and> ((\<exists>i. found = Inl (UnknownId i)) \<longrightarrow> node_at w' (entry_file (ident e)) = None)"
    using journalled_reads [OF find_entry_reads run P] by blast
qed

lemma step_remove:
  "upholds (recoverable X e h old S j t)
    (\<lambda>w. journalled X e h old S j True False w \<and> (\<not> rm \<longrightarrow> node_at w (entry_file (ident e)) = None))
    (remove_completed (entry_file (ident e)) rm) (\<lambda>_. journalled X e h old S j True True)"
proof (rule upholdsI)
  fix w er w'
  assume P: "journalled X e h old S j True False w \<and> (\<not> rm \<longrightarrow> node_at w (entry_file (ident e)) = None)"
    and run: "remove_completed (entry_file (ident e)) rm w = (Inl er, w')"
  obtain q w1 where q: "fs_remove_file (entry_file (ident e)) w = (q, w1)" by fastforce
  then have "w' = w1" using run by (auto simp: remove_completed_def and_then_def attempt_def ok_def err_def split: if_splits sum.splits)
  moreover have "journalled X e h old S j True (False \<or> q = Inr ()) w1"
    using remove_entry_progress [OF _ q, of X h old S True False] P by (simp add: journalled_def)
  ultimately show "recoverable X e h old S j t w'" using journalled_weaken by blast
next
  fix w and x :: unit and w'
  assume P: "journalled X e h old S j True False w \<and> (\<not> rm \<longrightarrow> node_at w (entry_file (ident e)) = None)"
    and run: "remove_completed (entry_file (ident e)) rm w = (Inr x, w')"
  obtain q w1 where q: "fs_remove_file (entry_file (ident e)) w = (q, w1)" by fastforce
  note rp = remove_entry_progress [OF _ q, of X h old S True False]
  show "journalled X e h old S j True True w'"
  proof (cases "rm \<and> q = Inr ()")
    case True
    then have "w' = w1" using run q by (auto simp: remove_completed_def and_then_def attempt_def ok_def)
    then show ?thesis using rp P True by (simp add: journalled_def)
  next
    case False
    have same: "node_at w' (entry_file (ident e)) = None \<and> journalled X e h old S j True False w'"
    proof (cases rm)
      case True
      then obtain er where er: "q = Inl er" "kind_of er = NotFound" "w' = w1"
        using run q False
        by (cases q) (auto simp: remove_completed_def and_then_def attempt_def ok_def err_def split: if_splits)
      have none: "node_at w (entry_file (ident e)) = None"
        using honest_calls(3) [OF _ er(2)] q er(1) P by (auto simp: journalled_def progress_def)
      have "node_at w1 (entry_file (ident e)) = None"
        using only_removes_remove [of "entry_file (ident e)"] q none by (metis only_removes_def snd_conv)
      then show ?thesis using rp P er by (simp add: journalled_def)
    next
      case False
      then have "w' = w" using run by (simp add: remove_completed_def ok_def)
      then show ?thesis using P False by simp
    qed
    then show ?thesis using progress_gone by (auto simp: journalled_def)
  qed
qed

lemma step_post:
  "upholds (recoverable X e h old S j t) (journalled X e h old S j True True)
    (write_atomic last_post_path (show_nat t))
    (\<lambda>_ w. journalled X e h old S j True True w \<and> node_at w last_post_path = Some (Regular (show_nat t)))"
proof -
  have step: "journalled X e h old S j True True w' \<and> (r = Inr () \<longrightarrow> node_at w' last_post_path = Some (Regular (show_nat t)))"
    if P: "journalled X e h old S j True True w" and run: "write_atomic last_post_path (show_nat t) w = (r, w')" for w r w'
  proof -
    have "progress X e h old S True True w" using P by (simp add: journalled_def)
    from last_post_progress [OF this run] show ?thesis using P by (simp add: journalled_def)
  qed
  show ?thesis
  proof (rule upholdsI)
    fix w er w'
    assume "journalled X e h old S j True True w" "write_atomic last_post_path (show_nat t) w = (Inl er, w')"
    from step [OF this] show "recoverable X e h old S j t w'" using journalled_weaken by blast
  next
    fix w x w'
    assume "journalled X e h old S j True True w" "write_atomic last_post_path (show_nat t) w = (Inr x, w')"
    from step [OF this]
    show "journalled X e h old S j True True w' \<and> node_at w' last_post_path = Some (Regular (show_nat t))" by simp
  qed
qed

lemma step_unlink:
  "upholds (recoverable X e h old S j t)
    (\<lambda>w. journalled X e h old S j True True w \<and> node_at w last_post_path = Some (Regular (show_nat t)))
    (io (fs_remove_file completion_path)) (\<lambda>_. finished X e h old S t)"
proof -
  have step: "if r = Inr () then finished X e h old S t w' else journalled X e h old S j True True w'"
    if P: "journalled X e h old S j True True w \<and> node_at w last_post_path = Some (Regular (show_nat t))"
      and run: "fs_remove_file completion_path w = (r, w')" for w r w'
  proof -
    have "progress X e h old S True True w" using P by (simp add: journalled_def)
    from remove_journal_progress [OF this run] show ?thesis using P by (simp add: journalled_def finished_def)
  qed
  show ?thesis
  proof (rule upholdsI)
    fix w er w'
    assume P: "journalled X e h old S j True True w \<and> node_at w last_post_path = Some (Regular (show_nat t))"
      and "io (fs_remove_file completion_path) w = (Inl er, w')"
    then obtain er' where "fs_remove_file completion_path w = (Inl er', w')" by (auto elim: io_InlE)
    from step [OF P this] show "recoverable X e h old S j t w'" using journalled_weaken by auto
  next
    fix w x w'
    assume P: "journalled X e h old S j True True w \<and> node_at w last_post_path = Some (Regular (show_nat t))"
      and "io (fs_remove_file completion_path) w = (Inr x, w')"
    then have "fs_remove_file completion_path w = (Inr x, w')" by (auto elim: map_error_InrE)
    from step [OF P this] show "finished X e h old S t w'" by simp
  qed
qed

lemma step_sync:
  "upholds (recoverable X e h old S j t) (finished X e h old S t) (io fs_call) (\<lambda>_. finished X e h old S t)"
proof (rule upholds_keep)
  fix w r w'
  assume P: "finished X e h old S t w" and run: "io fs_call w = (r, w')"
  have "reads_only (io fs_call)" by (intro reads)
  from finished_reads [OF this run P] show "finished X e h old S t w'" .
qed simp

lemma finish_completion_upholds:
  assumes j: "journal_of X c e h v" and off: "cr_history_offset c = Some (length old)"
    and e: "\<forall>x \<in> S. ident x = ident e \<longrightarrow> x = e"
  shows "upholds (recoverable X e h old S j (cr_posted_at c)) (journalled X e h old S j False False)
    (finish_completion X c) (\<lambda>_. finished X e h old S (cr_posted_at c))"
proof -
  let ?J = "recoverable X e h old S j (cr_posted_at c)" and ?P = "journalled X e h old S j"
  have i: "is_valid_id (ident e)" and id: "cr_id c = ident e" and tok: "cr_claim_token c = claim_token e"
    using j by (simp_all add: journal_of_def)
  have path: "entry_path (ident e) = ok (entry_file (ident e))"
    using i by (simp add: entry_path_def entry_file_def)
  have choice: "upholds ?J
      (\<lambda>w. ?P True False w \<and> (\<forall>x. found = Inr x \<longrightarrow> x = e)
         \<and> ((\<exists>i. found = Inl (UnknownId i)) \<longrightarrow> node_at w (entry_file (ident e)) = None))
      (case found of
         Inr entry \<Rightarrow> ok (case cr_claim_token c of None \<Rightarrow> True | Some token \<Rightarrow> claim_token entry = Some token)
       | Inl (UnknownId _) \<Rightarrow> ok False
       | Inl er \<Rightarrow> err er)
      (\<lambda>rm w. ?P True False w \<and> (\<not> rm \<longrightarrow> node_at w (entry_file (ident e)) = None))" for found
  proof (cases found)
    case (Inl er)
    then show ?thesis using journalled_weaken [of X e h old S j True False]
      by (cases er) (auto simp: upholds_def ok_def err_def)
  next
    case (Inr x)
    then show ?thesis by (cases "claim_token e") (auto simp: upholds_def ok_def tok)
  qed
  have h: "cr_history c = Some h" using j by (simp add: journal_of_def)
  have "upholds ?J (?P False False)
      (and_then (append_completion_history X h (length old)) (\<lambda>_. clear_await_deletion X (ident e) (hr_incarnation h)))
      (\<lambda>_. ?P True False)"
    by (rule upholds_and_then [OF step_history [OF j] step_marker [OF i]])
  then show ?thesis
    unfolding finish_completion_def id path and_then_ok h off option.case
    by (rule upholds_and_then)
      (rule upholds_and_then step_find [OF e] choice step_remove step_post step_unlink step_sync; assumption?)+
qed

section \<open>Recovery succeeds on a working file system\<close>

definition runs :: "(world \<Rightarrow> bool) \<Rightarrow> ('e, 'a) eff \<Rightarrow> ('a \<Rightarrow> world \<Rightarrow> bool) \<Rightarrow> bool" where
  "runs P m Q \<longleftrightarrow> (\<forall>w. P w \<longrightarrow> quiet w \<longrightarrow> (\<exists>x w'. m w = (Inr x, w') \<and> quiet w' \<and> Q x w'))"

lemma runs_and_then:
  assumes "runs P m Q" "\<And>x. runs (Q x) (f x) R"
  shows "runs P (and_then m f) R"
  unfolding runs_def
proof (intro allI impI)
  fix w
  assume "P w" "quiet w"
  then obtain x w1 where m: "m w = (Inr x, w1)" "quiet w1" "Q x w1" using assms(1) by (auto simp: runs_def)
  then obtain y w2 where "f x w1 = (Inr y, w2)" "quiet w2" "R y w2" using assms(2) [of x] by (auto simp: runs_def)
  then show "\<exists>x w'. and_then m f w = (Inr x, w') \<and> quiet w' \<and> R x w'" using m(1) by (auto simp: and_then_def)
qed

lemma runsI:
  assumes "upholds J P m Q" "touches A m" "\<And>w. P w \<Longrightarrow> quiet w \<Longrightarrow> \<exists>x w'. m w = (Inr x, w')"
  shows "runs P m Q"
  unfolding runs_def
proof (intro allI impI)
  fix w
  assume w: "P w" "quiet w"
  then obtain x w' where m: "m w = (Inr x, w')" using assms(3) by blast
  then show "\<exists>x w'. m w = (Inr x, w') \<and> quiet w' \<and> Q x w'"
    using upholdsD(2) [OF assms(1) w(1) m] touchesD(4) [OF assms(2) m w(2)] by blast
qed

lemma append_once_succeeds:
  assumes "quiet w" "node_at w history_path \<noteq> Some Special" "history_to_vec X r = Inr v"
  shows "\<exists>w'. append_once X r off w = (Inr (), w')"
proof -
  obtain b where b: "contains_attempt X (attempt_id r) off w = (Inr b, w)"
    using contains_attempt_total [OF assms(1,2)] by blast
  obtain w' where "history_append X r w = (Inr (), w')" using history_append_quiet [OF assms] by blast
  then show ?thesis using b by (cases b) (simp_all add: append_once_def and_then_def ok_def)
qed

text \<open>Whether the entry is still queued or already taken out, looking it up works.\<close>

lemma find_entry_progress:
  assumes "progress X e h old S logged gone w" "quiet w" "e \<in> S" "is_valid_id (ident e)"
  shows "find_entry X (ident e) w \<in> {(Inr e, w), (Inl (UnknownId (ident e)), w)}"
proof -
  consider "taken_out X S (ident e) w" | "stored X w = S" using assms(1) by (auto simp: progress_def)
  then show ?thesis
  proof cases
    case 1
    then show ?thesis using assms find_entry_quiet [OF assms(2,4), of X] by (simp add: taken_out_def)
  next
    case 2
    then show ?thesis using assms find_entry_stored [OF assms(2), of X "ident e" e] by simp
  qed
qed

lemma clear_await_succeeds:
  assumes p: "progress X e h old S logged gone w" and w: "quiet w" and e: "e \<in> S" "is_valid_id (ident e)"
  shows "\<exists>w'. clear_await_deletion X (ident e) inc w = (Inr (), w')"
proof -
  let ?m = "(AwaitDeletionsDir, ident e)"
  have path: "await_deletion_path (ident e) = ok ?m" using e by (simp add: await_deletion_path_def)
  have mk: "marker_ok X (ident e) w" using p by (simp add: progress_def)
  show ?thesis
  proof (cases "node_at w ?m")
    case None
    then show ?thesis using w by (simp add: clear_await_deletion_def path and_then_ok run_simps not_found_def)
  next
    case (Some n)
    then obtain bs where bs: "n = Regular bs" "is_ok (deletion_from_slice X bs)"
      using mk by (cases n) (simp_all add: marker_ok_def)
    then obtain d where n: "n = Regular bs" "deletion_from_slice X bs = Inr d"
      by (cases "deletion_from_slice X bs") auto
    obtain r where r: "find_entry X (ident e) w = (r, w)" "r = Inr e \<or> r = Inl (UnknownId (ident e))"
      using find_entry_progress [OF p w e] by auto
    from r(2) show ?thesis using w Some n r(1)
      by (auto simp: clear_await_deletion_def path and_then_ok run_simps)
  qed
qed

lemma runs_find:
  assumes e: "e \<in> S" "is_valid_id (ident e)"
  shows "runs (journalled X e h old S j True False) (attempt (find_entry X (ident e)))
    (\<lambda>found w. journalled X e h old S j True False w
       \<and> (found = Inr e \<or> found = Inl (UnknownId (ident e)) \<and> node_at w (entry_file (ident e)) = None))"
  unfolding runs_def
proof (intro allI impI)
  fix w
  assume P: "journalled X e h old S j True False w" and w: "quiet w"
  then obtain r where r: "find_entry X (ident e) w = (r, w)" "r = Inr e \<or> r = Inl (UnknownId (ident e))"
    using find_entry_progress [OF _ w e, of X h old True False] by (auto simp: journalled_def)
  have "node_at w (entry_file (ident e)) = None" if "r = Inl (UnknownId (ident e))"
    using find_entry_unknown [OF w, of X "ident e"] r(1) that by simp
  then show "\<exists>x w'. attempt (find_entry X (ident e)) w = (Inr x, w') \<and> quiet w' \<and> journalled X e h old S j True False w'
      \<and> (x = Inr e \<or> x = Inl (UnknownId (ident e)) \<and> node_at w' (entry_file (ident e)) = None)"
    using r P w by (auto simp: attempt_def)
qed

lemma runs_remove:
  "runs (\<lambda>w. journalled X e h old S j True False w \<and> (\<not> rm \<longrightarrow> node_at w (entry_file (ident e)) = None))
    (remove_completed (entry_file (ident e)) rm) (\<lambda>_. journalled X e h old S j True True)"
proof (rule runsI [OF step_remove])
  show "touches {entry_file (ident e)} (remove_completed (entry_file (ident e)) rm)"
    unfolding remove_completed_def by (intro frame) auto
  fix w
  assume P: "journalled X e h old S j True False w \<and> (\<not> rm \<longrightarrow> node_at w (entry_file (ident e)) = None)" and w: "quiet w"
  have "all_regular w" using P store_invD(2) by (auto simp: journalled_def progress_def)
  then have "node_at w (entry_file (ident e)) \<noteq> Some Special" by (simp add: all_regular_def entry_file_def)
  then show "\<exists>x w'. remove_completed (entry_file (ident e)) rm w = (Inr x, w')"
    using w
    by (cases "node_at w (entry_file (ident e))"; cases "the (node_at w (entry_file (ident e)))")
      (simp_all add: remove_completed_def run_simps not_found_def)
qed

lemma finish_completion_succeeds:
  assumes j: "journal_of X c e h v" and off: "cr_history_offset c = Some (length old)"
    and e: "\<forall>x \<in> S. ident x = ident e \<longrightarrow> x = e" "e \<in> S"
  shows "runs (journalled X e h old S j False False) (finish_completion X c) (\<lambda>_. finished X e h old S (cr_posted_at c))"
proof -
  let ?P = "journalled X e h old S j" and ?F = "finished X e h old S (cr_posted_at c)"
  have i: "is_valid_id (ident e)" and id: "cr_id c = ident e" and tok: "cr_claim_token c = claim_token e"
    and h: "cr_history c = Some h" and v: "history_to_vec X h = Inr v"
    using j by (simp_all add: journal_of_def)
  have path: "entry_path (ident e) = ok (entry_file (ident e))" using i by (simp add: entry_path_def entry_file_def)
  have one: "runs (?P False False) (append_completion_history X h (length old)) (\<lambda>_. ?P True False)"
    by (rule runsI [OF step_history [OF j] append_once_touches [folded append_completion_history_def]])
      (use append_once_succeeds [OF _ _ v] in \<open>auto simp: append_completion_history_def journalled_def progress_def\<close>)
  have two: "runs (?P True False) (clear_await_deletion X (ident e) (hr_incarnation h)) (\<lambda>_. ?P True False)"
    by (rule runsI [OF step_marker [OF i] clear_await_touches [OF i]])
      (use clear_await_succeeds [OF _ _ e(2) i] in \<open>auto simp: journalled_def\<close>)
  have choice: "runs
      (\<lambda>w. ?P True False w \<and> (found = Inr e \<or> found = Inl (UnknownId (ident e)) \<and> node_at w (entry_file (ident e)) = None))
      (case found of
         Inr entry \<Rightarrow> ok (case cr_claim_token c of None \<Rightarrow> True | Some token \<Rightarrow> claim_token entry = Some token)
       | Inl (UnknownId _) \<Rightarrow> ok False
       | Inl er \<Rightarrow> err er)
      (\<lambda>rm w. ?P True False w \<and> (\<not> rm \<longrightarrow> node_at w (entry_file (ident e)) = None))" for found
    by (cases "claim_token e") (auto simp: runs_def ok_def tok)
  have post: "runs (?P True True) (write_atomic last_post_path (show_nat (cr_posted_at c)))
      (\<lambda>_ w. ?P True True w \<and> node_at w last_post_path = Some (Regular (show_nat (cr_posted_at c))))"
    by (rule runsI [OF step_post write_atomic_touches [where A = UNIV]])
      (auto simp: journalled_def progress_def write_atomic_quiet)
  have unlink: "runs (\<lambda>w. ?P True True w \<and> node_at w last_post_path = Some (Regular (show_nat (cr_posted_at c))))
      (io (fs_remove_file completion_path)) (\<lambda>_. ?F)"
    by (rule runsI [OF step_unlink touches_map_error [OF touches_remove_file [where A = UNIV]]])
      (auto simp: journalled_def run_simps)
  have sync: "runs ?F (io fs_call) (\<lambda>_. ?F)"
    by (rule runsI [OF step_sync touches_map_error [OF touches_read_calls(1)]]) (auto simp: run_simps)
  show ?thesis
    unfolding finish_completion_def id path and_then_ok h off option.case
    by (rule runs_and_then [OF runs_and_then [OF one two]])
      (rule runs_and_then runs_find [OF e(2) i] choice runs_remove post unlink sync; assumption?)+
qed

section \<open>Reconciling\<close>

lemma fs_read_to_string_result:
  "fs_read_to_string p w = (Inr txt, w') \<Longrightarrow> node_at w p = Some (Regular txt)"
  by (auto simp: fs_read_to_string_def fs_read_def syscall_def and_then_def ok_def err_def
      split: list.splits option.splits node.splits sum.splits if_splits)

lemma fs_read_to_string_missing:
  assumes "fs_read_to_string p w = (Inl e, w')" "honest w" "kind_of e = NotFound"
  shows "node_at w p = None"
  using assms
  by (auto simp: fs_read_to_string_def fs_read_def syscall_def and_then_def ok_def err_def honest_def is_a_directory_def not_found_def
      split: list.splits option.splits node.splits sum.splits if_splits)

lemma reconcile_absent:
  assumes "node_at w completion_path = None" "reconcile_completion X w = (r, w')"
  shows "\<exists>s. w' = w\<lparr>script := s\<rparr> \<and> suffix s (script w)" and "quiet w \<Longrightarrow> r = Inr ()"
proof -
  obtain q w1 where q: "fs_read_to_string completion_path w = (q, w1)" by fastforce
  have "\<And>txt. q \<noteq> Inr txt" using fs_read_to_string_result [of completion_path w] q assms(1) by force
  then obtain e where e: "q = Inl e" by (cases q) auto
  then have "w' = w1" using assms(2) q
    by (auto simp: reconcile_completion_def and_then_def attempt_def ok_def err_def split: if_splits)
  then show "\<exists>s. w' = w\<lparr>script := s\<rparr> \<and> suffix s (script w)"
    using reads_onlyD [OF reads_only_read_to_string q] by blast
  show "r = Inr ()" if w: "quiet w"
    using assms(2) fs_read_to_string_quiet [OF w, of completion_path] assms(1)
    by (simp add: reconcile_completion_def run_simps not_found_def)
qed

lemma reconcile_recoverable:
  assumes j: "journal_of X c e h v" and off: "cr_history_offset c = Some (length old)"
    and dec: "completion_from_str X jn = Inr c"
    and e: "\<forall>x \<in> S. ident x = ident e \<longrightarrow> x = e"
    and w: "recoverable X e h old S jn (cr_posted_at c) w" and run: "reconcile_completion X w = (r, w')"
  shows "recoverable X e h old S jn (cr_posted_at c) w' \<and> (r = Inr () \<longrightarrow> finished X e h old S (cr_posted_at c) w')"
proof (cases "finished X e h old S (cr_posted_at c) w")
  case True
  then have "node_at w completion_path = None" by (simp add: finished_def)
  then obtain s where "w' = w\<lparr>script := s\<rparr>" "suffix s (script w)" using reconcile_absent(1) [OF _ run] by blast
  then have "finished X e h old S (cr_posted_at c) w'"
    using True set_mono_suffix [of s "script w"]
    by (auto simp: finished_def progress_def honest_def marker_ok_def taken_out_def)
  then show ?thesis by simp
next
  case False
  then have P: "journalled X e h old S jn False False w" using w by blast
  obtain q w1 where q: "fs_read_to_string completion_path w = (q, w1)" by fastforce
  have P1: "journalled X e h old S jn False False w1" by (rule journalled_reads [OF reads_only_read_to_string q P])
  show ?thesis
  proof (cases q)
    case (Inl er)
    then have "kind_of er \<noteq> NotFound"
      using fs_read_to_string_missing [of completion_path w er w1] q P by (auto simp: journalled_def progress_def)
    then have "w' = w1" "r \<noteq> Inr ()" using run q Inl
      by (auto simp: reconcile_completion_def and_then_def attempt_def ok_def err_def)
    then show ?thesis using P1 by blast
  next
    case (Inr content)
    then have "content = jn" using fs_read_to_string_result [of completion_path w content w1] q P by (simp add: journalled_def)
    then have fin: "finish_completion X c w1 = (r, w')" using run q Inr dec
      by (simp add: reconcile_completion_def and_then_def attempt_def from_result_def)
    note up = finish_completion_upholds [OF j off e]
    show ?thesis
    proof (cases r)
      case (Inl er)
      then show ?thesis using upholdsD(1) [OF up P1] fin by blast
    next
      case (Inr u)
      then show ?thesis using upholdsD(2) [OF up P1] fin by blast
    qed
  qed
qed

section \<open>Completing a claim\<close>

definition post_record :: "ext \<Rightarrow> stored_entry \<Rightarrow> string \<Rightarrow> u64 \<Rightarrow> string option \<Rightarrow> nat \<Rightarrow> history_record" where
  "post_record X e th t url n =
     \<lparr>attempt_id = new_uuid X n, hr_id = ident e, posted_at = t, success = True, hr_error = None,
      token_hash = th, comment_url = url, hr_incarnation = incarnation e, hr_request = request e\<rparr>"

definition journal_record :: "stored_entry \<Rightarrow> u64 \<Rightarrow> history_record \<Rightarrow> nat \<Rightarrow> completion_record" where
  "journal_record e t h off =
     \<lparr>cr_id = ident e, cr_posted_at = t, cr_claim_token = claim_token e, cr_history = Some h,
      cr_history_offset = Some off\<rparr>"

text \<open>The state before the journal is in place.\<close>

definition untouched ::
  "ext \<Rightarrow> stored_entry \<Rightarrow> history_record \<Rightarrow> string \<Rightarrow> stored_entry set \<Rightarrow> world \<Rightarrow> bool" where
  "untouched X e h old S w \<longleftrightarrow>
     progress X e h old S False False w \<and> bytes_at w history_path = old \<and> stored X w = S
     \<and> node_at w completion_path = None"

lemma untouched_reads:
  assumes "reads_only m" "m w = (r, w')" "untouched X e h old S w"
  shows "untouched X e h old S w'"
  using assms progress_reads [OF assms(1,2)] reads_only_frame [OF assms(1,2)] stored_dirs [of w' w X]
  by (simp add: untouched_def)

lemma progress_script:
  "progress X e h old S logged gone w \<Longrightarrow> honest (w\<lparr>script := s\<rparr>) \<Longrightarrow> progress X e h old S logged gone (w\<lparr>script := s\<rparr>)"
  by (simp add: progress_def marker_ok_def taken_out_def)

lemma states_script:
  assumes "honest (w\<lparr>script := s\<rparr>)"
  shows "untouched X e h old S w \<Longrightarrow> untouched X e h old S (w\<lparr>script := s\<rparr>)"
    and "journalled X e h old S j logged gone w \<Longrightarrow> journalled X e h old S j logged gone (w\<lparr>script := s\<rparr>)"
    and "finished X e h old S t w \<Longrightarrow> finished X e h old S t (w\<lparr>script := s\<rparr>)"
  using progress_script [OF _ assms] by (simp_all add: untouched_def journalled_def finished_def)

lemma untouched_drawn: "untouched X e h old S w \<Longrightarrow> untouched X e h old S (drawn w)"
proof -
  assume P: "untouched X e h old S w"
  then have "progress X e h old S False False w" by (simp add: untouched_def)
  then have "progress X e h old S False False (drawn w)"
    by (simp add: progress_def marker_ok_def taken_out_def bytes_at_def honest_def)
  then show ?thesis using P by (simp add: untouched_def bytes_at_def)
qed

lemma journal_written:
  assumes P: "untouched X e h old S w" and run: "write_atomic completion_path jn w = (r, w')"
  shows "(r \<noteq> Inr () \<and> untouched X e h old S w') \<or> journalled X e h old S jn False False w'"
proof -
  have t: "touches {completion_path, tmp_path completion_path} (write_atomic completion_path jn)"
    by (rule write_atomic_touches) simp_all
  have pr: "progress X e h old S False False w'"
    by (rule progress_touches [OF t run]) (use P in \<open>simp_all add: own_paths_def untouched_def\<close>)
  have "bytes_at w' history_path = bytes_at w history_path" by (rule touches_bytes [OF t run]) simp
  moreover have "stored X w' = stored X w" by (rule stored_dirs, rule touchesD(2) [OF t run]) simp
  moreover have "(node_at w' completion_path = node_at w completion_path \<or> node_at w' completion_path = Some (Regular jn))
      \<and> (r = Inr () \<longrightarrow> node_at w' completion_path = Some (Regular jn))"
    using write_atomic_outcome [OF run] by simp
  ultimately show ?thesis using P pr by (auto simp: untouched_def journalled_def)
qed

lemma history_success_run:
  "history_success X e th t url w = (Inr (post_record X e th t url (uuids_used w)), drawn w)"
  by (simp add: history_success_def run_simps post_record_def drawn_def)

lemma log_length_known:
  assumes md: "fs_metadata history_path w = (q, w')" and w: "honest w" "node_at w history_path \<noteq> Some Special"
  shows "case q of Inr (_, len) \<Rightarrow> len = length (bytes_at w history_path)
    | Inl er \<Rightarrow> kind_of er = NotFound \<longrightarrow> bytes_at w history_path = []"
proof (cases q)
  case (Inl er)
  then show ?thesis using honest_calls(1) [OF w(1)] md by (auto simp: bytes_at_def)
next
  case (Inr p)
  obtain b len where p: "p = (b, len)" by fastforce
  then obtain x where x: "node_at w history_path = Some x" "len = node_len x" using fs_metadata_result md Inr by blast
  then show ?thesis using w(2) Inr p by (cases x) (simp_all add: bytes_at_def node_len_def)
qed

lemma complete_claim_upholds:
  fixes w0 :: world and t :: u64
  defines "h \<equiv> \<lambda>X e th url. post_record X e th t url (uuids_used w0)"
  assumes codec: "history_codec X" "history_to_vec X (h X e th url) = Inr v" "length v < MAX_HISTORY_LINE_BYTES"
    and jn: "completion_to_vec X (journal_record e t (h X e th url) (length old)) = Inr jn"
      "completion_from_str X jn = Inr (journal_record e t (h X e th url) (length old))"
    and e: "\<forall>x \<in> S. ident x = ident e \<longrightarrow> x = e" "is_valid_id (ident e)"
  shows "upholds (\<lambda>w. untouched X e (h X e th url) old S w \<or> recoverable X e (h X e th url) old S jn t w)
    (\<lambda>w. untouched X e (h X e th url) old S w \<and> uuids_used w = uuids_used w0)
    (complete_claim_with_token X e th t url) (\<lambda>_. finished X e (h X e th url) old S t)"
proof -
  let ?h = "h X e th url" and ?c = "journal_record e t (h X e th url) (length old)"
  let ?U = "\<lambda>w. untouched X e ?h old S w \<and> uuids_used w = uuids_used w0"
  let ?J = "\<lambda>w. untouched X e ?h old S w \<or> recoverable X e ?h old S jn t w"
  have j: "journal_of X ?c e ?h v" using codec e(2) by (simp add: journal_of_def journal_record_def)
  have keep: "?U w'" if "reads_only m" "m w = (r, w')" "?U w" for m :: "('x, 'y) eff" and w r w'
    using that untouched_reads [OF that(1,2)] reads_only_frame(4) [OF that(1,2)] by simp
  have find: "upholds ?J ?U (if claim_token e = None
      then and_then (find_entry X (ident e)) (\<lambda>_. ok ()) else ok ()) (\<lambda>_. ?U)" (is "upholds _ _ ?m _")
  proof -
    have "reads_only ?m" by (auto intro!: reads)
    then show ?thesis using keep [of ?m] by (intro upholds_keep) blast+
  qed
  have meta: "upholds ?J ?U (attempt (fs_metadata history_path) :: (io_error + bool \<times> nat) store)
      (\<lambda>md w. ?U w \<and> (case md of Inr (_, len) \<Rightarrow> len = length old | Inl er \<Rightarrow> kind_of er = NotFound \<longrightarrow> old = []))"
  proof (rule upholdsI)
    fix w and er :: store_error and w'
    assume "attempt (fs_metadata history_path) w = (Inl er, w')"
    then show "?J w'" by (simp add: attempt_def split: prod.splits)
  next
    fix w md w'
    assume U: "?U w" and "attempt (fs_metadata history_path) w = (Inr md :: store_error + _, w')"
    then have run: "fs_metadata history_path w = (md, w')" by (simp add: attempt_def split: prod.splits)
    show "?U w' \<and> (case md of Inr (_, len) \<Rightarrow> len = length old | Inl er \<Rightarrow> kind_of er = NotFound \<longrightarrow> old = [])"
      using keep [OF reads_only_calls(4) run U] log_length_known [OF run] U
      by (auto simp: untouched_def progress_def split: sum.splits)
  qed
  have offset: "upholds ?J
      (\<lambda>w. ?U w \<and> (case md of Inr (_, len) \<Rightarrow> len = length old | Inl er \<Rightarrow> kind_of er = NotFound \<longrightarrow> old = []))
      (case md of Inr (_, len) \<Rightarrow> ok len | Inl er \<Rightarrow> if kind_of er = NotFound then ok 0 else err (Io er))
      (\<lambda>off w. ?U w \<and> off = length old)" for md :: "io_error + bool \<times> nat"
    by (cases md) (auto simp: upholds_def ok_def err_def)
  have draw: "upholds ?J (\<lambda>w. ?U w \<and> off = length old) (history_success X e th t url)
      (\<lambda>x w. untouched X e ?h old S w \<and> off = length old \<and> x = ?h)" for off
    by (intro upholdsI) (auto simp: history_success_run h_def intro: untouched_drawn)
  have encode: "upholds ?J (\<lambda>w. untouched X e ?h old S w \<and> off = length old \<and> x = ?h)
      (serde (completion_to_vec X \<lparr>cr_id = ident e, cr_posted_at = t, cr_claim_token = claim_token e,
         cr_history = Some x, cr_history_offset = Some off\<rparr>))
      (\<lambda>bs w. untouched X e ?h old S w \<and> bs = jn)" for off x
    using jn(1) by (auto simp: upholds_def from_result_def journal_record_def)
  have journal: "upholds ?J (\<lambda>w. untouched X e ?h old S w \<and> bs = jn) (write_atomic completion_path bs)
      (\<lambda>_. journalled X e ?h old S jn False False)" for bs
  proof (rule upholdsI)
    fix w er w'
    assume "untouched X e ?h old S w \<and> bs = jn" "write_atomic completion_path bs w = (Inl er, w')"
    then show "?J w'" using journal_written [of X e ?h old S w jn "Inl er" w'] by auto
  next
    fix w x w'
    assume "untouched X e ?h old S w \<and> bs = jn" "write_atomic completion_path bs w = (Inr x, w')"
    then show "journalled X e ?h old S jn False False w'"
      using journal_written [of X e ?h old S w jn "Inr x" w'] by auto
  qed
  have off: "cr_history_offset ?c = Some (length old)" "cr_posted_at ?c = t" by (simp_all add: journal_record_def)
  note rr = reconcile_recoverable [OF j off(1) jn(2) e(1), unfolded off(2)]
  have rec: "upholds ?J (journalled X e ?h old S jn False False) (reconcile_completion X) (\<lambda>_. finished X e ?h old S t)"
  proof (rule upholdsI)
    fix w er w'
    assume "journalled X e ?h old S jn False False w" and run: "reconcile_completion X w = (Inl er, w')"
    then have "recoverable X e ?h old S jn t w" by blast
    from rr [OF this run] show "?J w'" by blast
  next
    fix w x w'
    assume "journalled X e ?h old S jn False False w" and run: "reconcile_completion X w = (Inr x, w')"
    then have "recoverable X e ?h old S jn t w" by blast
    from rr [OF this run] show "finished X e ?h old S t w'" by simp
  qed
  show ?thesis
    unfolding complete_claim_with_token_def
    by (rule upholds_and_then find meta offset draw encode journal rec)+
qed

section \<open>Any number of interrupted recoveries\<close>

text \<open>The states a daemon can leave behind when it starts its recovery again and again, each time
  under other failures.\<close>

inductive recovery_attempts :: "ext \<Rightarrow> world \<Rightarrow> world \<Rightarrow> bool" for X w where
  none: "recovery_attempts X w w"
| again: "recovery_attempts X w w1 \<Longrightarrow> honest (w1\<lparr>script := s\<rparr>) \<Longrightarrow>
    reconcile_completion X (w1\<lparr>script := s\<rparr>) = (r, w2) \<Longrightarrow> recovery_attempts X w w2"

lemma recovery_keeps_untouched:
  "recovery_attempts X w w' \<Longrightarrow> untouched X e h old S w \<Longrightarrow> untouched X e h old S w'"
proof (induction rule: recovery_attempts.induct)
  case (again w1 s r w2)
  have U: "untouched X e h old S (w1\<lparr>script := s\<rparr>)" by (rule states_script(1) [OF again.hyps(2) again.IH [OF again.prems]])
  then have "node_at (w1\<lparr>script := s\<rparr>) completion_path = None" by (simp add: untouched_def)
  from reconcile_absent(1) [OF this again.hyps(3)] obtain s' where s': "w2 = w1\<lparr>script := s'\<rparr>" "suffix s' s" by auto
  have "honest (w1\<lparr>script := s'\<rparr>)"
    using again.hyps(2) set_mono_suffix [OF s'(2)] by (auto simp: honest_def)
  then show ?case using states_script(1) [OF _ again.IH [OF again.prems]] s'(1) by simp
qed simp

lemma recovery_keeps_recoverable:
  assumes "recovery_attempts X w w'"
    and j: "journal_of X c e h v" and off: "cr_history_offset c = Some (length old)"
    and dec: "completion_from_str X jn = Inr c" and e: "\<forall>x \<in> S. ident x = ident e \<longrightarrow> x = e"
    and w: "recoverable X e h old S jn (cr_posted_at c) w"
  shows "recoverable X e h old S jn (cr_posted_at c) w'"
  using assms(1)
proof (induction rule: recovery_attempts.induct)
  case none
  show ?case by (rule w)
next
  case (again w1 s r w2)
  have "recoverable X e h old S jn (cr_posted_at c) (w1\<lparr>script := s\<rparr>)"
    using states_script(2,3) [OF again.hyps(2)] again.IH by blast
  from reconcile_recoverable [OF j off dec e this again.hyps(3)] show ?case by blast
qed

lemma reconcile_finishes:
  assumes j: "journal_of X c e h v" and off: "cr_history_offset c = Some (length old)"
    and dec: "completion_from_str X jn = Inr c" "valid_utf8 jn"
    and e: "\<forall>x \<in> S. ident x = ident e \<longrightarrow> x = e" "e \<in> S"
    and w: "recoverable X e h old S jn (cr_posted_at c) w" "quiet w"
  shows "\<exists>w'. reconcile_completion X w = (Inr (), w') \<and> quiet w' \<and> finished X e h old S (cr_posted_at c) w'"
proof -
  have "\<exists>w'. reconcile_completion X w = (Inr (), w') \<and> quiet w'"
  proof (cases "journalled X e h old S jn False False w")
    case True
    then have "fs_read_to_string completion_path w = (Inr jn, w)"
      using fs_read_to_string_quiet [OF w(2), of completion_path] dec(2) by (simp add: journalled_def)
    moreover obtain w' where "finish_completion X c w = (Inr (), w')" "quiet w'"
      using finish_completion_succeeds [OF j off e, of jn] True w(2) by (auto simp: runs_def)
    ultimately show ?thesis using dec(1) by (simp add: reconcile_completion_def run_simps)
  next
    case False
    then have "node_at w completion_path = None" using w(1) by (simp add: finished_def)
    moreover obtain r w' where run: "reconcile_completion X w = (r, w')" by fastforce
    ultimately show ?thesis using reconcile_absent [OF _ run] w(2) by auto
  qed
  then obtain w' where run: "reconcile_completion X w = (Inr (), w')" "quiet w'" by blast
  from reconcile_recoverable [OF j off dec(1) e(1) w(1) run(1)] run show ?thesis by blast
qed

lemma pending_list_stored:
  assumes "wf_dirs w" "wf_dirs w'" "stored X w' = stored X w"
  shows "pending_list X w' = pending_list X w"
  using set_pending_list [OF assms(1), of X] distinct_pending_list(2) [OF assms(1), of X] sorted_pending_list [of X w] assms(3)
  by (intro pending_listI [OF assms(2)]) simp_all

text \<open>What the two ends of a completion mean for a reader of the store.\<close>

lemma untouched_meaning:
  assumes "untouched X e h (bytes_at w0 history_path) (stored X w0) w" "store_inv X w0"
  shows "store_inv X w" "log_records X (bytes_at w history_path) = log_records X (bytes_at w0 history_path)"
    "pending_list X w = pending_list X w0"
  using assms pending_list_stored [of w0 w X] store_invD(1) by (auto simp: untouched_def progress_def)

lemma finished_meaning:
  assumes "finished X e h (bytes_at w0 history_path) (stored X w0) t w" "store_inv X w0" "t \<le> u64_max" "quiet w"
    and edge: "no_edge_line (bytes_at w0 history_path)"
  shows "store_inv X w" "log_records X (bytes_at w history_path) = log_records X (bytes_at w0 history_path) @ [h]"
    "pending_list X w = filter (\<lambda>x. ident x \<noteq> ident e) (pending_list X w0)" "last_post w = (Inr (Some t), w)"
    "node_at w completion_path = None"
proof -
  show inv: "store_inv X w" using assms by (simp add: finished_def progress_def)
  show "log_records X (bytes_at w history_path) = log_records X (bytes_at w0 history_path) @ [h]"
    using assms log_atD(2) [of X "bytes_at w0 history_path" "[h]" "bytes_at w history_path" 0]
    by (auto simp: finished_def progress_def)
  have "stored X w = {x \<in> stored X w0. ident x \<noteq> ident e}" using assms by (simp add: finished_def progress_def taken_out_def)
  then show "pending_list X w = filter (\<lambda>x. ident x \<noteq> ident e) (pending_list X w0)"
    by (rule pending_list_removed [OF store_invD(1) [OF assms(2)] store_invD(1) [OF inv]])
  show "last_post w = (Inr (Some t), w)" using assms last_post_quiet [OF assms(4)] by (simp add: finished_def)
  show "node_at w completion_path = None" using assms by (simp add: finished_def)
qed

section \<open>Properties\<close>

text \<open>The state in which a completion may start: no journal is pending, the files it will use are
  regular, and the log has no line of exactly the maximal length.\<close>

definition ready_to_complete :: "ext \<Rightarrow> stored_entry \<Rightarrow> world \<Rightarrow> bool" where
  "ready_to_complete X e w \<longleftrightarrow>
     honest w \<and> store_inv X w \<and> e \<in> stored X w \<and> marker_ok X (ident e) w
     \<and> node_at w completion_path = None \<and> node_at w history_path \<noteq> Some Special
     \<and> node_at w last_post_path \<noteq> Some Special \<and> node_at w (tmp_path last_post_path) \<noteq> Some Special
     \<and> no_edge_line (bytes_at w history_path)"

lemma ready_untouched:
  "ready_to_complete X e w \<Longrightarrow> untouched X e h (bytes_at w history_path) (stored X w) w"
  using log_at_start by (auto simp: ready_to_complete_def untouched_def progress_def)

lemma complete_claim_outcome:
  assumes codec: "history_codec X" "completion_codec X" and ready: "ready_to_complete X e w"
    and h: "h = post_record X e th t url (uuids_used w)" "history_to_vec X h = Inr v"
      "length v < MAX_HISTORY_LINE_BYTES"
    and run: "complete_claim_with_token X e th t url w = (r, w1)"
  obtains c jn where "journal_of X c e h v" "cr_history_offset c = Some (length (bytes_at w history_path))"
    "cr_posted_at c = t" "completion_from_str X jn = Inr c" "valid_utf8 jn"
    "(r \<noteq> Inr () \<and> untouched X e h (bytes_at w history_path) (stored X w) w1)
     \<or> recoverable X e h (bytes_at w history_path) (stored X w) jn t w1"
    "r = Inr () \<longrightarrow> finished X e h (bytes_at w history_path) (stored X w) t w1"
proof -
  let ?old = "bytes_at w history_path" and ?S = "stored X w"
  let ?c = "journal_record e t h (length ?old)"
  have e: "\<forall>x \<in> ?S. ident x = ident e \<longrightarrow> x = e" "is_valid_id (ident e)"
    using ready stored_same_ident by (auto simp: ready_to_complete_def stored_def)
  obtain jn where jn: "completion_to_vec X ?c = Inr jn" "valid_utf8 jn" "completion_from_str X jn = Inr ?c"
    using codec(2) by (auto simp: completion_codec_def)
  have j: "journal_of X ?c e h v" using codec(1) h e(2) by (simp add: journal_of_def journal_record_def)
  have c: "cr_history_offset ?c = Some (length ?old)" "cr_posted_at ?c = t" by (simp_all add: journal_record_def)
  note up = complete_claim_upholds [OF codec(1) h(2,3) [unfolded h(1)] jn(1,3) [unfolded h(1)] e, folded h(1)]
  have U: "untouched X e h ?old ?S w \<and> uuids_used w = uuids_used w" using ready_untouched [OF ready] by simp
  have "(r \<noteq> Inr () \<and> untouched X e h ?old ?S w1) \<or> recoverable X e h ?old ?S jn t w1"
    "r = Inr () \<longrightarrow> finished X e h ?old ?S t w1"
    using upholdsD [OF up U] run by (cases r; auto)+
  then show ?thesis using that [OF j c jn(3,2)] by blast
qed

text \<open>C2. A completed post is recorded exactly once, whatever fails. Stop a completion at any system
  call, and let any number of recoveries be stopped in the same way: the next recovery that
  meets no failure succeeds, and then either the completion never happened (it had not
  reported success, and log and queue are as before), or all of it did: the log has gained
  the record once, the entry has left the queue, the posting time is set, and the journal is gone.\<close>

theorem completion_survives_crashes:
  assumes codec: "history_codec X" "completion_codec X" and ready: "ready_to_complete X e w"
    and h: "h = post_record X e th t url (uuids_used w)" "history_to_vec X h = Inr v"
      "length v < MAX_HISTORY_LINE_BYTES" and t: "t \<le> u64_max"
    and run: "complete_claim_with_token X e th t url w = (r, w1)" and again: "recovery_attempts X w1 w2"
  shows "\<exists>w3. reconcile_completion X (w2\<lparr>script := []\<rparr>) = (Inr (), w3) \<and> store_inv X w3
    \<and> node_at w3 completion_path = None
    \<and> (r \<noteq> Inr () \<and> log_records X (bytes_at w3 history_path) = log_records X (bytes_at w history_path)
         \<and> pending_list X w3 = pending_list X w
       \<or> log_records X (bytes_at w3 history_path) = log_records X (bytes_at w history_path) @ [h]
         \<and> pending_list X w3 = filter (\<lambda>x. ident x \<noteq> ident e) (pending_list X w)
         \<and> last_post w3 = (Inr (Some t), w3))"
proof -
  let ?old = "bytes_at w history_path" and ?S = "stored X w"
  have e: "e \<in> ?S" "\<forall>x \<in> ?S. ident x = ident e \<longrightarrow> x = e" and inv: "store_inv X w"
    and edge: "no_edge_line ?old"
    using ready stored_same_ident by (auto simp: ready_to_complete_def)
  obtain c jn where j: "journal_of X c e h v" and c: "cr_history_offset c = Some (length ?old)" "cr_posted_at c = t"
    and jn: "completion_from_str X jn = Inr c" "valid_utf8 jn"
    and out: "(r \<noteq> Inr () \<and> untouched X e h ?old ?S w1) \<or> recoverable X e h ?old ?S jn t w1"
    using complete_claim_outcome [OF codec ready h run] by metis
  from out show ?thesis
  proof
    assume A: "r \<noteq> Inr () \<and> untouched X e h ?old ?S w1"
    then have "untouched X e h ?old ?S w2" using recovery_keeps_untouched [OF again] by blast
    then have U2: "untouched X e h ?old ?S (w2\<lparr>script := []\<rparr>)" by (intro states_script(1)) (simp_all add: honest_def)
    then have none: "node_at (w2\<lparr>script := []\<rparr>) completion_path = None" by (simp add: untouched_def)
    obtain q w3 where q: "reconcile_completion X (w2\<lparr>script := []\<rparr>) = (q, w3)" by fastforce
    have "w3 = w2\<lparr>script := []\<rparr>" "q = Inr ()" using reconcile_absent [OF none q] by auto
    then show ?thesis using q none A untouched_meaning [OF U2 inv] by auto
  next
    assume "recoverable X e h ?old ?S jn t w1"
    then have "recoverable X e h ?old ?S jn t w2"
      using recovery_keeps_recoverable [OF again j c(1) jn(1) e(2)] c(2) by simp
    then have "recoverable X e h ?old ?S jn t (w2\<lparr>script := []\<rparr>)"
      using states_script(2,3) [where w = w2 and s = "[]"] by (auto simp: honest_def)
    then obtain w3 where "reconcile_completion X (w2\<lparr>script := []\<rparr>) = (Inr (), w3)" "quiet w3" "finished X e h ?old ?S t w3"
      using reconcile_finishes [OF j c(1) jn e(2,1), of "w2\<lparr>script := []\<rparr>"] c(2) by auto
    then show ?thesis using finished_meaning [OF _ inv t _ edge] by blast
  qed
qed

lemma sample_ready:
  "honest (sample_world\<lparr>script := s\<rparr>) \<Longrightarrow> ready_to_complete ref_ext sample_entry (sample_world\<lparr>script := s\<rparr>)"
proof -
  assume s: "honest (sample_world\<lparr>script := s\<rparr>)"
  have none: "node_at sample_world (d, k) = None" if "d \<noteq> EntriesDir" for d k
    using that by (simp add: node_at_def sample_dirs)
  show ?thesis
    using s sample_inv sample_stored none [of QueueDir] none [of AwaitDeletionsDir]
    by (simp add: ready_to_complete_def marker_ok_def path_defs marker_tmp [unfolded path_defs]
        bytes_at_def no_edge_line_def)
qed

theorem completion_survives_crashes_witness:
  "\<exists>r w1 w3. complete_claim_with_token ref_ext sample_entry ''h'' 500 None (sample_world\<lparr>script := replicate 9 None @ [Some (is_a_directory, 3)]\<rparr>)
       = (r, w1)
     \<and> reconcile_completion ref_ext (w1\<lparr>script := []\<rparr>) = (Inr (), w3) \<and> node_at w3 completion_path = None"
proof -
  let ?w = "sample_world\<lparr>script := replicate 9 None @ [Some (is_a_directory, 3)]\<rparr>"
  let ?h = "post_record ref_ext sample_entry ''h'' 500 None (uuids_used ?w)"
  have v: "history_to_vec ref_ext ?h = Inr (enc_history ?h @ ''}'')" by (simp add: ref_ext_def to_doc_def)
  have u: "uuids_used ?w = 0" by (simp add: sample_world_def written_def empty_world_def set_node_def del_node_def)
  have "length (enc_history (post_record ref_ext sample_entry ''h'' 500 None 0) @ ''}'') < 1000"
    by code_simp
  then have short: "length (enc_history ?h @ ''}'') < MAX_HISTORY_LINE_BYTES" unfolding u by (simp add: limits)
  have t: "(500 :: nat) \<le> u64_max" by (simp add: limits)
  have "honest ?w" by (simp add: honest_def is_a_directory_def)
  note ready = sample_ready [OF this]
  obtain r w1 where run: "complete_claim_with_token ref_ext sample_entry ''h'' 500 None ?w = (r, w1)" by fastforce
  from completion_survives_crashes [OF ref_history_codec ref_completion_codec ready refl v short t run recovery_attempts.none]
  show ?thesis using run by blast
qed

end
