(* ===== verification/Queue_Store_Props.thy ===== *)
theory Queue_Store_Props
  imports Queue_Store Completion_Props
begin

text \<open>
  The reordering and deleting operations of the store against the abstract queue, the list
  of pending entries: \<open>bump\<close> moves an entry to the front, \<open>bust\<close> to the back, \<open>del\<close>
  removes it and leaves a marker for the clients waiting for it.
\<close>

section \<open>Reordering\<close>

abbreviation without :: "string \<Rightarrow> stored_entry list \<Rightarrow> stored_entry list" where
  "without i \<equiv> filter (\<lambda>x. ident x \<noteq> i)"

lemma reorder_quiet:
  assumes laws: "store_laws X" and w: "quiet w" and inv: "store_inv X w" and e: "e \<in> stored X w"
    and range: "i64_min \<le> new_order e (pending_list X w)" "new_order e (pending_list X w) \<le> i64_max"
  defines "e' \<equiv> e\<lparr>order := new_order e (pending_list X w)\<rparr>"
  shows "\<exists>v w'. reorder X (ident e) new_order w = (Inr (), w') \<and> w' = written (entry_file (ident e)) v w
    \<and> store_inv X w' \<and> stored X w' = insert e' {x \<in> stored X w. ident x \<noteq> ident e'}"
proof -
  have t: "typed_entry X e" using e store_invD(3) [OF inv] by (auto simp: canonical_def)
  then have rev: "revises X e e'" using range by (simp add: revises_def typed_entry_def e'_def)
  obtain v where v: "write_entry X e' w = (Inr (), written (entry_file (ident e)) v w)"
      "store_inv X (written (entry_file (ident e)) v w)"
      "stored X (written (entry_file (ident e)) v w) = insert e' (stored X w - {e})"
    by (rule write_revision [OF laws w inv e rev])
  have "stored X w - {e} = {x \<in> stored X w. ident x \<noteq> ident e'}"
    using e by (auto simp: e'_def dest: stored_same_ident)
  moreover have "reorder X (ident e) new_order w = (Inr (), written (entry_file (ident e)) v w)"
    using entries_inv [OF w inv] find_entry_stored [OF w, of X "ident e" e] e v(1)
    by (simp add: reorder_def run_simps e'_def)
  ultimately show ?thesis using v by auto
qed

lemma reorder_unknown:
  assumes w: "quiet w" and inv: "store_inv X w" and unknown: "i \<notin> ident ` stored X w"
  shows "\<exists>er. reorder X i new_order w = (Inl er, w)"
proof (cases rule: find_entry_result [OF w, of X i])
  case (1 x)
  then have "x \<in> stored X w \<and> ident x = i" using find_entry_stored [OF w, of X i x] by simp
  then show ?thesis using unknown by (auto simp: image_iff)
next
  case (2 er)
  then show ?thesis using entries_inv [OF w inv] by (simp add: reorder_def run_simps)
qed

lemma order_range:
  assumes inv: "store_inv X w" and e: "e \<in> stored X w"
  shows "i64_min \<le> order e" "order e \<le> i64_max"
  using e store_invD(3) [OF inv] by (auto simp: canonical_def typed_entry_def)

lemma pending_ends:
  assumes inv: "store_inv X w" and e: "e \<in> stored X w"
  shows "pending_list X w \<noteq> []" "hd (pending_list X w) \<in> stored X w" "last (pending_list X w) \<in> stored X w"
proof -
  have set: "set (pending_list X w) = stored X w" by (rule set_pending_list [OF store_invD(1) [OF inv]])
  show ne: "pending_list X w \<noteq> []"
  proof
    assume "pending_list X w = []"
    then show False using e set by simp
  qed
  show "hd (pending_list X w) \<in> stored X w" "last (pending_list X w) \<in> stored X w"
    unfolding set [symmetric] using ne by (rule hd_in_set, rule last_in_set)
qed

lemma without_others: "distinct (map ident (xs @ e # ys)) \<Longrightarrow> without (ident e) (xs @ e # ys) = xs @ ys"
proof -
  assume "distinct (map ident (xs @ e # ys))"
  then have "\<forall>x \<in> set xs \<union> set ys. ident x \<noteq> ident e" by (auto simp: image_iff)
  then have "without (ident e) xs = xs" "without (ident e) ys = ys" by (simp_all add: filter_id_conv)
  then show ?thesis by simp
qed

lemma pending_list_same:
  assumes wf: "wf_dirs w" "wf_dirs w'" and e: "e \<in> stored X w"
    and set: "stored X w' = insert e {x \<in> stored X w. ident x \<noteq> ident e}"
  shows "pending_list X w' = pending_list X w"
proof -
  have "stored X w' = stored X w" using set e by (auto dest: stored_same_ident)
  then show ?thesis
    using set_pending_list [OF wf(1), of X] distinct_pending_list(2) [OF wf(1), of X] sorted_pending_list [of X w]
    by (intro pending_listI [OF wf(2)]) simp_all
qed

lemma bump_stored:
  assumes laws: "store_laws X" and w: "quiet w" and inv: "store_inv X w" and e: "e \<in> stored X w"
    and room: "i64_min < order (hd (pending_list X w))"
  shows "\<exists>w' e'. bump X (ident e) w = (Inr (), w') \<and> store_inv X w' \<and> e' = e\<lparr>order := order e'\<rparr>
    \<and> pending_list X w' = e' # without (ident e) (pending_list X w)"
proof -
  note ends = pending_ends [OF inv e] and wf = store_invD(1) [OF inv]
  let ?h = "hd (pending_list X w)" and ?o = "bump_order e (pending_list X w)"
  have h: "order ?h \<le> i64_max" by (rule order_range(2) [OF inv ends(2)])
  obtain es where p: "pending_list X w = ?h # es" using ends(1) by (cases "pending_list X w") auto
  have o: "?o = (if ident ?h = ident e then order e else order ?h - 1)"
    unfolding bump_order_def using sat_sub_i64_less [OF room h] by (subst p) simp
  have r: "i64_min \<le> ?o" "?o \<le> i64_max" unfolding o using room h order_range [OF inv e] by (auto split: if_split)
  let ?e = "e\<lparr>order := ?o\<rparr>"
  obtain v w' where b: "bump X (ident e) w = (Inr (), w')" "w' = written (entry_file (ident e)) v w" "store_inv X w'"
      "stored X w' = insert ?e {x \<in> stored X w. ident x \<noteq> ident ?e}"
    using reorder_quiet [OF laws w inv e, of bump_order] r unfolding bump_def by blast
  note wf' = store_invD(1) [OF b(3)]
  have "pending_list X w' = ?e # without (ident e) (pending_list X w)"
  proof (cases "ident ?h = ident e")
    case True
    then have eq: "?e = e" "?h = e" using o stored_same_ident [OF ends(2) e] by simp_all
    have "pending_list X w' = pending_list X w" using pending_list_same [OF wf wf' e] b(4) unfolding eq by blast
    then show ?thesis
      using distinct_pending_list(1) [OF wf, of X] p without_others [of "[]" e es] unfolding eq by simp
  next
    case False
    have "order ?e < order x" if "x \<in> stored X w" for x
      using pending_orders(1) [of x X w] that set_pending_list [OF wf, of X] o False by simp
    then show ?thesis using pending_list_head [OF wf wf' b(4)] by simp
  qed
  then show ?thesis using b(1,3) by (intro exI [of _ w'] exI [of _ ?e]) simp
qed

lemma bust_stored:
  assumes laws: "store_laws X" and w: "quiet w" and inv: "store_inv X w" and e: "e \<in> stored X w"
    and room: "order (last (pending_list X w)) < i64_max"
  shows "\<exists>w' e'. bust X (ident e) w = (Inr (), w') \<and> store_inv X w' \<and> e' = e\<lparr>order := order e'\<rparr>
    \<and> pending_list X w' = without (ident e) (pending_list X w) @ [e']"
proof -
  note ends = pending_ends [OF inv e] and wf = store_invD(1) [OF inv]
  let ?l = "last (pending_list X w)" and ?o = "bust_order e (pending_list X w)"
  have l: "i64_min \<le> order ?l" by (rule order_range(1) [OF inv ends(3)])
  have o: "?o = (if ident ?l = ident e then order e else order ?l + 1)"
    unfolding bust_order_def using sat_add_i64_greater [OF l room] ends(1) by simp
  have r: "i64_min \<le> ?o" "?o \<le> i64_max" unfolding o using room l order_range [OF inv e] by (auto split: if_split)
  let ?e = "e\<lparr>order := ?o\<rparr>"
  obtain v w' where b: "bust X (ident e) w = (Inr (), w')" "w' = written (entry_file (ident e)) v w" "store_inv X w'"
      "stored X w' = insert ?e {x \<in> stored X w. ident x \<noteq> ident ?e}"
    using reorder_quiet [OF laws w inv e, of bust_order] r unfolding bust_def by blast
  note wf' = store_invD(1) [OF b(3)]
  have "pending_list X w' = without (ident e) (pending_list X w) @ [?e]"
  proof (cases "ident ?l = ident e")
    case True
    then have eq: "?e = e" "?l = e" using o stored_same_ident [OF ends(3) e] by simp_all
    have p: "pending_list X w = butlast (pending_list X w) @ e # []"
      using append_butlast_last_id [OF ends(1)] unfolding eq by simp
    have "pending_list X w' = pending_list X w" using pending_list_same [OF wf wf' e] b(4) unfolding eq by blast
    moreover have "without (ident e) (butlast (pending_list X w) @ e # []) = butlast (pending_list X w) @ []"
      using distinct_pending_list(1) [OF wf, of X] p by (intro without_others) simp
    ultimately show ?thesis using p unfolding eq by simp
  next
    case False
    have "order x < order ?e" if "x \<in> stored X w" for x
      using pending_orders(2) [of x X w] that set_pending_list [OF wf, of X] o False by simp
    then show ?thesis using pending_list_tail [OF wf wf' b(4)] by simp
  qed
  then show ?thesis using b(1,3) by (intro exI [of _ w'] exI [of _ ?e]) simp
qed

section \<open>Deleting\<close>

lemma write_await_deletion_touches:
  assumes "is_valid_id (ident e)"
  shows "touches {(AwaitDeletionsDir, ident e), tmp_path (AwaitDeletionsDir, ident e)} (write_await_deletion X e)"
proof -
  have path: "await_deletion_path (ident e) = ok (AwaitDeletionsDir, ident e)"
    using assms by (simp add: await_deletion_path_def)
  show ?thesis
    unfolding write_await_deletion_def path and_then_ok by (intro frame) simp_all
qed

lemma await_marker_tmp:
  assumes "is_valid_id i"
  shows "tmp_path (AwaitDeletionsDir, i) = (AwaitDeletionsDir, i @ ''.tmp'')"
  using rsplit_dot_plain [OF valid_id_no_dot [OF assms]] valid_id_not_Nil [OF assms]
  by (simp add: tmp_path_def with_extension_def file_stem_def)

lemma store_inv_touches:
  assumes "touches A m" "m w = (r, w')" "EntriesDir \<notin> fst ` A"
  shows "store_inv X w \<Longrightarrow> store_inv X w'" "stored X w' = stored X w"
proof -
  have d: "dirs w' EntriesDir = dirs w EntriesDir" by (rule touchesD(2) [OF assms])
  show "store_inv X w \<Longrightarrow> store_inv X w'" by (rule store_inv_frame [OF d touchesD(3) [OF assms(1,2)]])
  show "stored X w' = stored X w" by (rule stored_dirs [OF d])
qed

text \<open>Wherever a deletion stops, an entry that is gone has its marker.\<close>

lemma del_outcome:
  assumes inv: "store_inv X w" and e: "e \<in> stored X w" and m: "deletion_to_vec X \<lparr>ad_incarnation = incarnation e\<rparr> = Inr m"
    and run: "del X (ident e) w = (r, w')"
  shows "store_inv X w' \<and>
    (stored X w' = stored X w \<and> r \<noteq> Inr ()
     \<or> stored X w' = {x \<in> stored X w. ident x \<noteq> ident e}
       \<and> node_at w' (AwaitDeletionsDir, ident e) = Some (Regular m))"
proof -
  let ?i = "ident e" and ?m = "(AwaitDeletionsDir, ident e)"
  have i: "is_valid_id ?i" using e by (simp add: stored_def)
  have paths: "await_deletion_path ?i = ok ?m" "entry_path ?i = ok (entry_file ?i)"
    using i by (simp_all add: await_deletion_path_def entry_path_def entry_file_def)
  obtain q1 w1 where one: "find_entry X ?i w = (q1, w1)" by fastforce
  note f1 = store_inv_touches [OF reads_only_touches [OF find_entry_reads, of "{}"] one, of X]
  show ?thesis
  proof (cases q1)
    case (Inl er)
    then have "w' = w1" "r \<noteq> Inr ()" using run one by (auto simp: del_def and_then_def)
    then show ?thesis using f1 inv by simp
  next
    case (Inr y)
    then have y: "y = e" using find_entry_sound [of X ?i w y w1] one e stored_same_ident by blast
    obtain q2 w2 where two: "write_await_deletion X e w1 = (q2, w2)" by fastforce
    note f2 = store_inv_touches [OF write_await_deletion_touches [OF i] two, of X]
    have st2: "store_inv X w2" "stored X w2 = stored X w" using f1 f2 inv by simp_all
    show ?thesis
    proof (cases q2)
      case (Inl er)
      then have "w' = w2" "r \<noteq> Inr ()" using run one Inr two y by (auto simp: del_def and_then_def)
      then show ?thesis using st2 by simp
    next
      case (Inr u)
      have "write_atomic ?m m w1 = (Inr (), w2)"
        using two Inr m by (simp add: write_await_deletion_def paths and_then_ok run_simps and_then_def)
      then have mk: "node_at w2 ?m = Some (Regular m)"
        using write_atomic_outcome [of ?m m w1 "Inr ()" w2] await_marker_tmp [OF i] by simp
      obtain q3 where three: "fs_remove_file (entry_file ?i) w2 = (q3, w')" and r: "r = map_err Io q3"
        using run one \<open>q1 = Inr y\<close> two Inr y paths
        by (auto simp: del_def and_then_def and_then_ok map_error_def split: prod.splits)
      from three show ?thesis
      proof (cases rule: fs_remove_file_outcome)
        case (1 s)
        then show ?thesis using st2 r by (cases q3) auto
      next
        case (2 s)
        moreover have "?m \<noteq> entry_file ?i" by (simp add: entry_file_def)
        ultimately show ?thesis using st2 store_inv_removed [OF st2(1), of ?i] mk by (simp add: stored_del_node)
      qed
    qed
  qed
qed

lemma del_succeeds:
  assumes w: "quiet w" and e: "e \<in> stored X w" and m: "deletion_to_vec X \<lparr>ad_incarnation = incarnation e\<rparr> = Inr m"
    and reg: "node_at w (AwaitDeletionsDir, ident e) \<noteq> Some Special" "node_at w (tmp_path (AwaitDeletionsDir, ident e)) \<noteq> Some Special"
  shows "\<exists>w'. del X (ident e) w = (Inr (), w') \<and> quiet w'"
proof -
  let ?i = "ident e" and ?m = "(AwaitDeletionsDir, ident e)"
  have i: "is_valid_id ?i" using e by (simp add: stored_def)
  have paths: "await_deletion_path ?i = ok ?m" "entry_path ?i = ok (entry_file ?i)"
    using i by (simp_all add: await_deletion_path_def entry_path_def entry_file_def)
  have fe: "find_entry X ?i w = (Inr e, w)" using e find_entry_stored [OF w] by blast
  have "tmp_path ?m \<noteq> ?m" using await_marker_tmp [OF i] by simp
  then have wa: "write_atomic ?m m w = (Inr (), written ?m m w)" using write_atomic_quiet [OF w reg(1)] reg(2) by simp
  obtain n where "node_at w (entry_file ?i) = Some n" "decode_node X n = Some e" using e by (auto simp: stored_def)
  then obtain bs where "node_at w (entry_file ?i) = Some (Regular bs)" by (cases n) (auto simp: decode_node_def)
  moreover have "entry_file ?i \<noteq> ?m" "entry_file ?i \<noteq> tmp_path ?m" using await_marker_tmp [OF i] by (simp_all add: entry_file_def)
  ultimately have "node_at (written ?m m w) (entry_file ?i) = Some (Regular bs)" by (simp add: written_def)
  then show ?thesis
    using w fe m wa by (simp add: del_def write_await_deletion_def paths and_then_ok run_simps)
qed

section \<open>Completing without failures\<close>

lemma history_length_quiet:
  assumes "quiet w" "node_at w history_path \<noteq> Some Special"
  shows "fs_metadata history_path w = (Inr (True, length (bytes_at w history_path)), w)
    \<or> fs_metadata history_path w = (Inl not_found, w) \<and> bytes_at w history_path = []"
  using assms by (cases "node_at w history_path"; cases "the (node_at w history_path)")
    (auto simp: run_simps bytes_at_def node_len_def)

lemma complete_claim_succeeds:
  assumes codec: "history_codec X" "completion_codec X" and ready: "ready_to_complete X e w" and w: "quiet w"
    and h: "history_to_vec X (post_record X e th t url (uuids_used w)) = Inr v" "length v < MAX_HISTORY_LINE_BYTES"
    and tmp: "node_at w (tmp_path completion_path) \<noteq> Some Special"
  shows "\<exists>w1. complete_claim_with_token X e th t url w = (Inr (), w1)"
proof -
  let ?old = "bytes_at w history_path" and ?S = "stored X w" and ?h = "post_record X e th t url (uuids_used w)"
  let ?c = "journal_record e t ?h (length ?old)"
  have e: "e \<in> ?S" "\<forall>x \<in> ?S. ident x = ident e \<longrightarrow> x = e" "is_valid_id (ident e)"
    using ready stored_same_ident by (auto simp: ready_to_complete_def stored_def)
  obtain jn where jn: "completion_to_vec X ?c = Inr jn" "valid_utf8 jn" "completion_from_str X jn = Inr ?c"
    using codec(2) by (auto simp: completion_codec_def)
  have j: "journal_of X ?c e ?h v" using codec(1) h e(3) by (simp add: journal_of_def journal_record_def)
  have c: "cr_history_offset ?c = Some (length ?old)" by (simp add: journal_record_def)
  let ?w1 = "written completion_path jn (drawn w)"
  have wa: "write_atomic completion_path jn (drawn w) = (Inr (), ?w1)"
    using write_atomic_quiet [of "drawn w" completion_path jn] w tmp ready by (simp add: ready_to_complete_def)
  have "untouched X e ?h ?old ?S (drawn w)" by (rule untouched_drawn [OF ready_untouched [OF ready]])
  from journal_written [OF this wa] have "journalled X e ?h ?old ?S jn False False ?w1" by simp
  then obtain w2 where rec: "reconcile_completion X ?w1 = (Inr (), w2)"
    using reconcile_finishes [OF j c jn(3,2) e(2,1), of ?w1] w by auto
  have fe: "find_entry X (ident e) w = (Inr e, w)" using find_entry_stored [OF w] e(1) by blast
  have "node_at w history_path \<noteq> Some Special" using ready by (simp add: ready_to_complete_def)
  from history_length_quiet [OF w this] have "complete_claim_with_token X e th t url w = (Inr (), w2)"
  proof
    assume md: "fs_metadata history_path w = (Inr (True, length ?old), w)"
    show ?thesis
      using fe md wa rec jn(1)
      by (cases "claim_token e")
        (simp_all add: complete_claim_with_token_def run_simps history_success_run journal_record_def)
  next
    assume md: "fs_metadata history_path w = (Inl not_found, w) \<and> ?old = []"
    then show ?thesis
      using fe wa rec jn(1)
      by (cases "claim_token e")
        (simp_all add: complete_claim_with_token_def run_simps history_success_run journal_record_def not_found_def)
  qed
  then show ?thesis by blast
qed

section \<open>Properties\<close>

text \<open>C30. \<open>bump\<close> refines moving an element to the front of a list: the entry comes first, all others
  keep their order, and only its order field changes. An identifier that is not queued is an
  error that changes nothing. This holds while the first order is above the smallest 64-bit integer.\<close>

theorem bump_to_front:
  assumes "store_laws X" "quiet w" "store_inv X w"
    and room: "pending_list X w = [] \<or> i64_min < order (hd (pending_list X w))"
  shows "if i \<in> ident ` stored X w
    then \<exists>w' e'. bump X i w = (Inr (), w') \<and> store_inv X w' \<and> e'\<lparr>order := 0\<rparr> \<in> (\<lambda>e. e\<lparr>order := 0\<rparr>) ` stored X w
      \<and> ident e' = i \<and> pending_list X w' = e' # without i (pending_list X w)
    else \<exists>er. bump X i w = (Inl er, w)"
proof (cases "i \<in> ident ` stored X w")
  case True
  then obtain e where e: "e \<in> stored X w" "i = ident e" by blast
  then have "i64_min < order (hd (pending_list X w))" using room pending_ends(1) [OF assms(3) e(1)] by simp
  from bump_stored [OF assms(1-3) e(1) this] obtain w' e' where b: "bump X (ident e) w = (Inr (), w')" "store_inv X w'"
      "e' = e\<lparr>order := order e'\<rparr>" "pending_list X w' = e' # without (ident e) (pending_list X w)" by blast
  have "e'\<lparr>order := 0\<rparr> = e\<lparr>order := 0\<rparr>" "ident e' = ident e" using b(3) by (cases e'; cases e; simp)+
  then show ?thesis using True b e by auto
next
  case False
  then show ?thesis using reorder_unknown [OF assms(2,3) False] by (simp add: bump_def)
qed

theorem bump_to_front_witness:
  "\<exists>w' e'. bump ref_ext ''0000abcd'' sample_world = (Inr (), w') \<and> pending_list ref_ext w' = [e'] \<and> ident e' = ''0000abcd''"
proof -
  have i: "''0000abcd'' \<in> ident ` stored ref_ext sample_world" by (simp add: sample_stored sample_entry_def)
  have p: "without ''0000abcd'' (pending_list ref_ext sample_world) = []" by (simp add: sample_pending sample_entry_def)
  have "i64_min < order (hd (pending_list ref_ext sample_world))" by (simp add: sample_pending sample_entry_def limits)
  then show ?thesis
    using bump_to_front [OF ref_store_laws sample_quiet sample_inv, of "''0000abcd''"] i p by auto
qed

text \<open>C31. \<open>bust\<close> refines moving an element to the back of a list, in the same way.\<close>

theorem bust_to_back:
  assumes "store_laws X" "quiet w" "store_inv X w"
    and room: "pending_list X w = [] \<or> order (last (pending_list X w)) < i64_max"
  shows "if i \<in> ident ` stored X w
    then \<exists>w' e'. bust X i w = (Inr (), w') \<and> store_inv X w' \<and> e'\<lparr>order := 0\<rparr> \<in> (\<lambda>e. e\<lparr>order := 0\<rparr>) ` stored X w
      \<and> ident e' = i \<and> pending_list X w' = without i (pending_list X w) @ [e']
    else \<exists>er. bust X i w = (Inl er, w)"
proof (cases "i \<in> ident ` stored X w")
  case True
  then obtain e where e: "e \<in> stored X w" "i = ident e" by blast
  then have "order (last (pending_list X w)) < i64_max" using room pending_ends(1) [OF assms(3) e(1)] by simp
  from bust_stored [OF assms(1-3) e(1) this] obtain w' e' where b: "bust X (ident e) w = (Inr (), w')" "store_inv X w'"
      "e' = e\<lparr>order := order e'\<rparr>" "pending_list X w' = without (ident e) (pending_list X w) @ [e']" by blast
  have "e'\<lparr>order := 0\<rparr> = e\<lparr>order := 0\<rparr>" "ident e' = ident e" using b(3) by (cases e'; cases e; simp)+
  then show ?thesis using True b e by auto
next
  case False
  then show ?thesis using reorder_unknown [OF assms(2,3) False] by (simp add: bust_def)
qed

theorem bust_to_back_witness:
  "\<exists>w' e'. bust ref_ext ''0000abcd'' sample_world = (Inr (), w') \<and> pending_list ref_ext w' = [e'] \<and> ident e' = ''0000abcd''"
proof -
  have i: "''0000abcd'' \<in> ident ` stored ref_ext sample_world" by (simp add: sample_stored sample_entry_def)
  have p: "without ''0000abcd'' (pending_list ref_ext sample_world) = []" by (simp add: sample_pending sample_entry_def)
  have "order (last (pending_list ref_ext sample_world)) < i64_max" by (simp add: sample_pending sample_entry_def limits)
  then show ?thesis
    using bust_to_back [OF ref_store_laws sample_quiet sample_inv, of "''0000abcd''"] i p by auto
qed

text \<open>C18. A deletion marks the entry as deleted before it removes it. Wherever it stops, the queue is
  either unchanged or has lost exactly this entry, and in the second case the marker that
  tells waiting clients is in place; without failures it succeeds.\<close>

theorem del_marks_then_removes:
  assumes inv: "store_inv X w" and e: "e \<in> stored X w" and m: "deletion_to_vec X \<lparr>ad_incarnation = incarnation e\<rparr> = Inr m"
    and reg: "node_at w (AwaitDeletionsDir, ident e) \<noteq> Some Special"
      "node_at w (tmp_path (AwaitDeletionsDir, ident e)) \<noteq> Some Special"
    and run: "del X (ident e) w = (r, w')"
  shows "store_inv X w'
    \<and> (pending_list X w' = pending_list X w \<and> r \<noteq> Inr ()
       \<or> pending_list X w' = without (ident e) (pending_list X w)
         \<and> node_at w' (AwaitDeletionsDir, ident e) = Some (Regular m))
    \<and> (quiet w \<longrightarrow> r = Inr () \<and> await_lifetime_was_deleted (ident e) w' = (Inr True, w'))"
proof -
  note out = del_outcome [OF inv e m run]
  then have inv': "store_inv X w'" by blast
  note wf = store_invD(1) [OF inv] store_invD(1) [OF inv']
  have "pending_list X w' = pending_list X w" if "stored X w' = stored X w" using pending_list_stored [OF wf that] .
  moreover have "pending_list X w' = without (ident e) (pending_list X w)"
    if "stored X w' = {x \<in> stored X w. ident x \<noteq> ident e}" using pending_list_removed [OF wf that] .
  moreover have "r = Inr () \<and> await_lifetime_was_deleted (ident e) w' = (Inr True, w')" if q: "quiet w"
  proof -
    obtain w2 where "del X (ident e) w = (Inr (), w2)" "quiet w2" using del_succeeds [OF q e m reg] by blast
    then have r: "r = Inr ()" "quiet w'" using run by auto
    then have "node_at w' (AwaitDeletionsDir, ident e) = Some (Regular m)" using out by simp
    moreover have "is_valid_id (ident e)" using e by (simp add: stored_def)
    ultimately show ?thesis using r
      by (simp add: await_lifetime_was_deleted_def await_deletion_path_def run_simps)
  qed
  ultimately show ?thesis using out inv' by blast
qed

theorem del_marks_then_removes_witness:
  "\<exists>w'. del ref_ext ''0000abcd'' sample_world = (Inr (), w') \<and> await_lifetime_was_deleted ''0000abcd'' w' = (Inr True, w')"
proof -
  have id: "ident sample_entry = ''0000abcd''" by (simp add: sample_entry_def)
  obtain m where m: "deletion_to_vec ref_ext \<lparr>ad_incarnation = incarnation sample_entry\<rparr> = Inr m"
    using ref_deletion_codec by (auto simp: deletion_codec_def)
  have reg: "node_at sample_world (AwaitDeletionsDir, ident sample_entry) \<noteq> Some Special"
    "node_at sample_world (tmp_path (AwaitDeletionsDir, ident sample_entry)) \<noteq> Some Special"
    using sample_dirs(2) by (simp_all add: node_at_def tmp_path_def)
  obtain r w' where run: "del ref_ext (ident sample_entry) sample_world = (r, w')" by fastforce
  from del_marks_then_removes [OF sample_inv _ m reg run] run show ?thesis by (simp add: sample_stored id)
qed

text \<open>C17. A client that waits learns of the post: once a completion has reported success, a lookup with a
  cursor taken while the entry was pending no longer finds it pending, and finds the posted
  comment's address and time in the log.\<close>

theorem await_sees_completion:
  assumes codec: "history_codec X" "completion_codec X" and ready: "ready_to_complete X e w"
    and h: "history_to_vec X (post_record X e th t url (uuids_used w)) = Inr v" "length v < MAX_HISTORY_LINE_BYTES"
    and run: "complete_claim_with_token X e th t url w = (Inr (), w1)"
    and cur: "ac_offset c \<le> length (bytes_at w history_path)" "ac_incarnation c = incarnation e"
      "no_edge_line (drop (ac_offset c) (bytes_at w history_path))"
  shows "resolve_await_pending_with_eta X (ident e) (Some c) eta (w1\<lparr>script := []\<rparr>) = (Inr None, w1\<lparr>script := []\<rparr>)
    \<and> resolve_await_completion X (ident e) (Some c) (w1\<lparr>script := []\<rparr>) = (Inr (AwaitPosted url t), w1\<lparr>script := []\<rparr>)"
proof -
  let ?old = "bytes_at w history_path" and ?h = "post_record X e th t url (uuids_used w)" and ?w = "w1\<lparr>script := []\<rparr>"
  have fin: "finished X e ?h ?old (stored X w) t w1"
    using complete_claim_outcome [OF codec ready refl h run] by metis
  have i: "is_valid_id (ident e)" using ready by (auto simp: ready_to_complete_def stored_def)
  have "node_at ?w (entry_file (ident e)) = None"
    using fin by (simp add: finished_def progress_def taken_out_def)
  then have "find_entry X (ident e) ?w = (Inl (UnknownId (ident e)), ?w)" using find_entry_quiet [of ?w "ident e" X] i by simp
  then have pending: "resolve_await_pending_with_eta X (ident e) (Some c) eta ?w = (Inr None, ?w)"
    by (simp add: resolve_await_pending_with_eta_def run_simps)
  let ?bs = "bytes_at w1 history_path"
  have log: "log_at X ?old [?h] ?bs" using fin by (auto simp: finished_def progress_def)
  note d = log_atD [OF log cur(1,3)]
  have "?bs \<noteq> []"
  proof
    assume "?bs = []"
    then show False using d(2) by simp
  qed
  moreover have "node_at w1 history_path \<noteq> Some Special" using fin by (simp add: finished_def progress_def)
  ultimately have node: "node_at ?w history_path = Some (Regular ?bs)"
    by (auto simp: bytes_at_def split: option.splits node.splits)
  have "completes (ident e) (Some c) ?h" using cur(2) by (simp add: completes_def post_record_def)
  then have "latest_completion X (ident e) (Some c) ?w = (Inr (Some ?h), ?w)"
    using latest_completion_forward [OF _ node, of X "Some c" "ident e"] d
      no_edge_line_same [OF history_codecD(1) [OF codec(1)]] by simp
  then have "resolve_await_completion X (ident e) (Some c) ?w = (Inr (AwaitPosted url t), ?w)"
    by (simp add: resolve_await_completion_def run_simps post_record_def)
  with pending show ?thesis ..
qed

theorem await_sees_completion_witness:
  "\<exists>w1. complete_claim_with_token ref_ext sample_entry ''h'' 500 None sample_world = (Inr (), w1)
     \<and> resolve_await_completion ref_ext (ident sample_entry) (Some \<lparr>ac_offset = 0, ac_incarnation = ref_uuid 0\<rparr>)
         (w1\<lparr>script := []\<rparr>) = (Inr (AwaitPosted None 500), w1\<lparr>script := []\<rparr>)"
proof -
  let ?h = "post_record ref_ext sample_entry ''h'' 500 None (uuids_used sample_world)"
  have same: "sample_world\<lparr>script := []\<rparr> = sample_world" by (simp add: sample_world_def written_def empty_world_def set_node_def del_node_def)
  have ready: "ready_to_complete ref_ext sample_entry sample_world"
    using sample_ready [of "[]"] unfolding same by (simp add: honest_def)
  have v: "history_to_vec ref_ext ?h = Inr (enc_history ?h @ ''}'')" by (simp add: ref_ext_def to_doc_def)
  have u: "uuids_used sample_world = 0" by (simp add: sample_world_def written_def empty_world_def set_node_def del_node_def)
  have "length (enc_history (post_record ref_ext sample_entry ''h'' 500 None 0) @ ''}'') < 1000" by code_simp
  then have short: "length (enc_history ?h @ ''}'') < MAX_HISTORY_LINE_BYTES" unfolding u by (simp add: limits)
  obtain w1 where run: "complete_claim_with_token ref_ext sample_entry ''h'' 500 None sample_world = (Inr (), w1)"
    using complete_claim_succeeds [OF ref_history_codec ref_completion_codec ready sample_quiet v short]
    by (auto simp: node_at_def sample_dirs marker_tmp)
  have "incarnation sample_entry = ref_uuid 0" by (simp add: sample_entry_def)
  moreover have "bytes_at sample_world history_path = []" by (simp add: bytes_at_def node_at_def sample_dirs path_defs)
  ultimately show ?thesis
    using await_sees_completion [OF ref_history_codec ref_completion_codec ready v short run,
        of "\<lparr>ac_offset = 0, ac_incarnation = ref_uuid 0\<rparr>"] run
    by (auto simp: no_edge_line_def)
qed

end
