(* ===== verification/Queue_Props.thy ===== *)
theory Queue_Props
  imports Queue Queue_Store_Props
begin

text \<open>
  The shared queue: every operation keeps the store's invariant, and the projection cached for
  waiting clients agrees with the queue on disk. A successful mutation drops the cache; all
  other operations, failed mutations included, leave everything the projection depends on as it
  was. The statements are about disks whose calls do not fail.
\<close>

section \<open>Sound operations on the disk\<close>

definition disk_ok :: "ext \<Rightarrow> world \<Rightarrow> bool" where
  "disk_ok X w \<longleftrightarrow>
     quiet w \<and> store_inv X w \<and> node_at w last_post_path \<noteq> Some Special
     \<and> node_at w (tmp_path last_post_path) \<noteq> Some Special"

text \<open>What the projection depends on: the entries and the two activity markers.\<close>

definition sched_same :: "world \<Rightarrow> world \<Rightarrow> bool" where
  "sched_same w w' \<longleftrightarrow>
     dirs w' EntriesDir = dirs w EntriesDir
     \<and> node_at w' last_post_path = node_at w last_post_path
     \<and> node_at w' last_attempt_path = node_at w last_attempt_path"

lemma sched_same_refl [simp]: "sched_same w w"
  by (simp add: sched_same_def)

lemma sched_same_trans: "sched_same w w1 \<Longrightarrow> sched_same w1 w2 \<Longrightarrow> sched_same w w2"
  by (simp add: sched_same_def)

lemma schedule_same:
  assumes "disk_ok X w" "disk_ok X w'" "sched_same w w'"
  shows "fst (schedule X cool now w') = fst (schedule X cool now w)"
proof -
  have "pending_list X w' = pending_list X w" by (rule pending_list_dirs) (use assms(3) in \<open>simp add: sched_same_def\<close>)
  moreover have "node_at w' last_post_path = node_at w last_post_path"
    "node_at w' last_attempt_path = node_at w last_attempt_path" using assms(3) by (simp_all add: sched_same_def)
  then have "activity w' = activity w" unfolding activity_def by (simp only:)
  ultimately show ?thesis using assms schedule_quiet by (simp add: disk_ok_def)
qed

text \<open>At most one entry is claimed, so at most one post is in flight.\<close>

definition single_claim :: "ext \<Rightarrow> world \<Rightarrow> bool" where
  "single_claim X w \<longleftrightarrow>
     (\<forall>a \<in> stored X w. \<forall>b \<in> stored X w. claim_token a \<noteq> None \<longrightarrow> claim_token b \<noteq> None \<longrightarrow> a = b)"

lemma single_claim_subset: "single_claim X w \<Longrightarrow> stored X w' \<subseteq> stored X w \<Longrightarrow> single_claim X w'"
  unfolding single_claim_def by blast

lemma single_claim_unclaimed: "\<forall>x \<in> stored X w. claim_token x = None \<Longrightarrow> single_claim X w"
  by (simp add: single_claim_def)

lemma single_claim_replaced:
  assumes "stored X w' \<subseteq> insert e' (stored X w - {e})" "e \<in> stored X w" "claim_token e' \<noteq> None \<longrightarrow> claim_token e \<noteq> None"
    "single_claim X w"
  shows "single_claim X w'"
  using assms unfolding single_claim_def by blast

lemma sched_same_stored: "sched_same w w' \<Longrightarrow> stored X w' = stored X w"
  by (rule stored_dirs) (simp add: sched_same_def)

lemma sched_same_single: "sched_same w w' \<Longrightarrow> single_claim X w' = single_claim X w"
  by (simp add: single_claim_def sched_same_stored)

definition sound_op :: "ext \<Rightarrow> bool \<Rightarrow> 'a store \<Rightarrow> bool" where
  "sound_op X mutates m \<longleftrightarrow>
     (\<forall>w r w'. disk_ok X w \<longrightarrow> m w = (r, w') \<longrightarrow>
        disk_ok X w' \<and> (\<not> mutates \<or> \<not> is_ok r \<longrightarrow> sched_same w w') \<and> (single_claim X w \<longrightarrow> single_claim X w'))"

lemma sound_opD:
  assumes "sound_op X mutates m" "disk_ok X w" "m w = (r, w')"
  shows "disk_ok X w'" and "\<not> mutates \<or> \<not> is_ok r \<Longrightarrow> sched_same w w'" and "single_claim X w \<Longrightarrow> single_claim X w'"
  using assms by (auto simp: sound_op_def)

lemma reads_sound: "reads_only m \<Longrightarrow> sound_op X mutates m"
  unfolding sound_op_def disk_ok_def by (metis reads_only_quiet sched_same_refl)

definition schedule_paths :: "path set" where
  "schedule_paths = {last_post_path, tmp_path last_post_path, last_attempt_path}"

lemma schedule_paths_apart [simp]:
  "history_path \<notin> schedule_paths" "completion_path \<notin> schedule_paths" "tmp_path completion_path \<notin> schedule_paths"
  "(AwaitDeletionsDir, i) \<notin> schedule_paths"
  using paths_apart by (auto simp: schedule_paths_def)

lemma touches_disk:
  assumes "touches A m" "m w = (r, w')" "A \<inter> schedule_paths = {}" "EntriesDir \<notin> fst ` A" "disk_ok X w"
  shows "disk_ok X w'" "sched_same w w'"
proof -
  have n: "q \<in> schedule_paths \<Longrightarrow> node_at w' q = node_at w q" for q using touchesD(1) [OF assms(1,2)] assms(3) by blast
  have d: "dirs w' EntriesDir = dirs w EntriesDir" by (rule touchesD(2) [OF assms(1,2,4)])
  show "sched_same w w'" using n d by (simp add: sched_same_def schedule_paths_def)
  have "store_inv X w'" using assms(5) store_inv_touches(1) [OF assms(1,2,4)] by (simp add: disk_ok_def)
  then show "disk_ok X w'"
    using assms(5) n touchesD(4) [OF assms(1,2)] by (simp add: disk_ok_def schedule_paths_def)
qed

lemma touches_sound:
  "touches A m \<Longrightarrow> A \<inter> schedule_paths = {} \<Longrightarrow> EntriesDir \<notin> fst ` A \<Longrightarrow> sound_op X mutates m"
  unfolding sound_op_def using touches_disk sched_same_single by blast

text \<open>Rewriting or removing an entry file does not touch the markers.\<close>

lemma disk_ok_entries:
  assumes "disk_ok X w" "store_inv X w'" "dirs w' QueueDir = dirs w QueueDir" "quiet w'"
  shows "disk_ok X w'"
proof -
  have "node_at w' q = node_at w q" if "fst q = QueueDir" for q using that assms(3) by (simp add: node_at_def)
  then show ?thesis using assms by (simp add: disk_ok_def)
qed

lemma disk_ok_written:
  "disk_ok X w \<Longrightarrow> store_inv X (written (entry_file i) v w) \<Longrightarrow> disk_ok X (written (entry_file i) v w)"
  by (rule disk_ok_entries) (auto simp: disk_ok_def written_other_dir)

lemma disk_ok_drawn [simp]: "disk_ok X (drawn w) = disk_ok X w"
  by (simp add: disk_ok_def)

section \<open>The store's operations are sound\<close>

lemma bump_order_range:
  assumes "store_inv X w" "e \<in> stored X w"
  shows "i64_min \<le> bump_order e es" "bump_order e es \<le> i64_max"
    "i64_min \<le> bust_order e es" "bust_order e es \<le> i64_max"
  using order_range [OF assms]
  by (auto simp: bump_order_def bust_order_def sat_sub_i64_def sat_add_i64_def limits split: list.splits)

lemma reorder_sound:
  assumes laws: "store_laws X"
    and range: "\<And>w e. store_inv X w \<Longrightarrow> e \<in> stored X w \<Longrightarrow>
      i64_min \<le> new_order e (pending_list X w) \<and> new_order e (pending_list X w) \<le> i64_max"
  shows "sound_op X True (reorder X i new_order)"
  unfolding sound_op_def
proof (intro allI impI)
  fix w r w'
  assume ok: "disk_ok X w" and run: "reorder X i new_order w = (r, w')"
  then have w: "quiet w" "store_inv X w" by (simp_all add: disk_ok_def)
  show "disk_ok X w' \<and> (\<not> True \<or> \<not> is_ok r \<longrightarrow> sched_same w w') \<and> (single_claim X w \<longrightarrow> single_claim X w')"
  proof (cases "i \<in> ident ` stored X w")
    case True
    then obtain e where e: "e \<in> stored X w" "i = ident e" by blast
    let ?e = "e\<lparr>order := new_order e (pending_list X w)\<rparr>"
    obtain v where v: "r = Inr ()" "w' = written (entry_file (ident e)) v w" "store_inv X w'"
        "stored X w' = insert ?e {x \<in> stored X w. ident x \<noteq> ident ?e}"
      using reorder_quiet [OF laws w e(1), of new_order] range [OF w(2) e(1)] run e(2) by auto
    then have "stored X w' \<subseteq> insert ?e (stored X w - {e})" by auto
    from single_claim_replaced [OF this e(1)] show ?thesis using disk_ok_written [OF ok] v by simp
  next
    case False
    then show ?thesis using reorder_unknown [OF w False, of new_order] run ok by auto
  qed
qed

lemma bump_sound: "store_laws X \<Longrightarrow> sound_op X True (bump X i)"
  unfolding bump_def by (rule reorder_sound) (auto simp: bump_order_range)

lemma bust_sound: "store_laws X \<Longrightarrow> sound_op X True (bust X i)"
  unfolding bust_def by (rule reorder_sound) (auto simp: bump_order_range)

lemma claim_sound:
  assumes laws: "store_laws X"
  shows "sound_op X True (claim_next_due X cool now)"
  unfolding sound_op_def
proof (intro allI impI)
  fix w r w'
  assume ok: "disk_ok X w" and run: "claim_next_due X cool now w = (r, w')"
  then have w: "quiet w" "store_inv X w" by (simp_all add: disk_ok_def)
  from claim_next_due_outcome [OF laws w run]
  show "disk_ok X w' \<and> (\<not> True \<or> \<not> is_ok r \<longrightarrow> sched_same w w') \<and> (single_claim X w \<longrightarrow> single_claim X w')"
  proof (elim disjE exE conjE)
    assume "w' = w"
    then show ?thesis using ok by simp
  next
    fix e v act
    assume "r = Inr (Some (e\<lparr>claim_token := Some (new_uuid X (uuids_used w))\<rparr>, 0))"
      and w': "w' = written (entry_file (ident e)) v (drawn w)" "store_inv X w'"
      and free: "\<forall>x \<in> stored X w. claim_token x = None"
      and st: "stored X w' = insert (e\<lparr>claim_token := Some (new_uuid X (uuids_used w))\<rparr>) (stored X w - {e})"
    have "single_claim X w'" using free unfolding single_claim_def st by auto
    then show ?thesis using disk_ok_written [of X "drawn w" "ident e" v] ok w' \<open>r = _\<close> by simp
  qed
qed

lemma disk_ok_attempt_written:
  assumes ok: "disk_ok X w"
  shows "disk_ok X (written last_attempt_path bs w)"
proof -
  have ne: "last_post_path \<noteq> last_attempt_path" "last_post_path \<noteq> tmp_path last_attempt_path"
    "tmp_path last_post_path \<noteq> last_attempt_path" "tmp_path last_post_path \<noteq> tmp_path last_attempt_path"
    using paths_apart by auto
  have "store_inv X (written last_attempt_path bs w)"
    using store_inv_written_marker [of last_attempt_path X w bs] ok by (simp add: disk_ok_def)
  then show ?thesis using ok ne by (simp add: disk_ok_def written_def)
qed

lemma release_sound:
  assumes laws: "store_laws X"
  shows "sound_op X True (release_claim X i token t)"
  unfolding sound_op_def
proof (intro allI impI)
  fix w r w'
  assume ok: "disk_ok X w" and run: "release_claim X i token t w = (r, w')"
  then have w: "quiet w" "store_inv X w" by (simp_all add: disk_ok_def)
  show "disk_ok X w' \<and> (\<not> True \<or> \<not> is_ok r \<longrightarrow> sched_same w w') \<and> (single_claim X w \<longrightarrow> single_claim X w')"
  proof (cases rule: find_entry_result [OF w(1), of X i])
    case (2 er)
    then have "w' = w" using run by (cases er) (auto simp: release_claim_def run_simps)
    then show ?thesis using ok by simp
  next
    case (1 e)
    then have e: "e \<in> stored X w" "ident e = i" using find_entry_stored [OF w(1)] by blast+
    show ?thesis
    proof (cases "claim_token e = Some token")
      case False
      then show ?thesis using release_claim_stale [OF w(1) e(1) False, of t] run e(2) ok by simp
    next
      case True
      show ?thesis
      proof (cases "marker_value LastAttempt (node_at w last_attempt_path)")
        case (Inl er)
        then have "w' = w" using run 1 True last_attempt_quiet [OF w(1)] by (auto simp: release_claim_def run_simps)
        then show ?thesis using ok by simp
      next
        case (Inr latest)
        then have reg: "node_at w last_attempt_path \<noteq> Some Special" by (auto simp: marker_value_def)
        show ?thesis
        proof (cases "node_at w (tmp_path last_attempt_path) = Some Special")
          case tmp: True
          have "write_atomic last_attempt_path bs w = (Inl (Io is_a_directory), w)" for bs
            using write_atomic_quiet [OF w(1) reg marker_tmp_ne(2)] tmp by simp
          then have "w' = w" using run 1 True Inr last_attempt_quiet [OF w(1)]
            by (auto simp: release_claim_def run_simps Let_def)
          then show ?thesis using ok by simp
        next
          case False
          let ?n = "max (case latest of None \<Rightarrow> 0 | Some n \<Rightarrow> n) t"
          obtain v where v: "release_claim X (ident e) token t w
              = (Inr (), written (entry_file (ident e)) v (written last_attempt_path (show_nat ?n) w))"
            "store_inv X (written (entry_file (ident e)) v (written last_attempt_path (show_nat ?n) w))"
            "stored X (written (entry_file (ident e)) v (written last_attempt_path (show_nat ?n) w))
              = insert (e\<lparr>claim_token := None\<rparr>) (stored X w - {e})"
            using release_claim_own [OF laws w e(1) True Inr False, of t] by blast
          from single_claim_replaced [OF equalityD1 [OF v(3)] e(1)] show ?thesis
            using disk_ok_written [OF disk_ok_attempt_written [OF ok] v(2)] run v(1) e(2) by simp
        qed
      qed
    qed
  qed
qed

lemma del_sound: "sound_op X True (del X i)"
  unfolding sound_op_def
proof (intro allI impI)
  fix w r w'
  assume ok: "disk_ok X w" and run: "del X i w = (r, w')"
  then have w: "quiet w" "store_inv X w" by (simp_all add: disk_ok_def)
  show "disk_ok X w' \<and> (\<not> True \<or> \<not> is_ok r \<longrightarrow> sched_same w w') \<and> (single_claim X w \<longrightarrow> single_claim X w')"
  proof (cases rule: find_entry_result [OF w(1), of X i])
    case (2 er)
    then have "w' = w" using run by (auto simp: del_def run_simps)
    then show ?thesis using ok by simp
  next
    case (1 e)
    then have e: "e \<in> stored X w" "ident e = i" using find_entry_stored [OF w(1)] by blast+
    then have i: "is_valid_id (ident e)" by (simp add: stored_def)
    obtain q w1 where q: "write_await_deletion X e w = (q, w1)" by fastforce
    note t = write_await_deletion_touches [OF i, of X]
    have A: "{(AwaitDeletionsDir, ident e), tmp_path (AwaitDeletionsDir, ident e)} \<inter> schedule_paths = {}"
      using await_marker_tmp [OF i] by (auto simp: schedule_paths_def path_defs marker_tmp)
    have ok1: "disk_ok X w1" "sched_same w w1" using touches_disk [OF t q A _ ok] by simp_all
    show ?thesis
    proof (cases q)
      case (Inl er)
      then have "w' = w1" using run 1 q e(2) by (auto simp: del_def and_then_def)
      then show ?thesis using ok1 sched_same_single [OF ok1(2)] by simp
    next
      case (Inr u)
      have path: "entry_path i = ok (entry_file i)" using i e(2) by (simp add: entry_path_def entry_file_def)
      have "stored X w1 = stored X w" by (rule stored_dirs) (use ok1(2) in \<open>simp add: sched_same_def\<close>)
      then obtain n where n: "node_at w1 (entry_file i) = Some n" "decode_node X n = Some e"
        using e by (auto simp: stored_def)
      then obtain bs where "node_at w1 (entry_file i) = Some (Regular bs)" by (cases n) (auto simp: decode_node_def)
      moreover have "quiet w1" using ok1 by (simp add: disk_ok_def)
      ultimately have "r = Inr ()" "w' = del_node (entry_file i) w1"
        using run 1 q e(2) Inr path by (auto simp: del_def and_then_def and_then_ok run_simps)
      moreover have "disk_ok X (del_node (entry_file i) w1)"
        using ok1(1) store_inv_removed by (intro disk_ok_entries [OF ok1(1)]) (auto simp: disk_ok_def del_node_def entry_file_def)
      moreover have "stored X (del_node (entry_file i) w1) \<subseteq> stored X w"
        using sched_same_stored [OF ok1(2), of X] by (auto simp: stored_del_node)
      ultimately show ?thesis using single_claim_subset by auto
    qed
  qed
qed

text \<open>The completion: until the entry is removed nothing the projection depends on changes, and from
  then on nothing fails.\<close>

abbreviation shrunk :: "ext \<Rightarrow> world \<Rightarrow> world \<Rightarrow> bool" where
  "shrunk X w0 w \<equiv> disk_ok X w \<and> stored X w \<subseteq> stored X w0"

abbreviation unscheduled :: "ext \<Rightarrow> world \<Rightarrow> world \<Rightarrow> bool" where
  "unscheduled X w0 w \<equiv> disk_ok X w \<and> sched_same w0 w"

definition has_journal :: "world \<Rightarrow> bool" where
  "has_journal w \<longleftrightarrow> (\<exists>j. node_at w completion_path = Some (Regular j))"

lemma unscheduled_touches:
  assumes "touches A m" "A \<inter> schedule_paths = {}" "EntriesDir \<notin> fst ` A"
  shows "upholds (unscheduled X w0) (unscheduled X w0) m (\<lambda>_. unscheduled X w0)"
    and "completion_path \<notin> A \<Longrightarrow>
      upholds (unscheduled X w0) (\<lambda>w. unscheduled X w0 w \<and> has_journal w) m (\<lambda>_ w. unscheduled X w0 w \<and> has_journal w)"
proof -
  have step: "unscheduled X w0 w'" if "unscheduled X w0 w" "m w = (r, w')" for w r w'
    using touches_disk [OF assms(1) that(2) assms(2,3), of X] that(1) sched_same_trans by blast
  then show "upholds (unscheduled X w0) (unscheduled X w0) m (\<lambda>_. unscheduled X w0)"
    by (intro upholds_keep) blast+
  assume "completion_path \<notin> A"
  then have "has_journal w'" if "has_journal w" "m w = (r, w')" for w r w'
    using touchesD(1) [OF assms(1) that(2)] that(1) by (simp add: has_journal_def)
  then show "upholds (unscheduled X w0) (\<lambda>w. unscheduled X w0 w \<and> has_journal w) m (\<lambda>_ w. unscheduled X w0 w \<and> has_journal w)"
    using step by (intro upholdsI) blast+
qed

lemma unscheduled_reads:
  assumes "reads_only m"
  shows "upholds (unscheduled X w0) (unscheduled X w0) m (\<lambda>_. unscheduled X w0)"
    and "upholds (unscheduled X w0) (\<lambda>w. unscheduled X w0 w \<and> has_journal w) m (\<lambda>_ w. unscheduled X w0 w \<and> has_journal w)"
  using unscheduled_touches [OF reads_only_touches [OF assms], of "{}"] by simp_all

lemma remove_completed_sound:
  "upholds (unscheduled X w0) (\<lambda>w. unscheduled X w0 w \<and> has_journal w) (remove_completed (entry_file i) rm)
    (\<lambda>_ w. shrunk X w0 w \<and> has_journal w)"
proof -
  have step: "\<exists>w'. remove_completed (entry_file i) rm w = (Inr (), w') \<and> shrunk X w w' \<and> has_journal w'"
    if P: "disk_ok X w" "has_journal w" for w
  proof -
    have w: "quiet w" "all_regular w" using P store_invD(2) by (auto simp: disk_ok_def)
    show ?thesis
    proof (cases "rm \<and> node_at w (entry_file i) \<noteq> None")
      case True
      then obtain bs where "node_at w (entry_file i) = Some (Regular bs)"
        using w(2) by (cases "node_at w (entry_file i)"; cases "the (node_at w (entry_file i))") (auto simp: all_regular_def entry_file_def)
      then have "remove_completed (entry_file i) rm w = (Inr (), del_node (entry_file i) w)"
        using w(1) True by (simp add: remove_completed_def run_simps)
      moreover have "disk_ok X (del_node (entry_file i) w)"
        using P(1) store_inv_removed by (intro disk_ok_entries [OF P(1)]) (auto simp: disk_ok_def del_node_def entry_file_def)
      moreover have "has_journal (del_node (entry_file i) w)"
        using P(2) by (auto simp: has_journal_def entry_file_def path_defs)
      moreover have "stored X (del_node (entry_file i) w) \<subseteq> stored X w" by (auto simp: stored_del_node)
      ultimately show ?thesis by blast
    next
      case False
      then have "remove_completed (entry_file i) rm w = (Inr (), w)"
        using w(1) by (cases rm) (simp_all add: remove_completed_def run_simps not_found_def)
      then show ?thesis using P by simp
    qed
  qed
  show ?thesis
  proof (rule upholdsI)
    fix w er w'
    assume "unscheduled X w0 w \<and> has_journal w" "remove_completed (entry_file i) rm w = (Inl er, w')"
    then show "unscheduled X w0 w'" using step [of w] by auto
  next
    fix w x w'
    assume "unscheduled X w0 w \<and> has_journal w" "remove_completed (entry_file i) rm w = (Inr x, w')"
    then show "shrunk X w0 w' \<and> has_journal w'" using step [of w] sched_same_stored [of w0 w X] by auto
  qed
qed

lemma last_post_sound:
  "upholds (unscheduled X w0) (\<lambda>w. shrunk X w0 w \<and> has_journal w) (write_atomic last_post_path bs)
    (\<lambda>_ w. shrunk X w0 w \<and> has_journal w)"
proof -
  have run: "write_atomic last_post_path bs w = (Inr (), written last_post_path bs w)" if "disk_ok X w" for w
    using that write_atomic_quiet [of w last_post_path bs] by (simp add: disk_ok_def)
  have "disk_ok X (written last_post_path bs w)" if "disk_ok X w" for w
    using that store_inv_written_marker [of last_post_path X w bs] by (simp add: disk_ok_def written_def)
  moreover have "has_journal (written last_post_path bs w)" if "has_journal w" for w
    using that by (simp add: has_journal_def written_def)
  moreover have "stored X (written last_post_path bs w) = stored X w" for w
    by (rule stored_dirs) (simp add: written_other_dir path_defs)
  ultimately show ?thesis using run by (intro upholdsI) auto
qed

lemma unlink_sound:
  "upholds (unscheduled X w0) (\<lambda>w. shrunk X w0 w \<and> has_journal w) (io (fs_remove_file completion_path)) (\<lambda>_. shrunk X w0)"
proof -
  have d: "dirs (del_node completion_path w) EntriesDir = dirs w EntriesDir" for w by (simp add: del_node_def path_defs)
  have "io (fs_remove_file completion_path) w = (Inr (), del_node completion_path w)" if "disk_ok X w" "has_journal w" for w
    using that by (auto simp: disk_ok_def has_journal_def run_simps)
  moreover have "disk_ok X (del_node completion_path w)" if "disk_ok X w" for w
  proof -
    have "store_inv X (del_node completion_path w)"
      using d that store_inv_frame [where w = w and w' = "del_node completion_path w" and X = X] wf_dirs_del_node [of w completion_path] by (simp add: disk_ok_def)
    then show ?thesis using that by (simp add: disk_ok_def)
  qed
  moreover have "stored X (del_node completion_path w) = stored X w" for w by (rule stored_dirs [OF d])
  ultimately show ?thesis by (intro upholdsI) auto
qed

lemma scan_dirents_reads [reads]: "reads_only (scan_dirents names paths acc)"
  by (induction names paths acc rule: scan_dirents.induct)
    (auto simp: Let_def ensure_queue_bytes_def intro!: reads split: prod.splits)

lemma read_entries_reads [reads]: "reads_only (read_entries X ps es usage)"
  by (induction X ps es usage rule: read_entries.induct) (auto simp: Let_def intro!: reads split: prod.splits)

lemma entries_with_usage_reads [reads]: "reads_only (entries_with_usage X)" "reads_only (entries X)"
  unfolding entries_def entries_with_usage_def scan_entry_files_def by (intro reads)+

lemma draw_uuid_touches [frame]: "touches A (draw_uuid X)"
  by (rule touchesI) (auto simp: draw_uuid_def same_outside_def wf_dirs_def)

lemma write_entry_with_usage_touches [frame]: "touches {q. fst q = EntriesDir} (write_entry_with_usage X e usage)"
proof (cases "is_valid_id (ident e)")
  case True
  then have "entry_path (ident e) = ok (EntriesDir, ident e @ ''.json'')" by (simp add: entry_path_def)
  then show ?thesis
    unfolding write_entry_with_usage_def ensure_entry_size_def ensure_queue_bytes_def
    by (auto simp: Let_def and_then_ok intro!: frame reads_only_touches [OF read_entry_reads] split: prod.splits bool.splits)
next
  case False
  then show ?thesis
    by (intro touchesI) (auto simp: write_entry_with_usage_def entry_path_def run_simps same_outside_def Let_def split: sum.splits)
qed

lemma write_entry_touches [frame]: "touches {q. fst q = EntriesDir} (write_entry X e)"
  unfolding write_entry_def by (intro frame reads_only_touches [OF entries_with_usage_reads(1)])

lemma reclaim_loop_touches: "touches {q. fst q = EntriesDir} (reclaim_loop X es)"
  by (induction es) (auto simp: Let_def intro!: frame write_entry_touches)

lemma finish_completion_sound:
  "upholds (unscheduled X w0) (\<lambda>w. unscheduled X w0 w \<and> has_journal w) (finish_completion X c) (\<lambda>_. shrunk X w0)"
proof (cases "is_valid_id (cr_id c)")
  case False
  then show ?thesis by (simp add: finish_completion_def entry_path_def upholds_def run_simps)
next
  case True
  let ?J = "unscheduled X w0" and ?P = "\<lambda>w. unscheduled X w0 w \<and> has_journal w"
  have path: "entry_path (cr_id c) = ok (entry_file (cr_id c))" using True by (simp add: entry_path_def entry_file_def)
  let ?log = "case cr_history c of None \<Rightarrow> ok () | Some h \<Rightarrow>
      and_then (append_completion_history X h (case cr_history_offset c of None \<Rightarrow> 0 | Some n \<Rightarrow> n))
        (\<lambda>_. clear_await_deletion X (cr_id c) (hr_incarnation h))"
  have "touches {history_path, (AwaitDeletionsDir, cr_id c)} ?log"
    unfolding append_completion_history_def
    by (auto split: option.split intro!: frame intro: touches_mono [OF append_once_touches] touches_mono [OF clear_await_touches [OF True]])
  then have log: "upholds ?J ?P ?log (\<lambda>_. ?P)"
    by (rule unscheduled_touches(2)) auto
  have choice: "upholds ?J ?P (case found of
         Inr entry \<Rightarrow> ok (case cr_claim_token c of None \<Rightarrow> True | Some token \<Rightarrow> claim_token entry = Some token)
       | Inl (UnknownId _) \<Rightarrow> ok False
       | Inl er \<Rightarrow> err er) (\<lambda>_. ?P)" for found :: "store_error + stored_entry"
    by (cases found; cases "projl found") (auto simp: upholds_def ok_def err_def)
  have sync: "upholds ?J (shrunk X w0) (io fs_call) (\<lambda>_. shrunk X w0)"
    by (auto simp: upholds_def disk_ok_def run_simps)
  have find: "upholds ?J ?P (attempt (find_entry X (cr_id c))) (\<lambda>_. ?P)"
    by (rule unscheduled_reads(2)) (intro reads find_entry_reads)
  show ?thesis
    unfolding finish_completion_def path and_then_ok
    by (rule upholds_and_then log find choice remove_completed_sound last_post_sound unlink_sound sync)+
qed

lemma reconcile_sound: "upholds (unscheduled X w0) (unscheduled X w0) (reconcile_completion X) (\<lambda>_. shrunk X w0)"
proof -
  have journal: "has_journal w" if "fs_read_to_string completion_path w = (Inr t, w')" "quiet w" for t w w'
    using that by (auto simp: has_journal_def fs_read_to_string_def and_then_def quiet_calls split: option.splits node.splits)
  have read: "upholds (unscheduled X w0) (unscheduled X w0) (attempt (fs_read_to_string completion_path))
      (\<lambda>r w. unscheduled X w0 w \<and> (is_ok r \<longrightarrow> has_journal w))"
  proof (rule upholdsI)
    fix w x w'
    assume w: "unscheduled X w0 w" and run: "attempt (fs_read_to_string completion_path) w = (Inr x, w')"
    then have "quiet w" by (simp add: disk_ok_def)
    then have "w' = w" "fs_read_to_string completion_path w = (x, w)"
      using run reads_only_quiet [OF reads_only_read_to_string, of w completion_path]
      by (auto simp: attempt_def split: prod.splits)
    then show "unscheduled X w0 w' \<and> (is_ok x \<longrightarrow> has_journal w')"
      using w journal \<open>quiet w\<close> by (cases x) auto
  qed (simp add: attempt_def split: prod.splits)
  have decode: "upholds (unscheduled X w0) (\<lambda>w. unscheduled X w0 w \<and> has_journal w)
      (and_then (serde (completion_from_str X t)) (finish_completion X)) (\<lambda>_. shrunk X w0)" for t
    by (rule upholds_and_then [OF unscheduled_reads(2) finish_completion_sound]) (intro reads)
  show ?thesis
    unfolding reconcile_completion_def
  proof (rule upholds_and_then [OF read])
    fix r
    show "upholds (unscheduled X w0) (\<lambda>w. unscheduled X w0 w \<and> (is_ok r \<longrightarrow> has_journal w))
        (case r of Inl e \<Rightarrow> if kind_of e = NotFound then ok () else err (Io e)
         | Inr t \<Rightarrow> and_then (serde (completion_from_str X t)) (finish_completion X)) (\<lambda>_. shrunk X w0)"
    proof (cases r)
      case (Inl er)
      have "upholds (unscheduled X w0) (unscheduled X w0) (if kind_of er = NotFound then ok () else err (Io er)) (\<lambda>_. shrunk X w0)"
        by (rule upholdsI) (auto simp: ok_def err_def sched_same_stored split: if_splits)
      then show ?thesis using Inl by simp
    next
      case (Inr t)
      then show ?thesis using decode [of t] by simp
    qed
  qed
qed

lemma upholds_sound:
  assumes "\<And>w0. upholds (unscheduled X w0) (unscheduled X w0) m (\<lambda>_ w. disk_ok X w \<and> (single_claim X w0 \<longrightarrow> single_claim X w))"
  shows "sound_op X True m"
  unfolding sound_op_def
proof (intro allI impI)
  fix w r w'
  assume "disk_ok X w" and run: "m w = (r, w')"
  then have w: "unscheduled X w w" by simp
  show "disk_ok X w' \<and> (\<not> True \<or> \<not> is_ok r \<longrightarrow> sched_same w w') \<and> (single_claim X w \<longrightarrow> single_claim X w')"
  proof (cases r)
    case (Inl e)
    then have "unscheduled X w w'" using upholdsD(1) [OF assms w] run by blast
    then show ?thesis using sched_same_single by blast
  next
    case (Inr x)
    then show ?thesis using upholdsD(2) [OF assms w] run by simp
  qed
qed

lemma complete_sound: "sound_op X True (complete_claim_with_token X e th t url)"
proof (rule upholds_sound)
  fix w0
  let ?J = "unscheduled X w0"
  let ?find = "if claim_token e = None then and_then (find_entry X (ident e)) (\<lambda>_. ok ()) else ok ()"
  have find: "upholds ?J ?J ?find (\<lambda>_. ?J)" by (rule unscheduled_reads(1)) (intro reads)
  have md: "upholds ?J ?J (attempt (fs_metadata history_path)) (\<lambda>_. ?J)"
    by (rule unscheduled_reads(1)) (intro reads)
  have len: "upholds ?J ?J (case md of Inr (_, len) \<Rightarrow> ok len
      | Inl er \<Rightarrow> if kind_of er = NotFound then ok 0 else err (Io er)) (\<lambda>_. ?J)" for md :: "io_error + bool \<times> nat"
    by (rule unscheduled_reads(1)) (intro reads)
  have draw: "upholds ?J ?J (history_success X e th t url) (\<lambda>_. ?J)"
    by (rule unscheduled_touches(1) [where A = "{}"]) (auto simp: history_success_def intro!: frame)
  have enc: "upholds ?J ?J (serde (completion_to_vec X c)) (\<lambda>_. ?J)" for c
    by (rule unscheduled_reads(1)) (intro reads)
  have journal: "upholds ?J ?J (write_atomic completion_path bs) (\<lambda>_. ?J)" for bs
    by (rule unscheduled_touches(1) [OF write_atomic_touches [where A = "{completion_path, tmp_path completion_path}"]])
      auto
  have "upholds ?J ?J (complete_claim_with_token X e th t url) (\<lambda>_. shrunk X w0)"
    unfolding complete_claim_with_token_def
    by (rule upholds_and_then find md len draw enc journal reconcile_sound)+
  then show "upholds ?J ?J (complete_claim_with_token X e th t url)
      (\<lambda>_ w. disk_ok X w \<and> (single_claim X w0 \<longrightarrow> single_claim X w))"
    by (rule upholds_weaken) (auto intro: single_claim_subset)
qed

lemma reclaim_sound:
  assumes laws: "store_laws X" and w: "disk_ok X w"
  shows "\<exists>w'. reclaim_claims X w = (Inr (), w') \<and> disk_ok X w' \<and> (\<forall>x \<in> stored X w'. claim_token x = None)"
proof -
  have w: "quiet w" "store_inv X w" "disk_ok X w" using w by (simp_all add: disk_ok_def)
  have "set (pending_list X w) \<subseteq> stored X w" "distinct (map ident (pending_list X w))"
    using set_pending_list distinct_pending_list(1) store_invD(1) [OF w(2)] by blast+
  then obtain w' g where r: "reclaim_loop X (pending_list X w) w = (Inr (), w')" "quiet w'" "store_inv X w'"
      "pending_list X w' = map g (pending_list X w)"
      "\<forall>x \<in> stored X w. if x \<in> set (pending_list X w) then reclaimed x (g x) else g x = x"
    using reclaim_loop_all [OF laws w(1,2)] by blast
  have "dirs w' QueueDir = dirs w QueueDir"
    by (rule touchesD(2) [OF reclaim_loop_touches r(1)]) auto
  then have ok: "disk_ok X w'" using disk_ok_entries [OF w(3) r(3) _ r(2)] by blast
  have "stored X w = set (pending_list X w)" "stored X w' = set (pending_list X w')"
    using set_pending_list store_invD(1) w(2) r(3) by blast+
  then have "\<forall>x \<in> stored X w'. claim_token x = None" using r(4,5) reclaimed_settled by auto
  then show ?thesis using ok r(1) entries_inv [OF w(1,2)] by (simp add: reclaim_claims_def run_simps)
qed

lemma recover_sound:
  assumes laws: "store_laws X"
  shows "sound_op X True (recover_worker_state X)"
proof (rule upholds_sound)
  fix w0
  have "upholds (unscheduled X w0) (shrunk X w0) (reclaim_claims X) (\<lambda>_ w. disk_ok X w \<and> (single_claim X w0 \<longrightarrow> single_claim X w))"
    by (rule upholdsI) (use reclaim_sound [OF laws] single_claim_unclaimed in fastforce)+
  then show "upholds (unscheduled X w0) (unscheduled X w0) (recover_worker_state X)
      (\<lambda>_ w. disk_ok X w \<and> (single_claim X w0 \<longrightarrow> single_claim X w))"
    unfolding recover_worker_state_def by (rule upholds_and_then [OF reconcile_sound])
qed

end
