(* ===== verification/Shared_Queue_Props.thy ===== *)
theory Shared_Queue_Props
  imports Queue_Props
begin

text \<open>
  The shared queue as a state machine: each operation of \<open>SharedQueue\<close> keeps the store's
  invariant, keeps at most one entry claimed, and keeps the projection that waiting clients share
  equal to the one a fresh reading of the disk would give.
\<close>

section \<open>Reading the history\<close>

lemma scan_chunks_reads [reads]: "reads_only (scan_chunks X accept ce m st rl ls ov)"
proof (rule reads_onlyI)
  fix w r w'
  show "scan_chunks X accept ce m st rl ls ov w = (r, w') \<Longrightarrow> \<exists>s. w' = w\<lparr>script := s\<rparr> \<and> suffix s (script w)"
  proof (induction X accept ce m st rl ls ov w arbitrary: r w' rule: scan_chunks.induct)
    case (1 X accept ce m st rl ls ov w)
    let ?start = "max (ce - REVERSE_CHUNK_BYTES) m"
    let ?read = "and_then (io fs_call) (\<lambda>_. io (fs_read_exact history_path ?start (ce - ?start))) :: string store"
    obtain q w1 where q: "?read w = (q, w1)" by fastforce
    have "reads_only ?read" by (intro reads)
    then obtain s where s: "w1 = w\<lparr>script := s\<rparr>" "suffix s (script w)" using reads_onlyD q by blast
    show ?case
    proof (cases "m < ce")
      case False
      then have "w' = w" using "1.prems" unfolding scan_chunks.simps [of X accept ce]
        by (auto split: option.splits prod.splits bool.splits)
      then show ?thesis by (intro exI [of _ "script w"]) simp
    next
      case True
      show ?thesis
      proof (cases "\<exists>bs st' rl' ls' ov'. q = Inr bs
          \<and> scan_bytes X accept (rev (zip [?start..<ce] bs)) st rl ls ov = Inr (st', rl', ls', ov')")
        case False
        then have "w' = w1" using "1.prems" True q unfolding scan_chunks.simps [of X accept ce]
          by (auto simp: Let_def split: sum.splits prod.splits)
        then show ?thesis using s by blast
      next
        case more: True
        then obtain bs st' rl' ls' ov' where b: "q = Inr bs"
            "scan_bytes X accept (rev (zip [?start..<ce] bs)) st rl ls ov = Inr (st', rl', ls', ov')"
          by blast
        then have "scan_chunks X accept ?start m st' rl' ls' ov' w1 = (r, w')"
          using "1.prems" True q unfolding scan_chunks.simps [of X accept ce] by (simp add: Let_def)
        then obtain s' where "w' = w1\<lparr>script := s'\<rparr>" "suffix s' (script w1)"
          using "1.IH" [OF True refl q [symmetric] b(1) b(2) refl refl refl] by blast
        then show ?thesis using s by (intro exI [of _ s']) (auto intro: suffix_order.trans)
      qed
    qed
  qed
qed

lemma read_page_reads [reads]: "reads_only (read_page X pos lim n)"
proof -
  have "reads_only (recent_start X e l)" for e l
    unfolding recent_start_def scan_reverse_def by (intro reads)
  then show ?thesis
    unfolding read_page_def page_offsets_def read_snapshot_page_def open_history_snapshot_def validate_position_def
    by (auto intro!: reads simp: Let_def split: prod.splits)
qed

lemma resolve_await_completion_reads [reads]: "reads_only (resolve_await_completion X i cursor)"
proof -
  have "reads_only (await_lifetime_was_deleted i)"
    unfolding await_lifetime_was_deleted_def await_deletion_path_def by (intro reads)
  moreover have "reads_only (latest_completion X i cursor)"
    unfolding latest_completion_def open_history_snapshot_def scan_reverse_def by (intro reads)
  ultimately show ?thesis unfolding resolve_await_completion_def by (intro reads)
qed

lemma queue_reads [reads]:
  "reads_only (schedule X cool now)" "reads_only (next_due X cool now)" "reads_only (queue_metrics_snapshot X)"
  "reads_only (pending_await_state e cursor eta)"
  unfolding schedule_def next_due_def queue_metrics_snapshot_def pending_await_state_def history_end_def
  by (auto intro!: reads split: prod.splits)

section \<open>The invariant of the shared queue\<close>

definition etas_of :: "(stored_entry \<times> u64) list \<Rightarrow> (string \<times> u64) list" where
  "etas_of sched = rev (map (\<lambda>(entry, eta). (ident entry, eta)) sched)"

definition coherent :: "ext \<Rightarrow> u64 \<Rightarrow> world \<Rightarrow> await_schedule_cache option \<Rightarrow> bool" where
  "coherent X cool w cache \<longleftrightarrow>
     (case cache of None \<Rightarrow> True
      | Some c \<Rightarrow> (\<exists>sched. fst (schedule X cool (built_at c) w) = Inr sched \<and> etas c = etas_of sched))"

definition disk_inv :: "ext \<Rightarrow> config \<Rightarrow> world \<Rightarrow> await_schedule_cache option \<Rightarrow> bool" where
  "disk_inv X cfg w cache \<longleftrightarrow>
     store_laws X \<and> disk_ok X w \<and> single_claim X w \<and> coherent X (cooldown_period_seconds cfg) w cache"

abbreviation queue_inv :: "ext \<Rightarrow> config \<Rightarrow> shared_queue \<Rightarrow> bool" where
  "queue_inv X cfg s \<equiv> disk_inv X cfg (disk s) (await_schedule s)"

lemma coherent_None [simp]: "coherent X cool w None"
  by (simp add: coherent_def)

lemma coherent_same:
  "disk_ok X w \<Longrightarrow> disk_ok X w' \<Longrightarrow> sched_same w w' \<Longrightarrow> coherent X cool w cache \<Longrightarrow> coherent X cool w' cache"
  using schedule_same [of X w w' cool] by (auto simp: coherent_def split: option.splits)

lemma publish_keeps:
  assumes "queue_inv X cfg s" "disk_ok X w" "single_claim X w"
    and "\<not> is_state_mutation op \<or> \<not> is_ok r \<Longrightarrow> coherent X (cooldown_period_seconds cfg) w cache"
    and "publish op r w cache s = (r', s')"
  shows "queue_inv X cfg s'"
  using assms by (auto simp: publish_def disk_inv_def)

lemma with_store_keeps:
  assumes inv: "queue_inv X cfg s" and op: "sound_op X (is_state_mutation op) m" and run: "with_store op m s = (r, s')"
  shows "queue_inv X cfg s'"
proof -
  obtain q w where m: "m (disk s) = (q, w)" by fastforce
  have ok: "disk_ok X (disk s)" "single_claim X (disk s)" "coherent X (cooldown_period_seconds cfg) (disk s) (await_schedule s)"
    using inv by (simp_all add: disk_inv_def)
  note sound = sound_opD [OF op ok(1) m]
  have "publish op q w (await_schedule s) s = (r, s')" using run m by (simp add: with_store_def with_state_def)
  then show ?thesis
    using coherent_same [OF ok(1) sound(1) sound(2) ok(3)] by (intro publish_keeps [OF inv sound(1) sound(3) [OF ok(2)] _ \<open>publish _ _ _ _ _ = _\<close>]) auto
qed

lemma with_store_reads_keeps: "queue_inv X cfg s \<Longrightarrow> reads_only m \<Longrightarrow> with_store op m s = (r, s') \<Longrightarrow> queue_inv X cfg s'"
  using with_store_keeps reads_sound by blast

lemma update_queue_gauges_keeps [simp]:
  assumes "queue_inv X cfg s"
  shows "queue_inv X cfg (update_queue_gauges X s)"
proof -
  obtain r s' where r: "with_store ''queue_metrics_snapshot'' (queue_metrics_snapshot X) s = (r, s')" by fastforce
  then have "queue_inv X cfg s'" using with_store_reads_keeps [OF assms queue_reads(3)] by blast
  then show ?thesis using r by (simp add: update_queue_gauges_def split: sum.splits)
qed

lemma permit_keeps [simp]: "disk (s\<lparr>permit := b\<rparr>) = disk s" "await_schedule (s\<lparr>permit := b\<rparr>) = await_schedule s"
  by simp_all

lemma mutation_finished_keeps [simp]: "queue_inv X cfg s \<Longrightarrow> queue_inv X cfg (mutation_finished X s)"
  using update_queue_gauges_keeps [of X cfg s] by (simp add: mutation_finished_def)

lemma mutate_entry_keeps:
  assumes "queue_inv X cfg s" "sound_op X True m" "is_state_mutation op" "mutate_entry X op m s = (r, s')"
  shows "queue_inv X cfg s'"
proof -
  obtain q s1 where q: "with_store op m s = (q, s1)" by fastforce
  then have "queue_inv X cfg s1" using with_store_keeps [OF assms(1) _ q] assms(2,3) by simp
  then show ?thesis using q assms(4) by (auto simp: mutate_entry_def)
qed

lemma history_append_touches: "touches {history_path} (history_append X r)"
  unfolding history_append_def append_line_def has_final_newline_def sync_parent_directory_def
  by (intro frame) auto

lemma put_sound:
  assumes laws: "store_laws X" and w: "disk_ok X w" and run: "put_with_eta X req opts now w = Some (r, w')"
  shows "disk_ok X w' \<and> (\<not> is_ok r \<longrightarrow> sched_same w w') \<and> (single_claim X w \<longrightarrow> single_claim X w')"
proof -
  have q: "quiet w" "store_inv X w" using w by (simp_all add: disk_ok_def)
  obtain r0 w0 where rs: "resolve_loop X req now None w = Some (r0, w0)"
    using run by (auto simp: put_with_eta_def resolve_entry_id_def split: option.splits)
  note res = resolve_loop_result [OF rs q(1)]
  consider "w' = w" | i ex where "resolved X w req i ex" "put_resolved X req opts now i ex w = (r, w')"
    using run rs res by (cases r0) (auto simp: put_with_eta_def resolve_entry_id_def)
  then show ?thesis
  proof cases
    case (2 i ex)
    show ?thesis
    proof (cases ex)
      case (Some e)
      have "w' = w" using put_existing_quiet [OF q 2(2) [unfolded Some]] by blast
      then show ?thesis using w by simp
    next
      case None
      have "touches {q. fst q = EntriesDir} (put_resolved X req opts now i None)"
        unfolding put_resolved_def
        by (auto intro!: frame reads_only_touches [OF entries_with_usage_reads(1)] reads_only_touches [OF last_marker_reads(3)]
            write_entry_with_usage_touches simp: Let_def)
      note t = this [THEN touchesD(2), OF 2(2) [unfolded None]] this [THEN touchesD(4), OF 2(2) [unfolded None]]
      have "disk_ok X w'" if "store_inv X w'"
        using disk_ok_entries [OF w that _ t(2)] t(1) [of QueueDir] q(1) by auto
      moreover have "sched_same w w'" "store_inv X w'" if "dirs w' = dirs w"
        using that q(2) store_inv_frame [of w' w X] by (simp_all add: sched_same_def node_at_def wf_dirs_def)
      moreover have "single_claim X w'" if "single_claim X w" "stored X w' = insert e (stored X w)" "claim_token e = None" for e
        using that by (auto simp: single_claim_def)
      ultimately show ?thesis
        using put_new_quiet [OF laws q 2(1) [unfolded None] 2(2) [unfolded None]] sched_same_single
        by (auto simp: new_entry_def)
    qed
  qed (use w in simp)
qed

section \<open>The cached projection\<close>

lemma etas_of_lookup:
  "distinct (map (ident \<circ> fst) sched) \<Longrightarrow> (case map_of (etas_of sched) i of None \<Rightarrow> 0 | Some eta \<Rightarrow> eta) = eta_of sched i"
proof (induction sched)
  case Nil
  then show ?case by (simp add: etas_of_def eta_of_def)
next
  case (Cons p sched)
  obtain e eta where p: "p = (e, eta)" by fastforce
  have notin: "map_of (etas_of sched) i = None" if "ident e = i"
    using that Cons.prems p by (force simp: etas_of_def map_of_eq_None_iff image_image split_beta)
  show ?case
    using Cons notin p by (auto simp: etas_of_def eta_of_def map_add_def split: option.splits)
qed

lemma schedule_idents:
  assumes "disk_ok X w" "fst (schedule X cool now w) = Inr sched"
  shows "distinct (map (ident \<circ> fst) sched)"
proof -
  have w: "quiet w" "store_inv X w" using assms(1) by (simp_all add: disk_ok_def)
  then obtain act where "sched = projected_schedule (pending_list X w) act cool now"
    using assms(2) schedule_quiet [OF w, of cool now] by (cases "activity w") auto
  then have "map fst sched = pending_list X w" by simp
  then show ?thesis using distinct_pending_list(1) [OF store_invD(1) [OF w(2)], of X] by (simp flip: map_map)
qed

lemma cached_eta_fresh:
  assumes "disk_inv X cfg w cache" "cool = cooldown_period_seconds cfg"
  shows "\<exists>cache'. cached_eta X i cool now (w, cache)
      = (map_ok (\<lambda>sched. eta_of sched i) (fst (schedule X cool now w)), w, cache') \<and> disk_inv X cfg w cache'"
proof -
  have ok: "disk_ok X w" "coherent X cool w cache" using assms by (simp_all add: disk_inv_def)
  have read: "schedule X cool now w = (fst (schedule X cool now w), w)"
    using reads_only_quiet [OF queue_reads(1)] ok(1) by (metis disk_ok_def prod.collapse)
  show ?thesis
  proof (cases "\<exists>c. cache = Some c \<and> built_at c = now")
    case True
    then obtain c where c: "cache = Some c" "built_at c = now" by blast
    then obtain sched where s: "fst (schedule X cool now w) = Inr sched" "etas c = etas_of sched"
      using ok(2) by (auto simp: coherent_def)
    have "cached_eta X i cool now (w, cache) = (Inr (eta_of sched i), w, cache)"
      using c s(2) etas_of_lookup [OF schedule_idents [OF ok(1) s(1)], of i] by (simp add: cached_eta_def Let_def)
    then show ?thesis using s(1) assms(1) by auto
  next
    case False
    then have rebuild: "(case cache of None \<Rightarrow> True | Some c \<Rightarrow> built_at c \<noteq> now)" by (auto split: option.splits)
    show ?thesis
    proof (cases "fst (schedule X cool now w)")
      case (Inl e)
      then have "cached_eta X i cool now (w, cache) = (Inl e, w, cache)"
        using read rebuild by (auto simp: cached_eta_def Let_def)
      then show ?thesis using Inl assms(1) by auto
    next
      case (Inr sched)
      let ?cache = "Some \<lparr>built_at = now, etas = etas_of sched\<rparr>"
      have "schedule X cool now w = (Inr sched, w)" using Inr read by simp
      then have "cached_eta X i cool now (w, cache) = (Inr (eta_of sched i), w, ?cache)"
        using rebuild etas_of_lookup [OF schedule_idents [OF ok(1) Inr], of i]
        by (auto simp: cached_eta_def Let_def etas_of_def)
      moreover have "disk_inv X cfg w ?cache" using Inr assms by (simp add: disk_inv_def coherent_def)
      ultimately show ?thesis using Inr by auto
    qed
  qed
qed

lemma resolve_pending_fresh:
  assumes "disk_inv X cfg w cache" "cool = cooldown_period_seconds cfg"
  shows "\<exists>cache'. resolve_pending X i cursor cool now (w, cache)
      = (fst (resolve_await_pending_with_eta X i cursor
           (\<lambda>e. and_then (schedule X cool now) (\<lambda>sched. ok (eta_of sched (ident e)))) w), w, cache')
    \<and> disk_inv X cfg w cache'"
proof -
  have w: "quiet w" using assms by (simp add: disk_inv_def disk_ok_def)
  show ?thesis
  proof (cases rule: find_entry_result [OF w, of X i])
    case (2 er)
    then show ?thesis using assms(1)
      by (cases er) (auto simp: resolve_pending_def resolve_await_pending_with_eta_def run_simps)
  next
    case (1 e)
    obtain cache' where eta: "cached_eta X (ident e) cool now (w, cache)
        = (map_ok (\<lambda>sched. eta_of sched (ident e)) (fst (schedule X cool now w)), w, cache')" "disk_inv X cfg w cache'"
      using cached_eta_fresh [OF assms] by blast
    have read: "schedule X cool now w = (fst (schedule X cool now w), w)"
      using reads_only_quiet [OF queue_reads(1) w] by (metis prod.collapse)
    have state: "pending_await_state e cursor n w = (fst (pending_await_state e cursor n w), w)" for n
      using reads_only_quiet [OF queue_reads(4) w] by (metis prod.collapse)
    show ?thesis
    proof (cases "case cursor of None \<Rightarrow> True | Some c \<Rightarrow> ac_incarnation c = incarnation e")
      case False
      then show ?thesis using 1 assms(1)
        by (auto simp: resolve_pending_def resolve_await_pending_with_eta_def run_simps)
    next
      case True
      show ?thesis
      proof (cases "fst (schedule X cool now w)")
        case (Inl er)
        then have "schedule X cool now w = (Inl er, w)" using read by simp
        then show ?thesis using 1 True Inl eta
          by (auto simp: resolve_pending_def resolve_await_pending_with_eta_def run_simps)
      next
        case (Inr sched)
        then have sched: "schedule X cool now w = (Inr sched, w)" using read by simp
        obtain r where r: "pending_await_state e cursor (eta_of sched (ident e)) w = (r, w)" using state by blast
        show ?thesis using 1 True eta sched r
          by (cases r) (auto simp: resolve_pending_def resolve_await_pending_with_eta_def run_simps)
      qed
    qed
  qed
qed

section \<open>Every operation keeps the invariant\<close>

lemma laws_of_inv: "queue_inv X cfg s \<Longrightarrow> store_laws X"
  by (simp add: disk_inv_def)

lemma sq_put_keeps:
  assumes inv: "queue_inv X cfg s" and run: "sq_put X cfg sample now req imm s = Some (r, s')"
  shows "queue_inv X cfg s'"
proof (cases "validate_request req")
  case (Inl e)
  then show ?thesis using run inv by (simp add: sq_put_def)
next
  case (Inr u)
  then obtain opts q w where put: "put_with_eta X req opts now (disk s) = Some (q, w)"
    and pub: "publish ''put'' q w (await_schedule s) s = (r, snd (publish ''put'' q w (await_schedule s) s))"
      "s' = (if is_ok r then mutation_finished X (snd (publish ''put'' q w (await_schedule s) s))
             else snd (publish ''put'' q w (await_schedule s) s))"
    using run by (auto simp: sq_put_def Let_def publish_def split: option.splits prod.splits)
  have ok: "disk_ok X (disk s)" "single_claim X (disk s)" "coherent X (cooldown_period_seconds cfg) (disk s) (await_schedule s)"
    using inv by (simp_all add: disk_inv_def)
  note sound = put_sound [OF laws_of_inv [OF inv] ok(1) put]
  have "queue_inv X cfg (snd (publish ''put'' q w (await_schedule s) s))"
    using sound coherent_same [OF ok(1) _ _ ok(3)] ok(2)
    by (intro publish_keeps [OF inv _ _ _ pub(1)]) (auto simp: is_state_mutation_def)
  then show ?thesis using pub(2) by simp
qed

lemma sq_entry_keeps:
  assumes inv: "queue_inv X cfg s"
  shows "sq_bump X i s = (r, s') \<Longrightarrow> queue_inv X cfg s'" and "sq_bust X i s = (r, s') \<Longrightarrow> queue_inv X cfg s'"
    and "sq_del X i s = (r, s') \<Longrightarrow> queue_inv X cfg s'"
proof -
  note laws = laws_of_inv [OF inv]
  have mut: "is_state_mutation ''bump''" "is_state_mutation ''bust''" "is_state_mutation ''del''"
    by (simp_all add: is_state_mutation_def)
  show "sq_bump X i s = (r, s') \<Longrightarrow> queue_inv X cfg s'"
    unfolding sq_bump_def by (rule mutate_entry_keeps [OF inv bump_sound [OF laws] mut(1)])
  show "sq_bust X i s = (r, s') \<Longrightarrow> queue_inv X cfg s'"
    unfolding sq_bust_def by (rule mutate_entry_keeps [OF inv bust_sound [OF laws] mut(2)])
  show "sq_del X i s = (r, s') \<Longrightarrow> queue_inv X cfg s'"
    unfolding sq_del_def by (rule mutate_entry_keeps [OF inv del_sound mut(3)])
qed

lemma sq_read_keeps:
  assumes inv: "queue_inv X cfg s"
  shows "sq_list X cfg now s = (r1, s') \<Longrightarrow> queue_inv X cfg s'"
    and "sq_next_due X cfg now s = (r2, s') \<Longrightarrow> queue_inv X cfg s'"
    and "sq_history_page X lim pos s = (r3, s') \<Longrightarrow> queue_inv X cfg s'"
    and "sq_last_token_hash X s = (r4, s') \<Longrightarrow> queue_inv X cfg s'"
  unfolding sq_list_def sq_next_due_def sq_history_page_def sq_last_token_hash_def history_page_of_def
  by (auto intro!: reads elim!: with_store_reads_keeps [OF inv, rotated])

lemma sq_claim_keeps:
  assumes inv: "queue_inv X cfg s" and run: "sq_claim_next_due X cfg now s = (r, s')"
  shows "queue_inv X cfg s'"
proof -
  obtain q s1 where q: "with_store ''claim_next_due'' (claim_next_due X (cooldown_period_seconds cfg) now) s = (q, s1)"
    by fastforce
  have "queue_inv X cfg s1"
    by (rule with_store_keeps [OF inv _ q]) (simp add: claim_sound laws_of_inv [OF inv] is_state_mutation_def)
  then show ?thesis using run q by (auto simp: sq_claim_next_due_def split: sum.splits option.splits prod.splits if_splits)
qed

lemma sq_recover_keeps:
  assumes inv: "queue_inv X cfg s" and run: "sq_recover_worker_state X s = (r, s')"
  shows "queue_inv X cfg s'"
proof -
  obtain q s1 where q: "with_store ''recover_worker_state'' (recover_worker_state X) s = (q, s1)" by fastforce
  have "queue_inv X cfg s1"
    by (rule with_store_keeps [OF inv _ q]) (simp add: recover_sound laws_of_inv [OF inv] is_state_mutation_def)
  then show ?thesis using run q by (auto simp: sq_recover_worker_state_def split: sum.splits)
qed

lemma sq_settle_keeps:
  assumes inv: "queue_inv X cfg s"
  shows "sq_complete X now e th url s = (r, s') \<Longrightarrow> queue_inv X cfg s'"
    and "sq_release_claim X now i token s = (r, s') \<Longrightarrow> queue_inv X cfg s'"
proof -
  obtain q1 s1 where one: "with_store ''complete'' (complete_claim_with_token X e th now (Some url)) s = (q1, s1)" by fastforce
  have "queue_inv X cfg s1"
    by (rule with_store_keeps [OF inv _ one]) (simp add: complete_sound is_state_mutation_def)
  then show "sq_complete X now e th url s = (r, s') \<Longrightarrow> queue_inv X cfg s'"
    using one by (auto simp: sq_complete_def)
  obtain q2 s2 where two: "with_store ''release_claim'' (release_claim X i token now) s = (q2, s2)" by fastforce
  have "queue_inv X cfg s2"
    by (rule with_store_keeps [OF inv _ two]) (simp add: release_sound laws_of_inv [OF inv] is_state_mutation_def)
  then show "sq_release_claim X now i token s = (r, s') \<Longrightarrow> queue_inv X cfg s'"
    using two by (auto simp: sq_release_claim_def)
qed

lemma drawn_keeps: "disk_inv X cfg w cache \<Longrightarrow> disk_inv X cfg (drawn w) cache"
proof -
  have "sched_same w (drawn w)" by (simp add: sched_same_def drawn_def node_at_def)
  then show "disk_inv X cfg w cache \<Longrightarrow> disk_inv X cfg (drawn w) cache"
    using coherent_same [of X w "drawn w"] sched_same_single [of w "drawn w" X] by (simp add: disk_inv_def)
qed

lemma sq_append_keeps:
  assumes inv: "queue_inv X cfg s"
  shows "sq_append_history X h s = (r, s') \<Longrightarrow> queue_inv X cfg s'"
    and "sq_record_failure X now e th m s = (r, s') \<Longrightarrow> queue_inv X cfg s'"
proof -
  have app: "queue_inv X cfg s'" if "queue_inv X cfg t" "sq_append_history X g t = (r, s')" for g t
  proof (rule with_store_keeps [OF that(1) _ that(2) [unfolded sq_append_history_def]])
    show "sound_op X (is_state_mutation ''append_history'') (append_history X g)"
      unfolding append_history_def by (rule touches_sound [OF history_append_touches]) auto
  qed
  then show "sq_append_history X h s = (r, s') \<Longrightarrow> queue_inv X cfg s'" using inv by blast
  have "\<exists>g. (history_failure X e th now m :: history_record store) (disk s) = (Inr g, drawn (disk s))"
    by (simp add: history_failure_def run_simps drawn_def)
  then show "sq_record_failure X now e th m s = (r, s') \<Longrightarrow> queue_inv X cfg s'"
    using app [of "s\<lparr>disk := drawn (disk s)\<rparr>"] drawn_keeps [OF inv] by (auto simp: sq_record_failure_def)
qed

lemma observe_fresh:
  assumes inv: "queue_inv X cfg s"
  shows "\<exists>cache'. observe_await_state X cfg i cursor now s
      = (map_ok (\<lambda>p. \<lparr>generation = state_version s, pending = p\<rparr>)
           (fst (resolve_await_pending_with_eta X i cursor
             (\<lambda>e. and_then (schedule X (cooldown_period_seconds cfg) now) (\<lambda>sched. ok (eta_of sched (ident e)))) (disk s))),
         s\<lparr>await_schedule := cache'\<rparr>)
    \<and> queue_inv X cfg (s\<lparr>await_schedule := cache'\<rparr>)"
proof -
  obtain cache' where r: "resolve_pending X i cursor (cooldown_period_seconds cfg) now (disk s, await_schedule s)
      = (fst (resolve_await_pending_with_eta X i cursor
           (\<lambda>e. and_then (schedule X (cooldown_period_seconds cfg) now) (\<lambda>sched. ok (eta_of sched (ident e)))) (disk s)),
         disk s, cache')" "disk_inv X cfg (disk s) cache'"
    using resolve_pending_fresh [OF inv refl] by blast
  then show ?thesis
    by (intro exI [of _ cache']) (auto simp: observe_await_state_def with_state_def publish_def is_state_mutation_def)
qed

section \<open>Opening the queue\<close>

lemma reconcile_markers_touches: "touches {q. fst q = AwaitDeletionsDir} (reconcile_markers es removed)"
proof (induction es arbitrary: removed)
  case (Cons e es)
  show ?case
  proof (cases "is_valid_id (ident e)")
    case True
    then have "await_deletion_path (ident e) = ok (AwaitDeletionsDir, ident e)" by (simp add: await_deletion_path_def)
    then show ?thesis using Cons by (auto simp: and_then_ok intro!: frame)
  next
    case False
    then show ?thesis by (intro touchesI) (auto simp: await_deletion_path_def run_simps same_outside_def)
  qed
qed (simp add: frame)

lemma reconcile_await_deletions_touches: "touches {q. fst q = AwaitDeletionsDir} (reconcile_await_deletions X)"
  unfolding reconcile_await_deletions_def
  by (intro frame reconcile_markers_touches reads_only_touches [OF entries_with_usage_reads(2)])

lemma open_store_settles:
  assumes laws: "store_laws X" and w: "disk_ok X w" and run: "open_store X w = (Inr u, w')"
  shows "disk_ok X w' \<and> single_claim X w'"
proof -
  have q: "quiet w" using w by (simp add: disk_ok_def)
  obtain w1 where one: "reconcile_completion X w = (Inr (), w1)"
    and rest: "and_then (validate_existing_limits X) (\<lambda>_. and_then (reclaim_claims X) (\<lambda>_. reconcile_await_deletions X)) w1 = (Inr u, w')"
    using run q by (auto simp: open_store_def run_simps elim!: and_then_InrE)
  have ok1: "disk_ok X w1" using upholdsD(2) [OF reconcile_sound [of X w] _ one] w by simp
  have "reads_only (validate_existing_limits X)"
    unfolding validate_existing_limits_def ensure_queue_bytes_def by (auto intro!: reads split: prod.splits)
  then obtain v w2 where two: "reclaim_claims X w1 = (Inr v, w2)" and three: "reconcile_await_deletions X w2 = (Inr u, w')"
    using rest reads_only_quiet [of "validate_existing_limits X" w1] ok1
    by (auto simp: disk_ok_def elim!: and_then_InrE)
  then have ok2: "disk_ok X w2" "\<forall>x \<in> stored X w2. claim_token x = None" using reclaim_sound [OF laws ok1] by auto
  have "disk_ok X w'" "sched_same w2 w'"
    using touches_disk [OF reconcile_await_deletions_touches three _ _ ok2(1)]
    by (auto simp: schedule_paths_def path_defs tmp_path_def)
  then show ?thesis using single_claim_unclaimed [OF ok2(2)] sched_same_single by blast
qed

lemma open_queue_inv:
  assumes "store_laws X" "disk_ok X w" "open_queue X w = (Inr s, w')"
  shows "queue_inv X cfg s"
proof -
  obtain u w1 c where o1: "open_store X w = (Inr u, w1)" and o2: "queue_metrics_snapshot X w1 = (Inr c, w')"
    and s: "disk s = w'" "await_schedule s = None"
    using assms(3) by (auto simp: open_queue_def elim!: and_then_InrE)
  have ok: "disk_ok X w1" "single_claim X w1" using open_store_settles [OF assms(1,2) o1] by simp_all
  have "w' = w1" using o2 reads_only_quiet [OF queue_reads(3), of w1] ok(1) by (auto simp: disk_ok_def)
  then show ?thesis using ok s assms(1) by (simp add: disk_inv_def)
qed

section \<open>Waiting clients\<close>

text \<open>The answer a waiting client should get, read from the disk without any cache.\<close>

definition await_answer ::
  "ext \<Rightarrow> config \<Rightarrow> string \<Rightarrow> await_cursor option \<Rightarrow> u64 \<Rightarrow> world \<Rightarrow> store_error + await_state" where
  "await_answer X cfg i cursor now w =
     fst (and_then (resolve_await_pending_with_eta X i cursor
             (\<lambda>e. and_then (schedule X (cooldown_period_seconds cfg) now) (\<lambda>sched. ok (eta_of sched (ident e)))))
           (\<lambda>p. case p of Some st \<Rightarrow> ok st | None \<Rightarrow> resolve_await_completion X i cursor) w)"

lemma pending_lookup_reads:
  "reads_only (resolve_await_pending_with_eta X i cursor (\<lambda>e. and_then (schedule X cool now) (\<lambda>sched. ok (eta_of sched (ident e)))))"
  unfolding resolve_await_pending_with_eta_def by (auto intro!: reads split: store_error.splits)

lemma pending_lookup_none:
  assumes "quiet w"
    "fst (resolve_await_pending_with_eta X i cursor (\<lambda>e. and_then (schedule X cool now) (\<lambda>sched. ok (eta_of sched (ident e)))) w) = Inr None"
  shows "fst (resolve_await_pending_with_eta X i cursor (\<lambda>e. and_then (schedule X cool now') (\<lambda>sched. ok (eta_of sched (ident e)))) w) = Inr None"
proof (cases rule: find_entry_result [OF assms(1), of X i])
  case (2 er)
  then show ?thesis using assms(2) by (cases er) (auto simp: resolve_await_pending_with_eta_def run_simps)
next
  case (1 e)
  have "\<not> (case cursor of None \<Rightarrow> True | Some c \<Rightarrow> ac_incarnation c = incarnation e)"
  proof
    assume m: "case cursor of None \<Rightarrow> True | Some c \<Rightarrow> ac_incarnation c = incarnation e"
    obtain r where r: "schedule X cool now w = (r, w)"
      using reads_only_quiet [OF queue_reads(1) assms(1)] by (metis prod.collapse)
    have "fst (and_then (pending_await_state e cursor n) (\<lambda>s. ok (Some s)) w) \<noteq> Inr None" for n
      by (auto simp: and_then_def ok_def split: prod.splits sum.splits)
    then show False using 1 m r assms(2)
      by (cases r) (auto simp: resolve_await_pending_with_eta_def run_simps)
  qed
  then show ?thesis using 1 by (auto simp: resolve_await_pending_with_eta_def run_simps)
qed

text \<open>One round that nothing overtakes answers from the disk alone.\<close>

lemma resolve_await_round:
  assumes inv: "queue_inv X cfg s" and still: "interfere n = id" "interfere (Suc n) = id"
  shows "\<exists>cache. resolve_await_loop X cfg interfere clock i cursor n s
      = Some (await_answer X cfg i cursor (clock n) (disk s), s\<lparr>await_schedule := cache\<rparr>)
    \<and> queue_inv X cfg (s\<lparr>await_schedule := cache\<rparr>)"
proof -
  have w: "quiet (disk s)" using inv by (simp add: disk_inv_def disk_ok_def)
  let ?p = "\<lambda>now. resolve_await_pending_with_eta X i cursor
      (\<lambda>e. and_then (schedule X (cooldown_period_seconds cfg) now) (\<lambda>sched. ok (eta_of sched (ident e))))"
  obtain c1 where o1: "observe_await_state X cfg i cursor (clock n) s
        = (map_ok (\<lambda>p. \<lparr>generation = state_version s, pending = p\<rparr>) (fst (?p (clock n) (disk s))), s\<lparr>await_schedule := c1\<rparr>)"
      "queue_inv X cfg (s\<lparr>await_schedule := c1\<rparr>)"
    using observe_fresh [OF inv] by blast
  obtain c2 where o2: "observe_await_state X cfg i cursor (clock (Suc n)) (s\<lparr>await_schedule := c1\<rparr>)
        = (map_ok (\<lambda>p. \<lparr>generation = state_version s, pending = p\<rparr>) (fst (?p (clock (Suc n)) (disk s))), s\<lparr>await_schedule := c2\<rparr>)"
      "queue_inv X cfg (s\<lparr>await_schedule := c2\<rparr>)"
    using observe_fresh [OF o1(2), of i cursor "clock (Suc n)"] by auto
  have read: "?p (clock n) (disk s) = (fst (?p (clock n) (disk s)), disk s)"
    using reads_only_quiet [OF pending_lookup_reads w] by (metis prod.collapse)
  show ?thesis
  proof (cases "fst (?p (clock n) (disk s)) = Inr None")
    case False
    then have "resolve_await_loop X cfg interfere clock i cursor n s
        = Some (await_answer X cfg i cursor (clock n) (disk s), s\<lparr>await_schedule := c1\<rparr>)"
      using o1(1) read unfolding resolve_await_loop.simps [of X cfg interfere clock i cursor n] await_answer_def
      by (cases "fst (?p (clock n) (disk s))") (auto simp: and_then_def ok_def split: option.splits)
    then show ?thesis using o1(2) by blast
  next
    case True
    obtain r where r: "resolve_await_completion X i cursor (disk s) = (r, disk s)"
      using reads_only_quiet [OF resolve_await_completion_reads w] by (metis prod.collapse)
    have "await_answer X cfg i cursor (clock n) (disk s) = r"
      using True read r by (simp add: await_answer_def and_then_def)
    moreover have "s\<lparr>await_schedule := c1, disk := disk s\<rparr> = s\<lparr>await_schedule := c1\<rparr>" by simp
    ultimately have "resolve_await_loop X cfg interfere clock i cursor n s
        = Some (await_answer X cfg i cursor (clock n) (disk s), s\<lparr>await_schedule := c2\<rparr>)"
      using o1(1) o2(1) True pending_lookup_none [OF w True, of "clock (Suc n)"] r still
      unfolding resolve_await_loop.simps [of X cfg interfere clock i cursor n] by simp
    then show ?thesis using o2(2) by blast
  qed
qed

lemma scan_keeps:
  assumes "queue_inv X cfg s" "resolve_await_completion X i cursor (disk s) = (r, w)"
  shows "queue_inv X cfg (s\<lparr>disk := w\<rparr>)"
proof -
  have "quiet (disk s)" using assms(1) by (simp add: disk_inv_def disk_ok_def)
  then have "w = disk s" by (rule reads_only_quiet [OF resolve_await_completion_reads _ assms(2)])
  then show ?thesis using assms(1) by simp
qed

text \<open>A lookup that is overtaken finitely often returns.\<close>

lemma resolve_await_returns:
  assumes keep: "\<forall>m t. queue_inv X cfg t \<longrightarrow> queue_inv X cfg (interfere m t)"
    and still: "\<forall>m \<ge> N. interfere m = id"
  shows "queue_inv X cfg s \<Longrightarrow>
    \<exists>r s'. resolve_await_loop X cfg interfere clock i cursor n s = Some (r, s') \<and> queue_inv X cfg s'"
proof (induction "N - n" arbitrary: n s rule: less_induct)
  case less
  show ?case
  proof (cases "N \<le> n")
    case True
    then show ?thesis using resolve_await_round [OF less.prems, of interfere n clock i cursor] still by auto
  next
    case False
    obtain o1 s1 where one: "observe_await_state X cfg i cursor (clock n) s = (o1, s1)" "queue_inv X cfg s1"
      using observe_fresh [OF less.prems] by blast
    obtain c w where c: "resolve_await_completion X i cursor (disk (interfere n s1)) = (c, w)" by fastforce
    define s2 where "s2 = interfere (Suc n) ((interfere n s1)\<lparr>disk := w\<rparr>)"
    have s2: "queue_inv X cfg s2" unfolding s2_def using keep one(2) scan_keeps c by blast
    obtain o2 s3 where two: "observe_await_state X cfg i cursor (clock (Suc n)) s2 = (o2, s3)" "queue_inv X cfg s3"
      using observe_fresh [OF s2] by blast
    have "N - Suc (Suc n) < N - n" using False by linarith
    then obtain r s' where IH: "resolve_await_loop X cfg interfere clock i cursor (Suc (Suc n)) s3 = Some (r, s')" "queue_inv X cfg s'"
      using less.hyps [OF _ two(2)] by blast
    show ?thesis
      using one two c IH unfolding resolve_await_loop.simps [of X cfg interfere clock i cursor n]
      by (auto simp flip: s2_def split: sum.splits option.splits)
  qed
qed

section \<open>What the daemon's tasks rely on\<close>

locale queue_contract =
  fixes X :: ext and cfg :: config and Inv :: "shared_queue \<Rightarrow> bool"
  assumes put: "Inv s \<Longrightarrow> sq_put X cfg sample now req imm s = Some (r, s') \<Longrightarrow> Inv s'"
    and bump: "Inv s \<Longrightarrow> sq_bump X i s = (q, s') \<Longrightarrow> Inv s'"
    and bust: "Inv s \<Longrightarrow> sq_bust X i s = (q, s') \<Longrightarrow> Inv s'"
    and del: "Inv s \<Longrightarrow> sq_del X i s = (q, s') \<Longrightarrow> Inv s'"
    and list: "Inv s \<Longrightarrow> sq_list X cfg now s = (l, s') \<Longrightarrow> Inv s'"
    and history_page: "Inv s \<Longrightarrow> sq_history_page X lim pos s = (h, s') \<Longrightarrow> Inv s'"
    and last_token: "Inv s \<Longrightarrow> sq_last_token_hash X s = (t, s') \<Longrightarrow> Inv s'"
    and claim: "Inv s \<Longrightarrow> sq_claim_next_due X cfg now s = (d, s') \<Longrightarrow> Inv s'"
    and recover: "Inv s \<Longrightarrow> sq_recover_worker_state X s = (q, s') \<Longrightarrow> Inv s'"
    and complete: "Inv s \<Longrightarrow> sq_complete X now e th url s = (q, s') \<Longrightarrow> Inv s'"
    and release: "Inv s \<Longrightarrow> sq_release_claim X now i token s = (q, s') \<Longrightarrow> Inv s'"
    and failure: "Inv s \<Longrightarrow> sq_record_failure X now e th m s = (q, s') \<Longrightarrow> Inv s'"
    and observe: "Inv s \<Longrightarrow> observe_await_state X cfg i cursor now s = (v, s') \<Longrightarrow> Inv s'"
    and signal: "Inv s \<Longrightarrow> Inv (s\<lparr>permit := b\<rparr>)"

interpretation shared: queue_contract X cfg "queue_inv X cfg" for X cfg
proof
  fix s i cursor now v s'
  assume "queue_inv X cfg s" "observe_await_state X cfg i cursor now s = (v, s')"
  then show "queue_inv X cfg s'" using observe_fresh [of X cfg s i cursor now] by auto
qed (simp | rule sq_put_keeps sq_entry_keeps sq_read_keeps sq_claim_keeps sq_recover_keeps sq_settle_keeps sq_append_keeps; assumption)+

end
