(* ===== verification/Worker.thy ===== *)
theory Worker
  imports Queue
begin

text \<open>
  The posting worker (\<open>crates/comenqd/src/worker.rs\<close>, \<open>worker/tokens.rs\<close>): recovery, then a loop
  that claims the due entry, picks a token, posts, and records the outcome. One iteration is a
  function from the shared queue to the next thing the worker does; GitHub is the parameter
  \<open>post\<close>. The whole task is a step relation in which the environment ends a wait or mutates the
  queue.
\<close>

section \<open>Tokens\<close>

record token_client =
  tc_name :: string
  tc_hash :: string

definition next_token_index :: "string list \<Rightarrow> string option \<Rightarrow> usize" where
  "next_token_index token_hashes last_hash =
     (if token_hashes = [] then 0
      else case (case last_hash of None \<Rightarrow> None | Some h \<Rightarrow> position (\<lambda>t. t = h) token_hashes) of
             None \<Rightarrow> 0
           | Some index \<Rightarrow> (index + 1) mod length token_hashes)"

text \<open>\<open>token_hash\<close> writes the digest, which \<open>sha2\<close> computes, as hexadecimal digits.\<close>

definition hex_byte :: "char \<Rightarrow> string" where
  "hex_byte b = [hex_char (byte b div 16), hex_char (byte b mod 16)]"

definition worker_token_hash :: "(string \<Rightarrow> string) \<Rightarrow> string \<Rightarrow> string" where
  "worker_token_hash sha256 token = concat (map hex_byte (sha256 token))"

definition new_token_client :: "(string \<Rightarrow> string) \<Rightarrow> string \<Rightarrow> string \<Rightarrow> token_client" where
  "new_token_client sha256 name token = \<lparr>tc_name = name, tc_hash = worker_token_hash sha256 token\<rparr>"

section \<open>Posting\<close>

datatype post_comment_error = PostApi string | PostTimeout

definition post_error_text :: "post_comment_error \<Rightarrow> string" where
  "post_error_text e = (case e of PostApi m \<Rightarrow> m | PostTimeout \<Rightarrow> ''timeout'')"

text \<open>\<open>post_comment\<close>: the API's answer arrives within the deadline or it does not.\<close>

definition post_comment ::
  "(token_client \<Rightarrow> comment_request \<Rightarrow> u64 \<times> (string + string)) \<Rightarrow> config \<Rightarrow> token_client
     \<Rightarrow> comment_request \<Rightarrow> post_comment_error + string" where
  "post_comment api cfg client req =
     (case api client req of (elapsed, answer) \<Rightarrow>
        if elapsed \<le> github_api_timeout_secs cfg then map_err PostApi answer else Inl PostTimeout)"

definition post_outcome :: "post_comment_error + string \<Rightarrow> string" where
  "post_outcome r =
     (case r of Inr _ \<Rightarrow> ''success'' | Inl (PostApi _) \<Rightarrow> ''api_error'' | Inl PostTimeout \<Rightarrow> ''timeout'')"

section \<open>One iteration\<close>

datatype worker_next =
    WaitChange
  | WaitScheduled u64
  | Again
  | WaitRetry u64
  | Stop "(store_error + string) option"

text \<open>How a posted entry ends: completed, or recorded as a failure and released.\<close>

definition settle ::
  "ext \<Rightarrow> config \<Rightarrow> u64 \<Rightarrow> stored_entry \<Rightarrow> token_client \<Rightarrow> post_comment_error + string
     \<Rightarrow> shared_queue \<Rightarrow> worker_next \<times> shared_queue" where
  "settle X cfg now entry client answer s =
     (case answer of
        Inr url \<Rightarrow>
          (case sq_complete X now entry (tc_hash client) url s of
             (Inl e, s') \<Rightarrow> (Stop (Some (Inl e)), s')
           | (Inr _, s') \<Rightarrow> (Again, s'))
      | Inl e \<Rightarrow>
          (case sq_record_failure X now entry (tc_hash client) (post_error_text e) s of
             (_, s1) \<Rightarrow>
               (case claim_token entry of
                  None \<Rightarrow> (WaitRetry (cooldown_period_seconds cfg), s1)
                | Some token \<Rightarrow>
                    (case sq_release_claim X now (ident entry) token s1 of
                       (Inl e, s2) \<Rightarrow> (Stop (Some (Inl e)), s2)
                     | (Inr _, s2) \<Rightarrow> (WaitRetry (cooldown_period_seconds cfg), s2)))))"

text \<open>The body of the worker's loop, with the clock's reading at the claim and after the post.\<close>

definition worker_iteration ::
  "ext \<Rightarrow> config \<Rightarrow> token_client list \<Rightarrow> (token_client \<Rightarrow> comment_request \<Rightarrow> post_comment_error + string)
     \<Rightarrow> u64 \<Rightarrow> u64 \<Rightarrow> shared_queue \<Rightarrow> worker_next \<times> shared_queue" where
  "worker_iteration X cfg clients post now later s =
     (case sq_claim_next_due X cfg now s of
        (Inl e, s1) \<Rightarrow> (Stop (Some (Inl e)), s1)
      | (Inr None, s1) \<Rightarrow> (WaitChange, s1)
      | (Inr (Some (entry, wait_seconds)), s1) \<Rightarrow>
          if wait_seconds > 0 then (WaitScheduled wait_seconds, s1)
          else
            (case sq_last_token_hash X s1 of
               (r, s2) \<Rightarrow>
                 let last_hash = (case r of Inr h \<Rightarrow> h | Inl _ \<Rightarrow> None);
                     index = next_token_index (map tc_hash clients) last_hash in
                 if index < length clients then
                   settle X cfg later entry (clients ! index) (post (clients ! index) (request entry)) s2
                 else (Stop (Some (Inr ''token index in range'')), s2)))"

definition start_worker :: "ext \<Rightarrow> token_client list \<Rightarrow> shared_queue \<Rightarrow> (store_error + string) option \<times> shared_queue" where
  "start_worker X clients s =
     (if clients = [] then (Some (Inr ''the worker needs at least one GitHub token''), s)
      else case sq_recover_worker_state X s of
             (Inl e, s') \<Rightarrow> (Some (Inl e), s')
           | (Inr _, s') \<Rightarrow> (None, s'))"

section \<open>Waiting\<close>

text \<open>What wakes a waiting worker first, in the order of the biased \<open>select\<close>.\<close>

datatype wake = Shutdown | QueueChanged | TimerFired

text \<open>\<open>wait_for_retry_deadline\<close> over the wake-ups it sees, each with the time it comes at: queue
  changes are consumed until the deadline. The result is the shutdown flag and the time it
  returns.\<close>

fun wait_for_retry_deadline :: "u64 \<Rightarrow> u64 \<Rightarrow> (u64 \<times> wake) list \<Rightarrow> (bool \<times> u64) option" where
  "wait_for_retry_deadline deadline now events =
     (if deadline \<le> now then Some (False, now)
      else case events of
             [] \<Rightarrow> None
           | (t, Shutdown) # _ \<Rightarrow> Some (True, t)
           | (t, TimerFired) # _ \<Rightarrow> Some (False, t)
           | (t, QueueChanged) # rest \<Rightarrow> wait_for_retry_deadline deadline (max now t) rest)"

definition RETRY_OVERFLOW_FALLBACK :: u64 where
  [limits]: "RETRY_OVERFLOW_FALLBACK = 100 * 365 * 24 * 60 * 60"

text \<open>\<open>retry_deadline\<close>, in seconds of a monotonic clock that cannot go beyond \<open>horizon\<close>.\<close>

definition checked_add_instant :: "u64 \<Rightarrow> u64 \<Rightarrow> u64 \<Rightarrow> u64 option" where
  "checked_add_instant horizon now d = (if now + d \<le> horizon then Some (now + d) else None)"

definition retry_deadline :: "u64 \<Rightarrow> u64 \<Rightarrow> u64 \<Rightarrow> u64" where
  "retry_deadline horizon now cool =
     (case checked_add_instant horizon now cool of
        Some t \<Rightarrow> t
      | None \<Rightarrow>
          (case checked_add_instant horizon now RETRY_OVERFLOW_FALLBACK of
             Some t \<Rightarrow> t
           | None \<Rightarrow> now))"

section \<open>The task\<close>

datatype worker_phase =
    Starting
  | Ready
  | AwaitingChange
  | Sleeping u64
  | Retrying u64
  | Finished "(store_error + string) option"

definition phase_of :: "u64 \<Rightarrow> u64 \<Rightarrow> worker_next \<Rightarrow> worker_phase" where
  "phase_of horizon t n =
     (case n of
        WaitChange \<Rightarrow> AwaitingChange
      | WaitScheduled d \<Rightarrow> Sleeping (t + d)
      | Again \<Rightarrow> Ready
      | WaitRetry d \<Rightarrow> Retrying (retry_deadline horizon t d)
      | Stop e \<Rightarrow> Finished e)"

text \<open>
  A state of the whole task is the time, the phase and the queue. A sleeping or retrying worker
  carries the time its timer fires. Between the worker's steps time passes and other tasks may
  change the queue, as the relation \<open>others\<close> allows.
\<close>

inductive worker_step ::
  "ext \<Rightarrow> config \<Rightarrow> u64 \<Rightarrow> token_client list
     \<Rightarrow> (u64 \<Rightarrow> token_client \<Rightarrow> comment_request \<Rightarrow> post_comment_error + string)
     \<Rightarrow> (u64 \<Rightarrow> shared_queue \<Rightarrow> shared_queue \<Rightarrow> bool)
     \<Rightarrow> u64 \<times> worker_phase \<times> shared_queue \<Rightarrow> u64 \<times> worker_phase \<times> shared_queue \<Rightarrow> bool"
  for X cfg horizon clients post others where
  start: "start_worker X clients s = (e, s') \<Longrightarrow>
    worker_step X cfg horizon clients post others (t, Starting, s)
      (t, if e = None then Ready else Finished e, s')"
| iterate: "t \<le> t' \<Longrightarrow> worker_iteration X cfg clients (post t) t t' s = (n, s') \<Longrightarrow>
    worker_step X cfg horizon clients post others (t, Ready, s) (t', phase_of horizon t' n, s')"
| wake_change: "permit s \<Longrightarrow>
    worker_step X cfg horizon clients post others (t, AwaitingChange, s) (t, Ready, s\<lparr>permit := False\<rparr>)"
| wake_sleeper: "until \<le> t \<Longrightarrow>
    worker_step X cfg horizon clients post others (t, Sleeping until, s) (t, Ready, s)"
| interrupt_sleeper: "permit s \<Longrightarrow>
    worker_step X cfg horizon clients post others (t, Sleeping until, s) (t, Ready, s\<lparr>permit := False\<rparr>)"
| consume_change: "permit s \<Longrightarrow>
    worker_step X cfg horizon clients post others (t, Retrying until, s)
      (t, Retrying until, s\<lparr>permit := False\<rparr>)"
| retry: "until \<le> t \<Longrightarrow>
    worker_step X cfg horizon clients post others (t, Retrying until, s) (t, Ready, s)"
| shutdown: "ph \<in> {AwaitingChange, Sleeping until, Retrying until} \<Longrightarrow>
    worker_step X cfg horizon clients post others (t, ph, s) (t, Finished None, s)"
| others_act: "others t s s' \<Longrightarrow>
    worker_step X cfg horizon clients post others (t, ph, s) (t, ph, s')"
| tick: "t \<le> t' \<Longrightarrow>
    worker_step X cfg horizon clients post others (t, ph, s) (t', ph, s)"

end
