(* ===== verification/Daemon_Props.thy ===== *)
theory Daemon_Props
  imports Shared_Queue_Props Worker Listener
begin

text \<open>
  The daemon as a whole: the posting worker and the clients' requests act on one shared queue in
  any order. Both rely on the queue's contract only; its interpretation gives the invariants that
  hold in every state the daemon can reach.
\<close>

section \<open>Clients of the contract\<close>

text \<open>What connections do to the queue between two steps of the worker.\<close>

inductive client_acts :: "ext \<Rightarrow> wire \<Rightarrow> config \<Rightarrow> u64 \<Rightarrow> shared_queue \<Rightarrow> shared_queue \<Rightarrow> bool"
  for X W cfg where
  dispatch: "dispatch_request_with_error_kind X W cfg sample t req s = Some (r, s') \<Longrightarrow> client_acts X W cfg t s s'"
| lookup: "observe_await_state X cfg i cursor t s = (v, s') \<Longrightarrow> client_acts X W cfg t s s'"

context queue_contract
begin

lemma dispatch_keeps:
  assumes inv: "Inv s" and run: "dispatch_request_with_error_kind X W cfg sample now req s = Some (r, s')"
  shows "Inv s'"
proof (cases req)
  case (Put c imm)
  then show ?thesis using run put [OF inv]
    by (auto simp: dispatch_request_with_error_kind_def split: option.splits sum.splits)
next
  case ListReq
  obtain l s1 where l: "sq_list X cfg now s = (l, s1)" by fastforce
  then have "s' = s1" using run ListReq by (auto simp: dispatch_request_with_error_kind_def split: sum.splits)
  then show ?thesis using list [OF inv l] by simp
next
  case (Hist lim cursor)
  let ?pos = "map_option (\<lambda>c. \<lparr>hp_offset = hc_offset c, hp_end_offset = hc_end_offset c\<rparr>) cursor"
  obtain h s1 where h: "sq_history_page X lim ?pos s = (h, s1)" by fastforce
  then have "s' = s1" using run Hist by (auto simp: dispatch_request_with_error_kind_def split: sum.splits)
  then show ?thesis using history_page [OF inv h] by simp
qed (use run inv bump [OF inv] bust [OF inv] del [OF inv]
     in \<open>auto simp: dispatch_request_with_error_kind_def split: prod.splits\<close>)

lemma client_keeps: "client_acts X W cfg t s s' \<Longrightarrow> Inv s \<Longrightarrow> Inv s'"
  by (induction rule: client_acts.induct) (auto intro: dispatch_keeps observe)

lemma settle_keeps:
  assumes inv: "Inv s" and run: "settle X cfg now e client answer s = (n, s')"
  shows "Inv s'"
proof (cases answer)
  case (Inr url)
  then show ?thesis using run complete [OF inv] by (auto simp: settle_def split: prod.splits sum.splits)
next
  case (Inl er)
  obtain q s1 where q: "sq_record_failure X now e (tc_hash client) (post_error_text er) s = (q, s1)" by fastforce
  note inv1 = failure [OF inv q]
  then show ?thesis using run Inl q release [OF inv1]
    by (auto simp: settle_def split: option.splits prod.splits sum.splits)
qed

lemma worker_iteration_keeps:
  assumes inv: "Inv s" and run: "worker_iteration X cfg clients post now later s = (n, s')"
  shows "Inv s'"
proof -
  obtain d s1 where d: "sq_claim_next_due X cfg now s = (d, s1)" by fastforce
  note inv1 = claim [OF inv d]
  obtain h s2 where h: "sq_last_token_hash X s1 = (h, s2)" by fastforce
  note inv2 = last_token [OF inv1 h]
  show ?thesis
    using run d h inv1 inv2 settle_keeps [OF inv2]
    by (auto simp: worker_iteration_def Let_def split: sum.splits option.splits prod.splits if_splits)
qed

lemma worker_step_keeps:
  assumes "worker_step X cfg horizon clients post others st st'" "Inv (snd (snd st))"
    and "\<And>t s s'. others t s s' \<Longrightarrow> Inv s \<Longrightarrow> Inv s'"
  shows "Inv (snd (snd st'))"
  using assms
proof (induction rule: worker_step.induct)
  case (start s e s' t)
  then show ?case using recover by (auto simp: start_worker_def split: if_splits prod.splits sum.splits)
next
  case (iterate t t' s n s')
  then show ?case using worker_iteration_keeps by simp
qed (use signal in auto)

lemma daemon_keeps:
  assumes "(worker_step X cfg horizon clients post (client_acts X W cfg))\<^sup>*\<^sup>* st st'" "Inv (snd (snd st))"
  shows "Inv (snd (snd st'))"
  using assms by (induction rule: rtranclp_induct) (auto intro: worker_step_keeps client_keeps)

end

section \<open>A running daemon\<close>

text \<open>The states a daemon reaches that opens its queue on the disk \<open>w\<close>: the worker starts, and
  from then on the worker, the connections and the clock take turns in any order.\<close>

definition daemon_reaches ::
  "ext \<Rightarrow> wire \<Rightarrow> config \<Rightarrow> u64 \<Rightarrow> token_client list
     \<Rightarrow> (u64 \<Rightarrow> token_client \<Rightarrow> comment_request \<Rightarrow> post_comment_error + string)
     \<Rightarrow> world \<Rightarrow> u64 \<times> worker_phase \<times> shared_queue \<Rightarrow> bool" where
  "daemon_reaches X W cfg horizon clients post w st \<longleftrightarrow>
     (\<exists>s0 w0 t0. open_queue X w = (Inr s0, w0)
        \<and> (worker_step X cfg horizon clients post (client_acts X W cfg))\<^sup>*\<^sup>* (t0, Starting, s0) st)"


lemma daemon_inv:
  assumes "store_laws X" "disk_ok X w" "daemon_reaches X W cfg horizon clients post w (t, ph, s)"
  shows "queue_inv X cfg s"
proof -
  obtain s0 w0 t0 where o1: "open_queue X w = (Inr s0, w0)"
    and steps: "(worker_step X cfg horizon clients post (client_acts X W cfg))\<^sup>*\<^sup>* (t0, Starting, s0) (t, ph, s)"
    using assms(3) by (auto simp: daemon_reaches_def)
  show ?thesis using shared.daemon_keeps [OF steps] open_queue_inv [OF assms(1,2) o1] by simp
qed

text \<open>A daemon on the sample queue, once its worker has started.\<close>

lemma sample_disk_ok: "disk_ok ref_ext sample_world"
  using sample_inv by (simp add: disk_ok_def node_at_def path_defs tmp_path_def sample_dirs)

lemma sample_unclaimed: "claim_token sample_entry = None" "incarnation sample_entry \<noteq> []"
  by (auto simp: sample_entry_def ref_uuid_def)

lemma sample_opened: "\<exists>s0 w0. open_queue ref_ext sample_world = (Inr s0, w0)"
proof -
  let ?w = sample_world
  note ew = entries_with_usage_inv [OF sample_quiet sample_inv] and es = entries_inv [OF sample_quiet sample_inv]
  have none: "node_at ?w (d, n) = None" if "d \<noteq> EntriesDir" for d n using that by (simp add: node_at_def sample_dirs)
  then have rec: "reconcile_completion ref_ext ?w = (Inr (), ?w)"
    by (simp add: reconcile_completion_def run_simps path_defs fs_read_to_string_def not_found_def)
  have budget: "sat_add (bytes (usage_of ref_ext ?w)) (headroom_bytes (usage_of ref_ext ?w)) \<le> MAX_QUEUE_BYTES"
    using store_invD(5) [OF sample_inv] by (auto simp: within_budget_def usage_of_def sat_add_def)
  have claims: "reclaim_claims ref_ext ?w = (Inr (), ?w)"
    using es reclaim_loop_settled [of "[sample_entry]" ref_ext ?w] sample_unclaimed
    by (simp add: reclaim_claims_def and_then_def sample_pending del: reclaim_loop.simps)
  have "await_deletion_path (ident sample_entry) = ok (AwaitDeletionsDir, ident sample_entry)"
    using sample_id by (simp add: await_deletion_path_def)
  then have marks: "reconcile_await_deletions ref_ext ?w = (Inr (), ?w)"
    using es none by (simp add: reconcile_await_deletions_def run_simps sample_pending and_then_ok not_found_def)
  have "open_store ref_ext ?w = (Inr (), ?w)"
    using rec budget claims marks ew
    by (simp add: open_store_def run_simps validate_existing_limits_def ensure_queue_bytes_def)
  then show ?thesis using ew by (simp add: open_queue_def queue_metrics_snapshot_def run_simps)
qed

definition sample_config :: config where
  "sample_config = default_config (\<lambda>_. None)"

definition sample_clients :: "token_client list" where
  "sample_clients = [\<lparr>tc_name = ''a'', tc_hash = ''00''\<rparr>, \<lparr>tc_name = ''b'', tc_hash = ''ff''\<rparr>]"

definition sample_post :: "u64 \<Rightarrow> token_client \<Rightarrow> comment_request \<Rightarrow> post_comment_error + string" where
  "sample_post t client req = (if t < 100 then Inl PostTimeout else Inr ''https://example.org/1'')"

abbreviation sample_reaches :: "u64 \<times> worker_phase \<times> shared_queue \<Rightarrow> bool" where
  "sample_reaches \<equiv> daemon_reaches ref_ext ref_wire sample_config 1000 sample_clients sample_post sample_world"

lemma sample_daemon: "\<exists>ph s. sample_reaches (7, ph, s)"
proof -
  obtain s0 w0 where o1: "open_queue ref_ext sample_world = (Inr s0, w0)" using sample_opened by blast
  obtain e s where "start_worker ref_ext sample_clients s0 = (e, s)" by fastforce
  from worker_step.start [OF this] o1 show ?thesis unfolding daemon_reaches_def by blast
qed

section \<open>Properties\<close>





text \<open>C12. A lookup cannot be starved by finitely many changes: whatever requests and worker
  iterations run in its unlocked intervals, if from some interval on nothing runs, it returns.\<close>

theorem await_lookup_returns:
  assumes "store_laws X" "disk_ok X w" "daemon_reaches X W cfg horizon clients post w (t, ph, s)"
    and "\<forall>m q. (worker_step X cfg horizon clients post (client_acts X W cfg))\<^sup>*\<^sup>* (t1 m, Ready, q) (t2 m, ph' m, interfere m q)"
    and "\<forall>m \<ge> N. interfere m = id"
  shows "\<exists>r s'. resolve_await X cfg interfere clock i token s = Some (r, s')"
proof -
  have "\<forall>m q. queue_inv X cfg q \<longrightarrow> queue_inv X cfg (interfere m q)"
    using shared.daemon_keeps assms(4) by fastforce
  from resolve_await_returns [OF this assms(5) daemon_inv [OF assms(1-3)], of clock i token 0] show ?thesis
    by (auto simp: resolve_await_def)
qed

theorem await_lookup_returns_witness:
  "\<exists>ph s r s'. sample_reaches (7, ph, s)
     \<and> resolve_await ref_ext sample_config (\<lambda>m. if m = 0 then (\<lambda>q. snd (sq_bump ref_ext ''0000abcd'' q)) else id)
         (\<lambda>_. 50) ''0000abcd'' None s = Some (r, s')"
proof -
  let ?i = "\<lambda>m :: nat. if m = 0 then (\<lambda>q. snd (sq_bump ref_ext ''0000abcd'' q)) else id"
  obtain ph s where s: "sample_reaches (7, ph, s)" using sample_daemon by blast
  let ?step = "worker_step ref_ext sample_config 1000 sample_clients sample_post (client_acts ref_ext ref_wire sample_config)"
  have "dispatch_request_with_error_kind ref_ext ref_wire sample_config id 0 (Bump ''0000abcd'') q
      = Some (map_store_response (fst (sq_bump ref_ext ''0000abcd'' q)), snd (sq_bump ref_ext ''0000abcd'' q))" for q
    by (simp add: dispatch_request_with_error_kind_def split_beta)
  then have "?step (0, Ready, q) (0, Ready, snd (sq_bump ref_ext ''0000abcd'' q))" for q
    by (blast intro: worker_step.others_act client_acts.dispatch)
  then have "\<forall>m q. ?step\<^sup>*\<^sup>* (0, Ready, q) (0, Ready, ?i m q)" by auto
  then show ?thesis
    using await_lookup_returns [OF ref_store_laws sample_disk_ok s, of "\<lambda>_. 0" "\<lambda>_. 0" "\<lambda>_. Ready" ?i 1 "\<lambda>_. 50" "''0000abcd''" None] s
    by auto
qed

end
