(* ===== verification/Worker_Props.thy ===== *)
theory Worker_Props
  imports Daemon_Props
begin

text \<open>
  The posting worker: which entry and which token an iteration uses, and what it leaves behind
  when the post succeeds and when it fails.
\<close>

section \<open>Choosing a token\<close>

lemma position_nth:
  assumes "distinct hs" "i < length hs"
  shows "position (\<lambda>t. t = hs ! i) hs = Some i"
  using assms
proof (induction hs arbitrary: i)
  case (Cons h hs)
  then show ?case by (cases i) (auto simp: nth_eq_iff_index_eq)
qed simp

lemma position_range: "position P xs = Some i \<Longrightarrow> i < length xs"
  by (induction xs arbitrary: i) (auto split: if_splits option.splits)

lemma inj_on_mod_shift: "inj_on (\<lambda>k. (i + k) mod n) {0..<n :: nat}"
proof (rule linorder_inj_onI)
  fix a b
  assume lt: "a < b" and ab: "a \<in> {0..<n}" "b \<in> {0..<n}"
  have "\<not> n dvd (i + b) - (i + a)" using lt ab by (intro nat_dvd_not_less) auto
  then show "(i + a) mod n \<noteq> (i + b) mod n" using lt mod_eq_dvd_iff_nat [of "i + a" "i + b" n] by auto
qed auto

lemma next_token_index_range: "hs \<noteq> [] \<Longrightarrow> next_token_index hs h < length hs"
  by (auto simp: next_token_index_def split: option.splits)

text \<open>The token of the last record of the log.\<close>

definition last_token :: "ext \<Rightarrow> string \<Rightarrow> string option" where
  "last_token X bs = (if log_records X bs = [] then None else Some (token_hash (last (log_records X bs))))"

lemma drop_last: "xs \<noteq> [] \<Longrightarrow> drop (length xs - 1) xs = [last xs]"
  by (induction xs) (auto simp: drop_Cons split: nat.splits)

lemma sq_last_token_hash_spec:
  assumes w: "quiet (disk s)" and node: "node_at (disk s) history_path \<noteq> Some Special"
    and same: "same_both_ways X (bytes_at (disk s) history_path)"
  shows "sq_last_token_hash X s = (Inr (last_token X (bytes_at (disk s) history_path)), s)"
proof (cases "node_at (disk s) history_path")
  case None
  then have "read_page X None (Some 1) 1 (disk s) = (Inr empty_page, disk s)"
    using open_history_snapshot_missing [OF w None] by (simp add: read_page_def run_simps)
  then show ?thesis using None
    by (simp add: sq_last_token_hash_def with_store_def with_state_def publish_def history_page_of_def run_simps
        is_state_mutation_def last_token_def bytes_at_def empty_page_def)
next
  case (Some n)
  then obtain bs where n: "n = Regular bs" using node by (cases n) auto
  then have bs: "bytes_at (disk s) history_path = bs" using Some by (simp add: bytes_at_def)
  have node: "node_at (disk s) history_path = Some (Regular bs)" using Some n by simp
  obtain page where page: "read_page X None (Some 1) 1 (disk s) = (Inr page, disk s)"
      "map record_of (records page @ (case next_pos page of None \<Rightarrow> []
          | Some q \<Rightarrow> history_from X bs (hp_offset q) (hp_end_offset q)))
        = drop (length (log_records X bs) - 1) (log_records X bs)"
      "length (records page) \<le> 1"
      "case next_pos page of None \<Rightarrow> True
       | Some q \<Rightarrow> valid_position bs q \<and> hp_end_offset q = length bs \<and> length (records page) = 1"
    using read_page_recent [OF w node same [unfolded bs], of 1 1] by auto
  have "(if records page = [] then None else Some (token_hash (record_of (last (records page))))) = last_token X bs"
  proof (cases "log_records X bs = []")
    case True
    then show ?thesis using page(2) by (simp add: last_token_def)
  next
    case False
    then have all: "map record_of (records page @ (case next_pos page of None \<Rightarrow> []
          | Some q \<Rightarrow> history_from X bs (hp_offset q) (hp_end_offset q))) = [last (log_records X bs)]"
      using page(2) drop_last by simp
    then obtain r where "records page = [r]" "record_of r = last (log_records X bs)"
      using page(3,4) by (cases "records page"; cases "next_pos page") auto
    then show ?thesis using False by (simp add: last_token_def)
  qed
  then show ?thesis using page(1) bs
    by (simp add: sq_last_token_hash_def with_store_def with_state_def publish_def history_page_of_def run_simps
        is_state_mutation_def)
qed

section \<open>Taking the due entry\<close>

text \<open>The entry \<open>e\<close> may be posted now: it heads the queue, nothing is claimed, and its projected delay
  is zero.\<close>

definition due_now :: "ext \<Rightarrow> config \<Rightarrow> u64 \<Rightarrow> world \<Rightarrow> stored_entry \<Rightarrow> bool" where
  "due_now X cfg now w e \<longleftrightarrow>
     (\<forall>x \<in> stored X w. claim_token x = None)
     \<and> (\<exists>act rest. activity w = Inr act
          \<and> projected_schedule (pending_list X w) act (cooldown_period_seconds cfg) now = (e, 0) # rest)"

abbreviation claimed_as :: "ext \<Rightarrow> world \<Rightarrow> stored_entry \<Rightarrow> stored_entry" where
  "claimed_as X w e \<equiv> e\<lparr>claim_token := Some (new_uuid X (uuids_used w))\<rparr>"

text \<open>The state of the disk the worker needs to finish a post without an error: the files it writes
  are regular or missing, no completion is left over, and the log is not ambiguous.\<close>

definition worker_ready :: "ext \<Rightarrow> world \<Rightarrow> bool" where
  "worker_ready X w \<longleftrightarrow>
     disk_ok X w \<and> (\<forall>e \<in> stored X w. marker_ok X (ident e) w) \<and> node_at w completion_path = None
     \<and> node_at w (tmp_path completion_path) \<noteq> Some Special \<and> node_at w (tmp_path last_attempt_path) \<noteq> Some Special
     \<and> node_at w history_path \<noteq> Some Special \<and> no_edge_line (bytes_at w history_path)"

lemma gauges_disk:
  assumes "quiet (disk s)" "store_inv X (disk s)"
  shows "disk (update_queue_gauges X s) = disk s" "await_schedule (update_queue_gauges X s) = await_schedule s"
  using entries_with_usage_inv [OF assms]
  by (simp_all add: update_queue_gauges_def queue_metrics_snapshot_def with_store_def with_state_def publish_def run_simps
      is_state_mutation_def)

lemma due_now_stored:
  assumes "due_now X cfg now w e" "store_inv X w"
  shows "e \<in> stored X w" "claim_token e = None"
proof -
  show "e \<in> stored X w"
    using assms projected_schedule_head set_pending_list [OF store_invD(1) [OF assms(2)], of X]
    by (fastforce simp: due_now_def dest: hd_in_set)
  then show "claim_token e = None" using assms(1) by (simp add: due_now_def)
qed

lemma claim_due:
  assumes laws: "store_laws X" and w: "quiet (disk s)" and inv: "store_inv X (disk s)" and due: "due_now X cfg now (disk s) e"
  obtains s1 v where "sq_claim_next_due X cfg now s = (Inr (Some (claimed_as X (disk s) e, 0)), s1)"
    "disk s1 = written (entry_file (ident e)) v (drawn (disk s))" "store_inv X (disk s1)"
    "stored X (disk s1) = insert (claimed_as X (disk s) e) (stored X (disk s) - {e})"
proof -
  let ?w = "disk s" and ?c = "claimed_as X (disk s) e" and ?cool = "cooldown_period_seconds cfg"
  obtain act rest where a: "activity ?w = Inr act" "projected_schedule (pending_list X ?w) act ?cool now = (e, 0) # rest"
    and free: "\<not> (\<exists>x \<in> stored X ?w. claim_token x \<noteq> None)" using due by (auto simp: due_now_def)
  have e: "e \<in> stored X ?w" by (rule due_now_stored [OF due inv])
  have "typed_entry X e" using e store_invD(3) [OF inv] by (auto simp: canonical_def)
  then obtain v where v: "write_entry X ?c (drawn ?w) = (Inr (), written (entry_file (ident e)) v (drawn ?w))"
      "store_inv X (written (entry_file (ident e)) v (drawn ?w))"
      "stored X (written (entry_file (ident e)) v (drawn ?w)) = insert ?c (stored X ?w - {e})"
    using write_revision_drawn [OF laws w inv e claim_revises [OF store_lawsD(3) [OF laws]]] by blast
  let ?w1 = "written (entry_file (ident e)) v (drawn ?w)"
  have "next_due X ?cool now ?w = (Inr (Some (e, 0)), ?w)"
    using next_due_quiet [OF w inv, of ?cool now] a free by simp
  then have run: "claim_next_due X ?cool now ?w = (Inr (Some (?c, 0)), ?w1)"
    using v(1) by (simp add: claim_next_due_def run_simps Let_def drawn_def)
  let ?s1 = "s\<lparr>disk := ?w1, await_schedule := None, state_version := state_version s + 1\<rparr>"
  have "sq_claim_next_due X cfg now s = (Inr (Some (?c, 0)), update_queue_gauges X ?s1)"
    using run by (simp add: sq_claim_next_due_def with_store_def with_state_def publish_def is_state_mutation_def)
  moreover have "disk (update_queue_gauges X ?s1) = ?w1" using gauges_disk(1) [of ?s1 X] v(2) w by simp
  ultimately show ?thesis using that [of "update_queue_gauges X ?s1" v] v by simp
qed

lemma claimed_ready:
  assumes ready: "worker_ready X w" and w1: "w1 = written (entry_file (ident e)) v (drawn w)" "store_inv X w1"
    "stored X w1 = insert (claimed_as X w e) (stored X w - {e})" and e: "e \<in> stored X w"
  shows "ready_to_complete X (claimed_as X w e) w1" "quiet w1" "bytes_at w1 history_path = bytes_at w history_path"
    "d \<noteq> EntriesDir \<Longrightarrow> node_at w1 (d, n) = node_at w (d, n)" "uuids_used w1 = Suc (uuids_used w)"
proof -
  have q: "quiet w" using ready by (simp add: worker_ready_def disk_ok_def)
  then show "quiet w1" by (simp add: w1)
  have n: "node_at w1 (d, n) = node_at w (d, n)" if "d \<noteq> EntriesDir" for d n
    using that by (simp add: w1 node_at_def written_other_dir drawn_def)
  then show "d \<noteq> EntriesDir \<Longrightarrow> node_at w1 (d, n) = node_at w (d, n)" .
  have keep: "node_at w1 p = node_at w p" if "fst p = QueueDir" for p using n [of "fst p" "snd p"] that by (cases p) simp
  show b: "bytes_at w1 history_path = bytes_at w history_path" using keep [of history_path] by (simp add: bytes_at_def)
  show "uuids_used w1 = Suc (uuids_used w)" by (simp add: w1 written_def set_node_def del_node_def drawn_def)
  have "honest w1" using \<open>quiet w1\<close> by (simp add: honest_def)
  moreover have "marker_ok X (ident e) w1" using ready e n [of AwaitDeletionsDir] by (simp add: worker_ready_def marker_ok_def)
  ultimately show "ready_to_complete X (claimed_as X w e) w1"
    using ready w1(2,3) keep b by (simp add: ready_to_complete_def worker_ready_def disk_ok_def)
qed

section \<open>After the post\<close>

lemma claimed_pending:
  assumes "store_inv X w" "store_inv X w1" "stored X w1 = insert (claimed_as X w e) (stored X w - {e})" "e \<in> stored X w"
  shows "pending_list X w1 = map (\<lambda>x. if x = e then claimed_as X w e else x) (pending_list X w)"
  using assms store_invD(1) by (intro pending_list_replaced) (auto simp: entry_key_def)

lemma filter_replaced: "\<not> P e \<Longrightarrow> \<not> P c \<Longrightarrow> filter P (map (\<lambda>x. if x = e then c else x) xs) = filter P xs"
  by (induction xs) auto

lemma due_now_head:
  assumes "due_now X cfg now w e" "store_inv X w"
  shows "filter (\<lambda>x. ident x \<noteq> ident e) (pending_list X w) = tl (pending_list X w)"
proof -
  obtain act rest where "projected_schedule (pending_list X w) act (cooldown_period_seconds cfg) now = (e, 0) # rest"
    using assms(1) by (auto simp: due_now_def)
  from projected_schedule_head [OF this] obtain es where p: "pending_list X w = e # es"
    by (cases "pending_list X w") auto
  then have "\<forall>x \<in> set es. ident x \<noteq> ident e"
    using distinct_pending_list(1) [OF store_invD(1) [OF assms(2)], of X] by (force simp: image_iff)
  then show ?thesis using p by simp
qed

lemma sq_complete_finishes:
  assumes codec: "history_codec X" "completion_codec X" and ready: "ready_to_complete X e (disk s)" and w: "quiet (disk s)"
    and h: "history_to_vec X (post_record X e th t (Some url) (uuids_used (disk s))) = Inr v" "length v < MAX_HISTORY_LINE_BYTES"
    and tmp: "node_at (disk s) (tmp_path completion_path) \<noteq> Some Special" and t: "t \<le> u64_max"
  shows "\<exists>s'. sq_complete X t e th url s = (Inr (), s') \<and> store_inv X (disk s')
    \<and> pending_list X (disk s') = filter (\<lambda>x. ident x \<noteq> ident e) (pending_list X (disk s))
    \<and> log_records X (bytes_at (disk s') history_path)
        = log_records X (bytes_at (disk s) history_path) @ [post_record X e th t (Some url) (uuids_used (disk s))]
    \<and> last_post (disk s') = (Inr (Some t), disk s')"
proof -
  have inv: "store_inv X (disk s)" "no_edge_line (bytes_at (disk s) history_path)" "disk_ok X (disk s)"
    using ready w by (simp_all add: ready_to_complete_def disk_ok_def)
  obtain w1 where run: "complete_claim_with_token X e th t (Some url) (disk s) = (Inr (), w1)"
    using complete_claim_succeeds [OF codec ready w h tmp] by blast
  have fin: "finished X e (post_record X e th t (Some url) (uuids_used (disk s))) (bytes_at (disk s) history_path)
      (stored X (disk s)) t w1"
    using complete_claim_outcome [OF codec ready refl h run] by metis
  have q: "quiet w1" using sound_opD(1) [OF complete_sound inv(3) run] by (simp add: disk_ok_def)
  note fm = finished_meaning [OF fin inv(1) t q inv(2)]
  let ?s = "s\<lparr>disk := w1, await_schedule := None, state_version := state_version s + 1\<rparr>"
  have "sq_complete X t e th url s = (Inr (), update_queue_gauges X ?s)"
    using run by (simp add: sq_complete_def with_store_def with_state_def publish_def is_state_mutation_def)
  moreover have "disk (update_queue_gauges X ?s) = w1" using gauges_disk(1) [of ?s X] fm(1) q by simp
  ultimately show ?thesis using fm by auto
qed

definition failure_record :: "ext \<Rightarrow> stored_entry \<Rightarrow> string \<Rightarrow> u64 \<Rightarrow> string \<Rightarrow> nat \<Rightarrow> history_record" where
  "failure_record X e th t m n =
     \<lparr>attempt_id = new_uuid X n, hr_id = ident e, posted_at = t, success = False, hr_error = Some (bounded_error m),
      token_hash = th, comment_url = None, hr_incarnation = incarnation e, hr_request = request e\<rparr>"

lemma sq_record_failure_appends:
  assumes codec: "history_codec X" and w: "quiet (disk s)" and node: "node_at (disk s) history_path \<noteq> Some Special"
    and edge: "no_edge_line (bytes_at (disk s) history_path)"
    and h: "history_to_vec X (failure_record X e th t m (uuids_used (disk s))) = Inr v" "length v < MAX_HISTORY_LINE_BYTES"
  shows "\<exists>s'. sq_record_failure X t e th m s = (Inr (), s') \<and> quiet (disk s')
    \<and> log_records X (bytes_at (disk s') history_path)
        = log_records X (bytes_at (disk s) history_path) @ [failure_record X e th t m (uuids_used (disk s))]
    \<and> (\<forall>p. p \<noteq> history_path \<longrightarrow> node_at (disk s') p = node_at (disk s) p)
    \<and> dirs (disk s') EntriesDir = dirs (disk s) EntriesDir \<and> (wf_dirs (disk s) \<longrightarrow> wf_dirs (disk s'))"
proof -
  let ?w = "drawn (disk s)" and ?h = "failure_record X e th t m (uuids_used (disk s))"
  have b: "bytes_at ?w history_path = bytes_at (disk s) history_path" by (simp add: bytes_at_def)
  obtain w1 where run: "history_append X ?h ?w = (Inr (), w1)"
    using history_append_quiet [of ?w X ?h v] w node h(1) by auto
  have log: "log_records X (bytes_at w1 history_path) = log_records X (bytes_at (disk s) history_path) @ [?h]"
    using history_append_records [OF codec h run] edge by (simp add: b)
  have rec: "(history_failure X e th t m :: history_record store) (disk s) = (Inr ?h, ?w)"
    by (simp add: history_failure_def failure_record_def run_simps drawn_def)
  let ?s = "s\<lparr>disk := w1\<rparr>"
  have "sq_record_failure X t e th m s = (Inr (), ?s)"
    using rec run by (simp add: sq_record_failure_def sq_append_history_def append_history_def with_store_def with_state_def
        publish_def is_state_mutation_def)
  moreover have "quiet w1" using touchesD(4) [OF history_append_touches run] w by simp
  moreover have "\<forall>p. p \<noteq> history_path \<longrightarrow> node_at w1 p = node_at (disk s) p"
    using touchesD(1) [OF history_append_touches run] by (simp add: node_at_def drawn_def)
  moreover have "dirs w1 EntriesDir = dirs (disk s) EntriesDir"
    using touchesD(2) [OF history_append_touches run, of EntriesDir] by (simp add: path_defs drawn_def)
  moreover have "wf_dirs (disk s) \<longrightarrow> wf_dirs w1"
    using touchesD(3) [OF history_append_touches run] by (simp add: wf_dirs_def drawn_def)
  ultimately show ?thesis using log by (intro exI [of _ ?s]) simp
qed

lemma sq_release_restores:
  fixes t :: nat
  assumes laws: "store_laws X" and w: "quiet (disk s)" and inv: "store_inv X (disk s)"
    and st: "stored X (disk s) = insert (e\<lparr>claim_token := Some tok\<rparr>) (S - {e})" and e: "e \<in> S" "claim_token e = None"
    and uniq: "\<forall>x \<in> S. ident x = ident e \<longrightarrow> x = e"
    and latest: "marker_value LastAttempt (node_at (disk s) last_attempt_path) = Inr latest"
    and tmp: "node_at (disk s) (tmp_path last_attempt_path) \<noteq> Some Special" and t: "t \<le> u64_max"
  shows "\<exists>s'. sq_release_claim X t (ident e) tok s = (Inr (), s') \<and> store_inv X (disk s') \<and> stored X (disk s') = S
    \<and> last_attempt (disk s') = (Inr (Some (max (case latest of None \<Rightarrow> 0 | Some n \<Rightarrow> n) t)), disk s')
    \<and> bytes_at (disk s') history_path = bytes_at (disk s) history_path"
proof -
  let ?c = "e\<lparr>claim_token := Some tok\<rparr>" and ?n = "max (case latest of None \<Rightarrow> 0 | Some n \<Rightarrow> n) t"
  have c: "?c \<in> stored X (disk s)" using st by simp
  obtain v where v: "release_claim X (ident e) tok t (disk s)
        = (Inr (), written (entry_file (ident e)) v (written last_attempt_path (show_nat ?n) (disk s)))"
      "store_inv X (written (entry_file (ident e)) v (written last_attempt_path (show_nat ?n) (disk s)))"
      "stored X (written (entry_file (ident e)) v (written last_attempt_path (show_nat ?n) (disk s)))
        = insert (?c\<lparr>claim_token := None\<rparr>) (stored X (disk s) - {?c})"
    using release_claim_own [OF laws w inv c _ latest tmp, of tok t] by auto
  let ?w = "written (entry_file (ident e)) v (written last_attempt_path (show_nat ?n) (disk s))"
  have "claim_token ?c \<noteq> claim_token e" using e(2) by simp
  then have ne: "?c \<noteq> e" by metis
  then have "?c \<notin> S" using uniq by (auto dest!: bspec)
  moreover have "?c\<lparr>claim_token := None\<rparr> = e" using e(2) by (cases e) simp
  ultimately have S: "stored X ?w = S" using v(3) st e(1) by auto
  have n: "?n \<le> u64_max" using t latest by (cases latest) (auto dest: marker_value_bound)
  have node: "node_at ?w last_attempt_path = Some (Regular (show_nat ?n))" "bytes_at ?w history_path = bytes_at (disk s) history_path"
    using paths_apart by (simp_all add: written_def bytes_at_def entry_file_def path_defs tmp_path_def)
  have "last_attempt ?w = (Inr (Some ?n), ?w)" using last_attempt_quiet [of ?w] w node(1) n by simp
  let ?s = "s\<lparr>disk := ?w, await_schedule := None, state_version := state_version s + 1\<rparr>"
  have "sq_release_claim X t (ident e) tok s = (Inr (), update_queue_gauges X ?s)"
    using v(1) by (simp add: sq_release_claim_def with_store_def with_state_def publish_def is_state_mutation_def)
  moreover have "disk (update_queue_gauges X ?s) = ?w" using gauges_disk(1) [of ?s X] v(2) w by simp
  ultimately show ?thesis using v(2) S node(2) \<open>last_attempt ?w = _\<close> by auto
qed

text \<open>The client the worker turns to next.\<close>

definition next_client :: "ext \<Rightarrow> token_client list \<Rightarrow> world \<Rightarrow> token_client" where
  "next_client X clients w =
     clients ! next_token_index (map tc_hash clients) (last_token X (bytes_at w history_path))"

text \<open>An iteration on a due entry settles the answer of that client for the claimed entry.\<close>

lemma worker_iteration_due:
  assumes laws: "store_laws X" and codec: "history_codec X" and ready: "worker_ready X (disk s)"
    and due: "due_now X cfg now (disk s) e" and clients: "clients \<noteq> []"
  obtains s1 v where "worker_iteration X cfg clients post now later s
      = settle X cfg later (claimed_as X (disk s) e) (next_client X clients (disk s))
          (post (next_client X clients (disk s)) (request e)) s1"
    "disk s1 = written (entry_file (ident e)) v (drawn (disk s))" "store_inv X (disk s1)"
    "stored X (disk s1) = insert (claimed_as X (disk s) e) (stored X (disk s) - {e})"
proof -
  have w: "quiet (disk s)" "store_inv X (disk s)" using ready by (simp_all add: worker_ready_def disk_ok_def)
  obtain s1 v where s1: "sq_claim_next_due X cfg now s = (Inr (Some (claimed_as X (disk s) e, 0)), s1)"
      "disk s1 = written (entry_file (ident e)) v (drawn (disk s))" "store_inv X (disk s1)"
      "stored X (disk s1) = insert (claimed_as X (disk s) e) (stored X (disk s) - {e})"
    using claim_due [OF laws w due] by blast
  note r1 = claimed_ready [OF ready s1(2,3,4) due_now_stored(1) [OF due w(2)]]
  have "same_both_ways X (bytes_at (disk s1) history_path)" "node_at (disk s1) history_path \<noteq> Some Special"
    using r1(1) no_edge_line_same [OF history_codecD(1) [OF codec]] by (simp_all add: ready_to_complete_def)
  then have h: "sq_last_token_hash X s1 = (Inr (last_token X (bytes_at (disk s) history_path)), s1)"
    using sq_last_token_hash_spec [OF r1(2)] r1(3) by simp
  have range: "next_token_index (map tc_hash clients) th < length clients" for th
    using next_token_index_range [of "map tc_hash clients" th] clients by simp
  have "worker_iteration X cfg clients post now later s
      = settle X cfg later (claimed_as X (disk s) e) (next_client X clients (disk s))
          (post (next_client X clients (disk s)) (request e)) s1"
    using s1(1) h range by (simp add: worker_iteration_def Let_def next_client_def)
  then show ?thesis using that s1(2-4) by blast
qed

text \<open>A queue with one due entry.\<close>

definition sample_queue :: shared_queue where
  "sample_queue = \<lparr>disk = sample_world, await_schedule = None, state_version = 0, permit = False, gauges = (1, 0)\<rparr>"

lemma sample_queue_simps [simp]: "disk sample_queue = sample_world" "sample_clients \<noteq> []"
  by (simp_all add: sample_queue_def sample_clients_def)

lemma sample_worker_ready: "worker_ready ref_ext sample_world"
  using sample_disk_ok
  by (simp add: worker_ready_def marker_ok_def node_at_def sample_dirs marker_tmp path_defs bytes_at_def no_edge_line_def)

lemma sample_due: "due_now ref_ext sample_config 500 sample_world sample_entry"
  by (simp add: due_now_def sample_stored sample_pending sample_activity)
    (simp add: sample_entry_def sample_config_def default_config_def limits Let_def)

lemma sample_next_client: "next_client ref_ext sample_clients sample_world = \<lparr>tc_name = ''a'', tc_hash = ''00''\<rparr>"
  by (simp add: next_client_def last_token_def next_token_index_def sample_clients_def bytes_at_def node_at_def
      sample_dirs path_defs)

lemma sample_uuids: "uuids_used sample_world = 0"
  by (simp add: sample_world_def written_def empty_world_def set_node_def del_node_def)

section \<open>Properties\<close>

text \<open>C3. Posting the due entry: when GitHub accepts it, one iteration of the worker removes exactly that
  entry from the head of the queue, adds one record to the log that names the comment's
  address and the token used, sets the time of the last post, and is ready for the next.\<close>

theorem worker_posts_due_entry:
  assumes laws: "store_laws X" "history_codec X" "completion_codec X" and ready: "worker_ready X (disk s)"
    and due: "due_now X cfg now (disk s) e" and clients: "clients \<noteq> []"
    and client: "client = next_client X clients (disk s)" and answer: "post client (request e) = Inr url"
    and h: "h = post_record X e (tc_hash client) later (Some url) (Suc (uuids_used (disk s)))"
      "history_to_vec X h = Inr v" "length v < MAX_HISTORY_LINE_BYTES" and t: "later \<le> u64_max"
  shows "\<exists>s'. worker_iteration X cfg clients post now later s = (Again, s')
    \<and> pending_list X (disk s') = tl (pending_list X (disk s))
    \<and> log_records X (bytes_at (disk s') history_path) = log_records X (bytes_at (disk s) history_path) @ [h]
    \<and> last_post (disk s') = (Inr (Some later), disk s')"
proof -
  have inv: "store_inv X (disk s)" using ready by (simp add: worker_ready_def disk_ok_def)
  obtain s1 u where it: "worker_iteration X cfg clients post now later s
        = settle X cfg later (claimed_as X (disk s) e) client (Inr url) s1"
      and s1: "disk s1 = written (entry_file (ident e)) u (drawn (disk s))" "store_inv X (disk s1)"
        "stored X (disk s1) = insert (claimed_as X (disk s) e) (stored X (disk s) - {e})"
    using worker_iteration_due [OF laws(1,2) ready due clients, of post later] client answer by metis
  have e: "e \<in> stored X (disk s)" by (rule due_now_stored [OF due inv])
  note r1 = claimed_ready [OF ready s1 e]
  have rec: "post_record X (claimed_as X (disk s) e) (tc_hash client) later (Some url) (uuids_used (disk s1)) = h"
    using r1(5) h(1) by (simp add: post_record_def)
  have tmp: "node_at (disk s1) (tmp_path completion_path) \<noteq> Some Special"
    using ready r1(4) [of QueueDir] by (simp add: worker_ready_def marker_tmp)
  obtain s' where s': "sq_complete X later (claimed_as X (disk s) e) (tc_hash client) url s1 = (Inr (), s')"
      "pending_list X (disk s') = filter (\<lambda>x. ident x \<noteq> ident e) (pending_list X (disk s1))"
      "log_records X (bytes_at (disk s') history_path) = log_records X (bytes_at (disk s) history_path) @ [h]"
      "last_post (disk s') = (Inr (Some later), disk s')"
    using sq_complete_finishes [OF laws(2,3) r1(1,2), of "tc_hash client" later url v] h(2,3) tmp t rec r1(3) by auto
  have "filter (\<lambda>x. ident x \<noteq> ident e) (pending_list X (disk s1)) = filter (\<lambda>x. ident x \<noteq> ident e) (pending_list X (disk s))"
    unfolding claimed_pending [OF inv s1(2,3) e] by (rule filter_replaced) simp_all
  then show ?thesis using it s' due_now_head [OF due inv] by (simp add: settle_def)
qed

theorem worker_posts_due_entry_witness:
  "\<exists>s'. worker_iteration ref_ext sample_config sample_clients (sample_post 200) 500 501 sample_queue = (Again, s')
     \<and> pending_list ref_ext (disk s') = [] \<and> last_post (disk s') = (Inr (Some 501), disk s')"
proof -
  let ?h = "post_record ref_ext sample_entry ''00'' 501 (Some ''https://example.org/1'') (Suc 0)"
  have v: "history_to_vec ref_ext ?h = Inr (enc_history ?h @ ''}'')" by (simp add: ref_ext_def to_doc_def)
  have "length (enc_history ?h @ ''}'') < 1000" by code_simp
  then have short: "length (enc_history ?h @ ''}'') < MAX_HISTORY_LINE_BYTES" by (simp add: limits)
  have "sample_post 200 \<lparr>tc_name = ''a'', tc_hash = ''00''\<rparr> (request sample_entry) = Inr ''https://example.org/1''"
    by (simp add: sample_post_def)
  from worker_posts_due_entry [where s = sample_queue and now = 500 and cfg = sample_config and e = sample_entry
      and clients = sample_clients and post = "sample_post 200" and later = 501, OF ref_store_laws ref_history_codec ref_completion_codec
      _ _ _ sample_next_client [symmetric, folded sample_queue_simps(1)] this _ v short]
  show ?thesis using sample_worker_ready sample_due by (auto simp: sample_uuids sample_pending limits)
qed

text \<open>C13. A failed post loses nothing: when GitHub refuses or does not answer in time, one iteration puts
  the queue back exactly as it was, the claim released, adds one record to the log with the
  reason cut to its bound, moves the time of the last attempt up to now, and waits for the
  cooldown.\<close>

theorem worker_keeps_failed_entry:
  assumes laws: "store_laws X" "history_codec X" and ready: "worker_ready X (disk s)"
    and due: "due_now X cfg now (disk s) e" and clients: "clients \<noteq> []"
    and client: "client = next_client X clients (disk s)" and answer: "post client (request e) = Inl er"
    and h: "h = failure_record X e (tc_hash client) later (post_error_text er) (Suc (uuids_used (disk s)))"
      "history_to_vec X h = Inr v" "length v < MAX_HISTORY_LINE_BYTES" and t: "later \<le> u64_max"
  shows "\<exists>s' k. worker_iteration X cfg clients post now later s = (WaitRetry (cooldown_period_seconds cfg), s')
    \<and> pending_list X (disk s') = pending_list X (disk s)
    \<and> log_records X (bytes_at (disk s') history_path) = log_records X (bytes_at (disk s) history_path) @ [h]
    \<and> last_attempt (disk s') = (Inr (Some k), disk s') \<and> later \<le> k"
proof -
  have inv: "store_inv X (disk s)" using ready by (simp add: worker_ready_def disk_ok_def)
  let ?c = "claimed_as X (disk s) e" and ?tok = "new_uuid X (uuids_used (disk s))"
  obtain s1 u where it: "worker_iteration X cfg clients post now later s = settle X cfg later ?c client (Inl er) s1"
      and s1: "disk s1 = written (entry_file (ident e)) u (drawn (disk s))" "store_inv X (disk s1)"
        "stored X (disk s1) = insert ?c (stored X (disk s) - {e})"
    using worker_iteration_due [OF laws ready due clients, of post later] client answer by metis
  have e: "e \<in> stored X (disk s)" and free: "claim_token e = None" by (rule due_now_stored [OF due inv])+
  note r1 = claimed_ready [OF ready s1 e]
  have rec: "failure_record X ?c (tc_hash client) later (post_error_text er) (uuids_used (disk s1)) = h"
    using r1(5) h(1) by (simp add: failure_record_def)
  have hist: "node_at (disk s1) history_path \<noteq> Some Special" "no_edge_line (bytes_at (disk s1) history_path)"
    using r1(1) by (simp_all add: ready_to_complete_def)
  obtain s2 where s2: "sq_record_failure X later ?c (tc_hash client) (post_error_text er) s1 = (Inr (), s2)" "quiet (disk s2)"
      "log_records X (bytes_at (disk s2) history_path) = log_records X (bytes_at (disk s) history_path) @ [h]"
      "\<forall>p. p \<noteq> history_path \<longrightarrow> node_at (disk s2) p = node_at (disk s1) p"
      "dirs (disk s2) EntriesDir = dirs (disk s1) EntriesDir" "wf_dirs (disk s1) \<longrightarrow> wf_dirs (disk s2)"
    using sq_record_failure_appends [OF laws(2) r1(2) hist, of ?c "tc_hash client" later "post_error_text er" v] h(2,3) rec r1(3)
    by auto
  have inv2: "store_inv X (disk s2)" using store_inv_frame [OF s2(5)] s2(6) s1(2) by blast
  have st2: "stored X (disk s2) = insert ?c (stored X (disk s) - {e})" using stored_dirs [OF s2(5)] s1(3) by simp
  have keep: "node_at (disk s2) p = node_at (disk s) p" if "fst p = QueueDir" "p \<noteq> history_path" for p
    using that s2(4) r1(4) [of "fst p" "snd p"] by (cases p) simp
  have attempt: "last_attempt_path \<noteq> history_path" "tmp_path last_attempt_path \<noteq> history_path"
    "fst last_attempt_path = QueueDir" "fst (tmp_path last_attempt_path) = QueueDir"
    using paths_apart by (auto simp: path_defs tmp_path_def)
  obtain latest where "marker_value LastAttempt (node_at (disk s) last_attempt_path) = Inr latest"
    using due by (cases "marker_value LastAttempt (node_at (disk s) last_attempt_path)")
      (auto simp: due_now_def activity_def split: sum.splits)
  then have latest: "marker_value LastAttempt (node_at (disk s2) last_attempt_path) = Inr latest"
    using keep attempt by simp
  have tmp: "node_at (disk s2) (tmp_path last_attempt_path) \<noteq> Some Special"
    using ready keep attempt by (simp add: worker_ready_def)
  define k where "k = max (case latest of None \<Rightarrow> 0 | Some n \<Rightarrow> n) later"
  obtain s3 where s3: "sq_release_claim X later (ident e) ?tok s2 = (Inr (), s3)" "store_inv X (disk s3)"
      "stored X (disk s3) = stored X (disk s)" "last_attempt (disk s3) = (Inr (Some k), disk s3)"
      "bytes_at (disk s3) history_path = bytes_at (disk s2) history_path"
    using sq_release_restores [OF laws(1) s2(2) inv2 st2 e free _ latest tmp t] stored_same_ident e k_def by blast
  have "pending_list X (disk s3) = pending_list X (disk s)"
    using pending_list_stored s3(2,3) inv store_invD(1) by blast
  moreover have "worker_iteration X cfg clients post now later s = (WaitRetry (cooldown_period_seconds cfg), s3)"
    using it s2(1) s3(1) by (simp add: settle_def)
  ultimately show ?thesis using s3(4,5) s2(3) k_def by auto
qed

theorem worker_keeps_failed_entry_witness:
  "\<exists>s' k. worker_iteration ref_ext sample_config sample_clients (sample_post 7) 500 501 sample_queue = (WaitRetry 960, s')
     \<and> pending_list ref_ext (disk s') = [sample_entry] \<and> last_attempt (disk s') = (Inr (Some k), disk s') \<and> 501 \<le> k"
proof -
  let ?h = "failure_record ref_ext sample_entry ''00'' 501 ''timeout'' (Suc 0)"
  let ?r = "(post_record ref_ext sample_entry ''00'' 501 None (Suc 0))\<lparr>success := False, hr_error := Some ''timeout''\<rparr>"
  have h: "?h = ?r" by (simp add: failure_record_def post_record_def bounded_error_def limits)
  have v: "history_to_vec ref_ext ?h = Inr (enc_history ?h @ ''}'')" by (simp add: ref_ext_def to_doc_def)
  have "length (enc_history ?r @ ''}'') < 1000" by code_simp
  then have short: "length (enc_history ?h @ ''}'') < MAX_HISTORY_LINE_BYTES" unfolding h by (simp add: limits)
  have "sample_post 7 \<lparr>tc_name = ''a'', tc_hash = ''00''\<rparr> (request sample_entry) = Inl PostTimeout"
    by (simp add: sample_post_def)
  from worker_keeps_failed_entry [where s = sample_queue and now = 500 and cfg = sample_config and e = sample_entry
      and clients = sample_clients and post = "sample_post 7" and later = 501, OF ref_store_laws ref_history_codec
      _ _ _ sample_next_client [symmetric, folded sample_queue_simps(1)] this _ v short]
  show ?thesis using sample_worker_ready sample_due
    by (auto simp: sample_uuids sample_pending limits post_error_text_def sample_config_def default_config_def)
qed

text \<open>C32. Tokens take turns: the worker never indexes outside its pool; with distinct tokens it moves on to
  the next one after each recorded attempt, wrapping around, so that any round of as many
  attempts as there are tokens uses every token once; and a token that left the pool makes it
  start over.\<close>

theorem tokens_rotate:
  assumes hs: "distinct hs" "i < length hs"
  defines "used k \<equiv> ((\<lambda>j. next_token_index hs (Some (hs ! j))) ^^ k) i"
  shows "used k = (i + k) mod length hs
    \<and> distinct (map (\<lambda>k. hs ! used k) [0..<length hs]) \<and> set (map (\<lambda>k. hs ! used k) [0..<length hs]) = set hs
    \<and> (\<forall>h. h \<notin> set hs \<longrightarrow> next_token_index hs (Some h) = 0) \<and> next_token_index hs None = 0"
proof -
  let ?n = "length hs"
  have pos: "0 < ?n" using hs(2) by linarith
  have step: "next_token_index hs (Some (hs ! j)) = (j + 1) mod ?n" if "j < ?n" for j
    using position_nth [OF hs(1) that] that by (auto simp: next_token_index_def)
  have used: "used k = (i + k) mod ?n" for k
  proof (induction k)
    case (Suc k)
    then show ?case using step [of "used k"] pos by (simp add: used_def mod_simps)
  qed (use hs(2) in \<open>simp add: used_def\<close>)
  have inj: "inj_on (\<lambda>k. (i + k) mod ?n) {0..<?n}" by (rule inj_on_mod_shift)
  have d: "distinct (map (\<lambda>k. hs ! used k) [0..<?n])"
  proof -
    have "inj_on (\<lambda>k. hs ! used k) {0..<?n}"
    proof (rule inj_onI)
      fix a b
      assume "a \<in> {0..<?n}" "b \<in> {0..<?n}" "hs ! used a = hs ! used b"
      then show "a = b" using inj_onD [OF inj, of a b] nth_eq_iff_index_eq [OF hs(1), of "used a" "used b"] pos by (simp add: used)
    qed
    then show ?thesis by (simp add: distinct_map)
  qed
  have sub: "set (map (\<lambda>k. hs ! used k) [0..<?n]) \<subseteq> set hs" using pos by (auto simp: used)
  have "card (set (map (\<lambda>k. hs ! used k) [0..<?n])) = card (set hs)"
    using distinct_card [OF d] distinct_card [OF hs(1)] by simp
  then have all: "set (map (\<lambda>k. hs ! used k) [0..<?n]) = set hs" using card_subset_eq [OF _ sub] by simp
  have "next_token_index hs (Some h) = 0" if "h \<notin> set hs" for h
  proof -
    have "position (\<lambda>t. t = h) hs = None" using that by (induction hs) auto
    then show ?thesis by (simp add: next_token_index_def)
  qed
  then show ?thesis using used d all by (simp add: next_token_index_def)
qed

theorem tokens_rotate_witness:
  "((\<lambda>j. next_token_index [''00'', ''7f'', ''ff''] (Some ([''00'', ''7f'', ''ff''] ! j))) ^^ 5) 1 = 0"
proof -
  have "distinct [''00'', ''7f'', ''ff'']" "1 < length [''00'', ''7f'', ''ff'']" by simp_all
  from tokens_rotate [OF this, of 5, THEN conjunct1]
  show ?thesis by (simp only: list.size) simp
qed

end
