(* ===== verification/Supervisor.thy ===== *)
theory Supervisor
  imports Worker Listener
begin

text \<open>
  Task orchestration (\<open>crates/comenqd/src/supervisor.rs\<close>): start-up of the daemon, and the
  supervision loop that restarts a failed task with exponential back-off. The jittered delays
  are \<open>backon\<close>'s: the parameter \<open>delays g k\<close> is what the \<open>g\<close>-th back-off a supervisor builds gives as
  its \<open>k\<close>-th delay. Times are milliseconds.
\<close>

definition BACKOFF_FALLBACK_DELAY :: u64 where
  [limits]: "BACKOFF_FALLBACK_DELAY = 1000"

definition STABLE_TASK_RUN :: u64 where
  [limits]: "STABLE_TASK_RUN = 60000"

record supervision =
  backoff_gen :: nat
  backoff_pos :: nat
  restart_attempt :: u64

definition reset_backoff_after_stable_run :: "u64 \<Rightarrow> supervision \<Rightarrow> bool \<times> supervision" where
  "reset_backoff_after_stable_run stable_run st =
     (if stable_run \<ge> STABLE_TASK_RUN then (True, st\<lparr>backoff_gen := Suc (backoff_gen st), backoff_pos := 0\<rparr>) else (False, st))"

definition next_delay :: "(nat \<Rightarrow> nat \<Rightarrow> u64 option) \<Rightarrow> supervision \<Rightarrow> u64 \<times> supervision" where
  "next_delay delays st =
     (case delays (backoff_gen st) (backoff_pos st) of
        Some d \<Rightarrow> (d, st\<lparr>backoff_pos := Suc (backoff_pos st)\<rparr>)
      | None \<Rightarrow> (BACKOFF_FALLBACK_DELAY, st))"

text \<open>What the supervisor sees: a shutdown, with whether the task ends within the grace period, or
  the end of the task with how long it ran and whether a shutdown interrupts the delay before
  the restart.\<close>

datatype sup_event =
    SupShutdown bool
  | TaskEnded "unit option" u64 bool

datatype sup_action =
    Respawn u64 bool
  | Abort
  | Leave

text \<open>One turn of \<open>supervise_task\<close>: the actions it takes and, if it goes on, its state.\<close>

definition supervise_turn ::
  "(nat \<Rightarrow> nat \<Rightarrow> u64 option) \<Rightarrow> sup_event \<Rightarrow> supervision \<Rightarrow> sup_action list \<times> supervision option" where
  "supervise_turn delays ev st =
     (case ev of
        SupShutdown graceful \<Rightarrow> (if graceful then [Leave] else [Abort, Leave], None)
      | TaskEnded result stable_run interrupted \<Rightarrow>
          if result = Some () then ([Leave], None)
          else
            let st = st\<lparr>restart_attempt := sat_add (restart_attempt st) 1\<rparr> in
            (case reset_backoff_after_stable_run stable_run st of
               (was_reset, st1) \<Rightarrow>
                 (case next_delay delays st1 of
                    (d, st2) \<Rightarrow> if interrupted then ([Leave], None) else ([Respawn d was_reset], Some st2))))"

fun supervise_task :: "(nat \<Rightarrow> nat \<Rightarrow> u64 option) \<Rightarrow> sup_event list \<Rightarrow> supervision \<Rightarrow> sup_action list" where
  "supervise_task delays [] st = []"
| "supervise_task delays (ev # evs) st =
     (case supervise_turn delays ev st of
        (acts, None) \<Rightarrow> acts
      | (acts, Some st') \<Rightarrow> acts @ supervise_task delays evs st')"

section \<open>Start-up\<close>

datatype supervisor_error = SupIo io_error | SupOctocrab string | SupStore store_error

fun build_clients ::
  "(string \<Rightarrow> string + unit) \<Rightarrow> (string \<Rightarrow> string) \<Rightarrow> named_token list \<Rightarrow> string + token_client list" where
  "build_clients build_octocrab sha256 [] = Inr []"
| "build_clients build_octocrab sha256 (named # rest) =
     (case build_octocrab (nt_token named) of
        Inl e \<Rightarrow> Inl e
      | Inr _ \<Rightarrow> map_ok (\<lambda>cs. new_token_client sha256 (nt_name named) (nt_token named) # cs)
                  (build_clients build_octocrab sha256 rest))"

text \<open>\<open>run_with_tokens\<close> up to the spawning of the tasks: the clients and the opened queue.\<close>

definition run_with_tokens ::
  "ext \<Rightarrow> (string \<Rightarrow> string + unit) \<Rightarrow> (string \<Rightarrow> string) \<Rightarrow> named_token list \<Rightarrow> world
     \<Rightarrow> (supervisor_error + (token_client list \<times> shared_queue)) \<times> world" where
  "run_with_tokens X build_octocrab sha256 tokens w =
     (if tokens = [] then (Inl (SupIo (IoError InvalidInput ''GitHub token pool is empty'')), w)
      else
        (case fs_call w of
           (Inl e, w1) \<Rightarrow> (Inl (SupIo e), w1)
         | (Inr _, w1) \<Rightarrow>
             (case build_clients build_octocrab sha256 tokens of
                Inl e \<Rightarrow> (Inl (SupOctocrab e), w1)
              | Inr clients \<Rightarrow>
                  (case open_queue X w1 of
                     (Inl e, w2) \<Rightarrow> (Inl (SupStore e), w2)
                   | (Inr q, w2) \<Rightarrow> (Inr (clients, q), w2)))))"

definition run_daemon ::
  "ext \<Rightarrow> (string \<Rightarrow> string + unit) \<Rightarrow> (string \<Rightarrow> string) \<Rightarrow> token_fs \<Rightarrow> env \<Rightarrow> config \<Rightarrow> world
     \<Rightarrow> (supervisor_error + (token_client list \<times> shared_queue)) \<times> world" where
  "run_daemon X build_octocrab sha256 fs env cfg w =
     (case github_tokens fs env cfg of
        Inl e \<Rightarrow> (Inl (SupIo e), w)
      | Inr tokens \<Rightarrow> run_with_tokens X build_octocrab sha256 tokens w)"

end
