(* ===== verification/Supervisor_Props.thy ===== *)
theory Supervisor_Props
  imports Supervisor
begin

text \<open>
  Properties of task supervision: which delay each restart waits for, and that a supervisor that
  has left restarts nothing.
\<close>

definition short_run :: "sup_event \<Rightarrow> bool" where
  "short_run ev = (case ev of TaskEnded _ lasted _ \<Rightarrow> lasted < STABLE_TASK_RUN | SupShutdown _ \<Rightarrow> False)"

definition restarting :: "sup_event \<Rightarrow> bool" where
  "restarting ev = (case ev of TaskEnded result _ interrupted \<Rightarrow> result = None \<and> \<not> interrupted | SupShutdown _ \<Rightarrow> False)"

text \<open>The delay sequence a restart draws from is the one built after the last stable run, and its
  place there counts the restarts since; \<open>g\<close> and \<open>p\<close> are those of the supervisor at the start.\<close>

definition generation_at :: "nat \<Rightarrow> sup_event list \<Rightarrow> nat \<Rightarrow> nat" where
  "generation_at g evs i = g + length (filter (\<lambda>ev. \<not> short_run ev) (take (Suc i) evs))"

definition position_at :: "nat \<Rightarrow> sup_event list \<Rightarrow> nat \<Rightarrow> nat" where
  "position_at p evs i =
     (let pre = take (Suc i) evs; shorts = length (takeWhile short_run (rev pre)) in
      if shorts = length pre then p + i else shorts)"

definition delay_at :: "(nat \<Rightarrow> nat \<Rightarrow> u64 option) \<Rightarrow> nat \<Rightarrow> nat \<Rightarrow> u64" where
  "delay_at delays g k = (case delays g k of Some d \<Rightarrow> d | None \<Rightarrow> BACKOFF_FALLBACK_DELAY)"

text \<open>An iterator that has ended stays at its end.\<close>

definition fused :: "(nat \<Rightarrow> nat \<Rightarrow> u64 option) \<Rightarrow> bool" where
  "fused delays \<longleftrightarrow> (\<forall>g k. delays g k = None \<longrightarrow> delays g (Suc k) = None)"

definition at_position :: "(nat \<Rightarrow> nat \<Rightarrow> u64 option) \<Rightarrow> nat \<Rightarrow> nat \<Rightarrow> supervision \<Rightarrow> bool" where
  "at_position delays g p st \<longleftrightarrow>
     backoff_gen st = g \<and> (backoff_pos st = p \<or> (delays g (backoff_pos st) = None \<and> delays g p = None))"

lemma positions_Cons:
  assumes "i < length evs"
  shows "position_at p (ev # evs) (Suc i) = position_at (if short_run ev then Suc p else 1) evs i"
proof -
  define pre where "pre = take (Suc i) evs"
  have len: "length pre = Suc i" using assms by (simp add: pre_def)
  show ?thesis
  proof (cases "\<forall>e \<in> set pre. short_run e")
    case True
    then have "takeWhile short_run (rev pre @ ev # es) = rev pre @ takeWhile short_run (ev # es)" for es by (simp add: takeWhile_append)
    moreover have "length (takeWhile short_run (rev pre)) = Suc i" using True len by (metis length_rev set_rev takeWhile_eq_all_conv)
    ultimately show ?thesis using len by (simp add: position_at_def pre_def [symmetric])
  next
    case False
    then have "takeWhile short_run (rev pre @ es) = takeWhile short_run (rev pre)" for es by (auto simp: takeWhile_append)
    moreover have "length (takeWhile short_run (rev pre)) < length (rev pre)"
      using False by (metis length_takeWhile_le le_neq_implies_less set_rev takeWhile_eq_all_conv takeWhile_eq_take take_all order_refl)
    ultimately show ?thesis using len by (simp add: position_at_def pre_def [symmetric])
  qed
qed

lemma generations_Cons: "generation_at g (ev # evs) (Suc i) = generation_at (if short_run ev then g else Suc g) evs i"
  by (simp add: generation_at_def)

lemma next_delay_at:
  assumes "fused delays" "at_position delays g p st"
  shows "\<exists>st'. next_delay delays st = (delay_at delays g p, st') \<and> at_position delays g (Suc p) st'"
  using assms by (cases "delays g p") (auto simp: next_delay_def at_position_def delay_at_def fused_def)

lemma restart_turn:
  assumes fused: "fused delays" and st: "at_position delays g p st" and ev: "restarting ev"
  shows "\<exists>st'. supervise_turn delays ev st =
      ([Respawn (delay_at delays (generation_at g [ev] 0) (position_at p [ev] 0)) (\<not> short_run ev)], Some st')
    \<and> at_position delays (if short_run ev then g else Suc g) (if short_run ev then Suc p else 1) st'"
proof -
  obtain lasted where e: "ev = TaskEnded None lasted False" using ev by (auto simp: restarting_def split: sup_event.splits)
  define st1 where "st1 = snd (reset_backoff_after_stable_run lasted (st\<lparr>restart_attempt := sat_add (restart_attempt st) 1\<rparr>))"
  let ?g = "if short_run ev then g else Suc g" and ?p = "if short_run ev then p else 0"
  have reset: "reset_backoff_after_stable_run lasted (st\<lparr>restart_attempt := sat_add (restart_attempt st) 1\<rparr>) = (\<not> short_run ev, st1)"
    and "at_position delays ?g ?p st1"
    using st by (auto simp: st1_def reset_backoff_after_stable_run_def e short_run_def at_position_def not_le)
  from next_delay_at [OF fused this(2)] obtain st' where
    d: "next_delay delays st1 = (delay_at delays ?g ?p, st')" "at_position delays ?g (Suc ?p) st'" by blast
  have "generation_at g [ev] 0 = ?g" "position_at p [ev] 0 = ?p" by (simp_all add: generation_at_def position_at_def)
  then show ?thesis using reset d by (auto simp: supervise_turn_def e)
qed

definition leaving :: "sup_event \<Rightarrow> sup_action list" where
  "leaving ev = (case ev of SupShutdown graceful \<Rightarrow> if graceful then [Leave] else [Abort, Leave] | TaskEnded _ _ _ \<Rightarrow> [Leave])"

lemma last_turn: "\<not> restarting ev \<Longrightarrow> supervise_turn delays ev st = (leaving ev, None)"
  by (cases ev) (auto simp: supervise_turn_def restarting_def leaving_def Let_def split: prod.splits)

lemma supervise_restarts:
  "fused delays \<Longrightarrow> at_position delays g p st \<Longrightarrow> list_all restarting evs \<Longrightarrow> \<not> restarting ev \<Longrightarrow>
    supervise_task delays (evs @ ev # rest) st =
      map (\<lambda>i. Respawn (delay_at delays (generation_at g evs i) (position_at p evs i)) (\<not> short_run (evs ! i))) [0..<length evs]
      @ leaving ev"
proof (induction evs arbitrary: g p st)
  case Nil
  then show ?case by (simp add: last_turn)
next
  case (Cons e evs)
  let ?act = "\<lambda>g p evs i. Respawn (delay_at delays (generation_at g evs i) (position_at p evs i)) (\<not> short_run (evs ! i))"
  obtain st' where turn: "supervise_turn delays e st = ([?act g p [e] 0], Some st')"
      and st': "at_position delays (if short_run e then g else Suc g) (if short_run e then Suc p else 1) st'"
    using restart_turn [OF Cons.prems(1,2), of e] Cons.prems(3) by auto
  have head: "?act g p [e] 0 = ?act g p (e # evs) 0" by (simp add: generation_at_def position_at_def)
  have tail: "map (?act (if short_run e then g else Suc g) (if short_run e then Suc p else 1) evs) [0..<length evs]
      = map (?act g p (e # evs)) (map Suc [0..<length evs])"
    by (auto simp: positions_Cons generations_Cons)
  have "supervise_task delays ((e # evs) @ ev # rest) st = ?act g p (e # evs) 0 # (map (?act g p (e # evs)) (map Suc [0..<length evs]) @ leaving ev)"
    using Cons.IH [OF Cons.prems(1) st' _ Cons.prems(4)] Cons.prems(3) turn unfolding head tail by simp
  then show ?case by (simp add: upt_rec [of 0] map_Suc_upt [symmetric] del: upt_Suc)
qed

text \<open>C33. Supervision in closed form: as long as a task fails and no shutdown interrupts the pause, the
  supervisor restarts it once for each failure, after the delay that belongs to the number of
  failures since the last stable run, drawn from the back-off built after that run; the first event
  of another kind ends supervision, and no restart follows it.\<close>

theorem supervision_restarts:
  assumes "fused delays" "list_all restarting evs" "\<not> restarting ev"
  shows "supervise_task delays (evs @ ev # rest) \<lparr>backoff_gen = 0, backoff_pos = 0, restart_attempt = 0\<rparr> =
    map (\<lambda>i. Respawn (delay_at delays (generation_at 0 evs i) (position_at 0 evs i)) (\<not> short_run (evs ! i))) [0..<length evs]
    @ leaving ev"
  using assms by (intro supervise_restarts) (simp_all add: at_position_def)

text \<open>A stable run between two failures starts the delays afresh.\<close>

theorem supervision_restarts_witness:
  "supervise_task (\<lambda>g k. Some (100 * (k + 1) + g))
     [TaskEnded None 5 False, TaskEnded None 7 False, TaskEnded None 90000 False, TaskEnded None 1 False, SupShutdown False, TaskEnded None 1 False]
     \<lparr>backoff_gen = 0, backoff_pos = 0, restart_attempt = 0\<rparr>
   = [Respawn 100 False, Respawn 200 False, Respawn 101 True, Respawn 201 False, Abort, Leave]"
  using supervision_restarts [of "\<lambda>g k. Some (100 * (k + 1) + g)"
      "[TaskEnded None 5 False, TaskEnded None 7 False, TaskEnded None 90000 False, TaskEnded None 1 False]" "SupShutdown False"
      "[TaskEnded None 1 False]"]
  by (simp add: fused_def restarting_def short_run_def leaving_def delay_at_def generation_at_def position_at_def limits upt_rec)

end
