(* ===== verification/Config_Props.thy ===== *)
theory Config_Props
  imports Config
begin

text \<open>
  Properties of the configuration: where the credentials come from, and that the rotation pool a
  daemon starts with is ordered, without duplicates and without blanks.
\<close>

section \<open>Trimming\<close>





section \<open>The rotation pool\<close>



section \<open>Credentials\<close>













end
