(* ===== verification/Socket.thy ===== *)
theory Socket
  imports Supervisor
begin

text \<open>
  Binding the daemon's socket and accepting connections (\<open>crates/comenqd/src/listener.rs\<close>). The file
  tree is a map from paths, as lists of components, to nodes with their mode bits; names resolve
  without symbolic links and dot-dot components. Every call may fail by script, and the tree records
  the states it has passed through, which is what other processes can observe. The process' umask and
  the random identifier are parameters.
\<close>

section \<open>The tree\<close>

datatype inode_kind = DirNode | FileNode | SocketNode

record inode =
  i_kind :: inode_kind
  i_mode :: nat

type_synonym nodes = "string list \<Rightarrow> inode option"

record tree =
  inodes :: nodes
  faults :: "io_error option list"
  passed :: "nodes list"

type_synonym tree_act = "nodes \<Rightarrow> io_error + nodes"

definition tree_call :: "tree_act \<Rightarrow> tree \<Rightarrow> (io_error + unit) \<times> tree" where
  "tree_call act t =
     (case faults t of
        Some e # rest \<Rightarrow> (Inl e, t\<lparr>faults := rest\<rparr>)
      | calls \<Rightarrow>
          (case act (inodes t) of
             Inl e \<Rightarrow> (Inl e, t\<lparr>faults := tl calls\<rparr>)
           | Inr m \<Rightarrow> (Inr (), t\<lparr>inodes := m, faults := tl calls, passed := passed t @ [m]\<rparr>)))"

text \<open>The empty path is the working directory.\<close>

definition is_dir :: "nodes \<Rightarrow> string list \<Rightarrow> bool" where
  "is_dir m p = (p = [] \<or> (case m p of Some n \<Rightarrow> i_kind n = DirNode | None \<Rightarrow> False))"

definition create_node :: "inode \<Rightarrow> string list \<Rightarrow> tree_act" where
  "create_node n p m =
     (if p = [] \<or> m p \<noteq> None then Inl (IoError AlreadyExists ''File exists'')
      else if \<not> is_dir m (butlast p) then Inl (IoError NotFound ''No such file or directory'')
      else Inr (m(p \<mapsto> n)))"

definition set_mode :: "string list \<Rightarrow> nat \<Rightarrow> tree_act" where
  "set_mode p mode m =
     (case m p of
        None \<Rightarrow> Inl (IoError NotFound ''No such file or directory'')
      | Some n \<Rightarrow> Inr (m(p \<mapsto> n\<lparr>i_mode := mode\<rparr>)))"

text \<open>Renaming a node that is no directory.\<close>

definition rename_node :: "string list \<Rightarrow> string list \<Rightarrow> tree_act" where
  "rename_node p q m =
     (case m p of
        None \<Rightarrow> Inl (IoError NotFound ''No such file or directory'')
      | Some n \<Rightarrow>
          if is_dir m q then Inl (IoError OtherKind ''Is a directory'')
          else if \<not> is_dir m (butlast q) then Inl (IoError NotFound ''No such file or directory'')
          else Inr (m(p := None, q := Some n)))"

definition remove_node :: "string list \<Rightarrow> tree_act" where
  "remove_node p m =
     (if m p = None then Inl (IoError NotFound ''No such file or directory'') else Inr (m(p := None)))"

section \<open>Preparing the socket\<close>

datatype listener_error =
    MissingParent
  | MissingFileName
  | SocketIo string io_error

definition path_nodes :: "string \<Rightarrow> string list" where
  "path_nodes p = (case components p of (absolute, names) \<Rightarrow> if absolute then ''/'' # names else names)"

text \<open>\<open>Path::parent\<close>.\<close>

definition path_parent :: "string \<Rightarrow> string list option" where
  "path_parent p = (if path_nodes p \<in> {[], [''/'']} then None else Some (butlast (path_nodes p)))"

text \<open>A call with the context its failure is reported with, and then the rest.\<close>

definition call_then ::
  "string \<Rightarrow> tree_act \<Rightarrow> (tree \<Rightarrow> (listener_error + 'a) \<times> tree) \<Rightarrow> tree \<Rightarrow> (listener_error + 'a) \<times> tree" where
  "call_then what act k t =
     (case tree_call act t of (Inl e, t') \<Rightarrow> (Inl (SocketIo what e), t') | (Inr _, t') \<Rightarrow> k t')"

fun create_parents :: "(nat \<Rightarrow> nat) \<Rightarrow> string list \<Rightarrow> string list \<Rightarrow> tree \<Rightarrow> (listener_error + unit) \<times> tree" where
  "create_parents umask component_path [] t = (Inr (), t)"
| "create_parents umask component_path (component # rest) t =
     (let p = component_path @ [component] in
      case tree_call (create_node \<lparr>i_kind = DirNode, i_mode = umask 511\<rparr> p) t of
        (Inr _, t1) \<Rightarrow>
          call_then ''setting permissions on socket directory'' (set_mode p 448) (create_parents umask p rest) t1
      | (Inl e, t1) \<Rightarrow>
          if kind_of e = AlreadyExists then create_parents umask p rest t1
          else (Inl (SocketIo ''creating socket directory'' e), t1))"

definition create_socket_parent :: "(nat \<Rightarrow> nat) \<Rightarrow> string list \<Rightarrow> tree \<Rightarrow> (listener_error + unit) \<times> tree" where
  "create_socket_parent umask parent t = create_parents umask [] parent t"

text \<open>\<open>to_string_lossy\<close>: the name itself, unless it is no UTF-8; \<open>lossy\<close> replaces then.\<close>

definition temporary_name :: "(string \<Rightarrow> string) \<Rightarrow> string \<Rightarrow> string \<Rightarrow> string" where
  "temporary_name lossy file_name uuid =
     ''.'' @ (if valid_utf8 file_name then file_name else lossy file_name) @ ''.'' @ uuid"

text \<open>\<open>rename\<close> with the clean-up of the temporary socket when it fails.\<close>

definition rename_into_place ::
  "string list \<Rightarrow> string list \<Rightarrow> (tree \<Rightarrow> (listener_error + 'a) \<times> tree) \<Rightarrow> tree \<Rightarrow> (listener_error + 'a) \<times> tree" where
  "rename_into_place tmp p k t =
     (case tree_call (rename_node tmp p) t of
        (Inl e, t1) \<Rightarrow> (Inl (SocketIo ''renaming socket'' e), snd (tree_call (remove_node tmp) t1))
      | (Inr _, t1) \<Rightarrow> k t1)"

text \<open>From the temporary socket to the socket at its path.\<close>

definition install_socket ::
  "(nat \<Rightarrow> nat) \<Rightarrow> string list \<Rightarrow> string list \<Rightarrow> tree \<Rightarrow> (listener_error + unit) \<times> tree" where
  "install_socket umask tmp p =
     call_then ''binding to temp socket'' (create_node \<lparr>i_kind = SocketNode, i_mode = umask 511\<rparr> tmp)
       (call_then ''setting permissions'' (set_mode tmp 432)
         (rename_into_place tmp p
           (call_then ''setting permissions'' (set_mode p 432) (\<lambda>t. (Inr (), t)))))"

definition prepare_listener ::
  "(nat \<Rightarrow> nat) \<Rightarrow> (string \<Rightarrow> string) \<Rightarrow> string \<Rightarrow> string \<Rightarrow> tree \<Rightarrow> (listener_error + unit) \<times> tree" where
  "prepare_listener umask lossy uuid p t =
     (case path_parent p of
        None \<Rightarrow> (Inl MissingParent, t)
      | Some parent \<Rightarrow>
          (case (if parent = [] then (Inr (), t) else create_socket_parent umask parent t) of
             (Inl e, t1) \<Rightarrow> (Inl e, t1)
           | (Inr _, t1) \<Rightarrow>
               (case path_file_name p of
                  None \<Rightarrow> (Inl MissingFileName, t1)
                | Some file_name \<Rightarrow>
                    install_socket umask (parent @ [temporary_name lossy file_name uuid]) (path_nodes p) t1)))"

section \<open>Accepting connections\<close>

text \<open>What the accept loop sees, in order: a connection, a failure with whether a shutdown comes
  during the pause after it, or a shutdown.\<close>

datatype accept_event = Connection | AcceptFails bool | ListenerShutdown

datatype accept_action = ServeClient | Pause u64

text \<open>The loop of \<open>run_listener\<close>: a connection is served by a task of its own and renews the back-off.\<close>

fun accept_loop :: "(nat \<Rightarrow> nat \<Rightarrow> u64 option) \<Rightarrow> accept_event list \<Rightarrow> supervision \<Rightarrow> accept_action list \<times> bool" where
  "accept_loop delays [] accept_backoff = ([], False)"
| "accept_loop delays (ev # evs) accept_backoff =
     (case ev of
        Connection \<Rightarrow>
          (case accept_loop delays evs
                  (accept_backoff\<lparr>backoff_gen := Suc (backoff_gen accept_backoff), backoff_pos := 0\<rparr>) of
             (acts, stopped) \<Rightarrow> (ServeClient # acts, stopped))
      | AcceptFails interrupted \<Rightarrow>
          (case next_delay delays accept_backoff of
             (d, accept_backoff') \<Rightarrow>
               if interrupted then ([Pause d], True)
               else (case accept_loop delays evs accept_backoff' of
                       (acts, stopped) \<Rightarrow> (Pause d # acts, stopped)))
      | ListenerShutdown \<Rightarrow> ([], True))"

definition run_listener ::
  "(nat \<Rightarrow> nat) \<Rightarrow> (string \<Rightarrow> string) \<Rightarrow> string \<Rightarrow> (nat \<Rightarrow> nat \<Rightarrow> u64 option) \<Rightarrow> config \<Rightarrow> accept_event list
     \<Rightarrow> tree \<Rightarrow> (listener_error + (accept_action list \<times> bool)) \<times> tree" where
  "run_listener umask lossy uuid delays cfg evs t =
     (case prepare_listener umask lossy uuid (socket_path cfg) t of
        (Inl e, t1) \<Rightarrow> (Inl e, t1)
      | (Inr _, t1) \<Rightarrow>
          (Inr (accept_loop delays evs \<lparr>backoff_gen = 0, backoff_pos = 0, restart_attempt = 0\<rparr>), t1))"

end
