(* ===== verification/Socket_Props.thy ===== *)
theory Socket_Props
  imports Socket Filesystem
begin

text \<open>
  Properties of the daemon's socket: what other processes can see while it is prepared, what it
  leaves in the tree, when preparing succeeds, and that the accept loop serves every connection.
\<close>

section \<open>Calls\<close>

text \<open>The tree before and after a run, and the states in between.\<close>

definition through :: "(nodes \<Rightarrow> bool) \<Rightarrow> tree \<Rightarrow> tree \<Rightarrow> bool" where
  "through J t t' \<longleftrightarrow> J (inodes t') \<and> (\<exists>ms. passed t' = passed t @ ms \<and> (\<forall>m \<in> set ms. J m))"

lemma through_refl [simp]: "J (inodes t) \<Longrightarrow> through J t t"
  by (simp add: through_def)







section \<open>Missing directories\<close>



text \<open>Nothing but directories at the given paths has been added.\<close>

definition grown :: "nodes \<Rightarrow> string list list \<Rightarrow> nodes \<Rightarrow> bool" where
  "grown m qs m' \<longleftrightarrow> (\<forall>q. m' q = m q \<or> (m q = None \<and> q \<in> set qs \<and> (\<exists>mode. m' q = Some \<lparr>i_kind = DirNode, i_mode = mode\<rparr>)))"

lemma grown_refl [simp]: "grown m qs m" by (simp add: grown_def)











section \<open>Installing the socket\<close>









section \<open>Preparing the listener\<close>








section \<open>Accepting connections\<close>

text \<open>Every connection made before the shutdown is served, however often accepting fails in between.\<close>

definition open_events :: "accept_event list \<Rightarrow> accept_event list" where
  "open_events evs = takeWhile (\<lambda>ev. ev = Connection \<or> ev = AcceptFails False) evs"

lemma accept_serves:
  "length (filter (\<lambda>a. a = ServeClient) (fst (accept_loop delays evs b))) = length (filter (\<lambda>ev. ev = Connection) (open_events evs))
   \<and> (snd (accept_loop delays evs b) \<longleftrightarrow> open_events evs \<noteq> evs)"
  by (induction delays evs b rule: accept_loop.induct)
    (auto simp: open_events_def split: accept_event.splits prod.splits)

text \<open>A failure to accept never ends the listener: it reports an error only if the socket could not be
  prepared.\<close>

lemma run_listener_error:
  "run_listener umask lossy uuid delays cfg evs t = (Inl e, t') \<Longrightarrow> prepare_listener umask lossy uuid (socket_path cfg) t = (Inl e, t')"
  by (auto simp: run_listener_def split: prod.splits sum.splits)

text \<open>Only the failure of the rename is cleaned up: when setting the mode of the bound socket fails, the
  temporary socket stays behind.\<close>

lemma mode_failure_orphan:
  assumes "faults t = [None, Some e]" "is_dir (inodes t) base" "inodes t (base @ [a]) = None"
  shows "\<exists>t'. install_socket umask (base @ [a]) p t = (Inl (SocketIo ''setting permissions'' e), t')
    \<and> inodes t' (base @ [a]) = Some \<lparr>i_kind = SocketNode, i_mode = umask 511\<rparr>"
  using assms by (simp add: install_socket_def call_then_def tree_call_def create_node_def)

end
