(* ===== verification/Metrics.thy ===== *)
theory Metrics
  imports Worker Listener
begin

text \<open>
  The daemon's metrics (\<open>crates/comenqd/src/metrics.rs\<close> and \<open>metrics/duration.rs\<close>): the registry as the
  exporter keeps it, one function per recorder, and the calls the daemon makes. A metric is known by
  its name and labels. Serving the registry over HTTP is the exporter's.
\<close>

type_synonym metric_key = "string \<times> (string \<times> string) list"

record registry =
  counters :: "metric_key \<Rightarrow> nat"
  gauge_values :: "metric_key \<Rightarrow> nat option"
  samples :: "metric_key \<Rightarrow> u64 list"

definition empty_registry :: registry where
  "empty_registry = \<lparr>counters = (\<lambda>_. 0), gauge_values = (\<lambda>_. None), samples = (\<lambda>_. [])\<rparr>"

definition increment :: "metric_key \<Rightarrow> registry \<Rightarrow> registry" where
  "increment k r = r\<lparr>counters := (counters r)(k := Suc (counters r k))\<rparr>"

definition set_gauge :: "metric_key \<Rightarrow> nat \<Rightarrow> registry \<Rightarrow> registry" where
  "set_gauge k v r = r\<lparr>gauge_values := (gauge_values r)(k \<mapsto> v)\<rparr>"

definition add_sample :: "metric_key \<Rightarrow> u64 \<Rightarrow> registry \<Rightarrow> registry" where
  "add_sample k v r = r\<lparr>samples := (samples r)(k := samples r k @ [v])\<rparr>"

section \<open>Recorders\<close>

definition record_task_restart :: "string \<Rightarrow> registry \<Rightarrow> registry" where
  "record_task_restart task = increment (''comenqd_task_restarts_total'', [(''task'', task)])"

definition record_request :: "string option \<Rightarrow> string \<Rightarrow> registry \<Rightarrow> registry" where
  "record_request operation outcome =
     (case operation of
        Some op \<Rightarrow> increment (''comenqd_requests_total'', [(''operation'', op), (''outcome'', outcome)])
      | None \<Rightarrow> increment (''comenqd_requests_total'', [(''outcome'', outcome)]))"

definition record_queue_entries :: "usize \<Rightarrow> registry \<Rightarrow> registry" where
  "record_queue_entries = set_gauge (''comenqd_queue_entries'', [])"

definition record_queue_bytes :: "u64 \<Rightarrow> registry \<Rightarrow> registry" where
  "record_queue_bytes = set_gauge (''comenqd_queue_bytes'', [])"

definition record_await_schedule_cache :: "string \<Rightarrow> registry \<Rightarrow> registry" where
  "record_await_schedule_cache outcome = increment (''comenqd_await_schedule_cache_total'', [(''outcome'', outcome)])"

definition record_cooldown_wait :: "u64 \<Rightarrow> registry \<Rightarrow> registry" where
  "record_cooldown_wait = add_sample (''comenqd_cooldown_wait_duration_seconds'', [])"

definition record_github_post_outcome :: "string \<Rightarrow> registry \<Rightarrow> registry" where
  "record_github_post_outcome outcome = increment (''comenqd_github_posts_total'', [(''outcome'', outcome)])"

definition record_github_post_duration :: "u64 \<Rightarrow> registry \<Rightarrow> registry" where
  "record_github_post_duration = add_sample (''comenqd_github_post_duration_seconds'', [])"

definition record_protocol_duration :: "string option \<Rightarrow> string \<Rightarrow> string option \<Rightarrow> u64 \<Rightarrow> registry \<Rightarrow> registry" where
  "record_protocol_duration operation outcome error_kind =
     add_sample (''comenqd_protocol_transaction_duration_seconds'',
       [(''operation'', protocol_operation_label operation), (''outcome'', bounded_outcome_label outcome),
        (''error_kind'', bounded_error_label error_kind)])"

definition record_queue_store_duration :: "string \<Rightarrow> string \<Rightarrow> string option \<Rightarrow> u64 \<Rightarrow> registry \<Rightarrow> registry" where
  "record_queue_store_duration operation outcome error_kind =
     add_sample (''comenqd_queue_store_operation_duration_seconds'',
       [(''operation'', queue_store_operation_label operation), (''outcome'', bounded_outcome_label outcome),
        (''error_kind'', bounded_error_label error_kind)])"

section \<open>Call sites\<close>

text \<open>The outcome a store operation is recorded with.\<close>

definition store_outcome :: "store_error option \<Rightarrow> string \<times> string option" where
  "store_outcome e = (case e of None \<Rightarrow> (''success'', None) | Some e \<Rightarrow> (''failure'', Some (category e)))"

datatype cache_use = Hit | Rebuild | Invalidation

fun cache_label :: "cache_use \<Rightarrow> string" where
  "cache_label Hit = ''hit''"
| "cache_label Rebuild = ''rebuild''"
| "cache_label Invalidation = ''invalidation''"

text \<open>What the daemon reports, with the time it took.\<close>

datatype metric_event =
    ListenerRestarted
  | WorkerRestarted
  | ConnectionEnded "string + (client_outcome \<times> string option)" "request option" u64
  | StoreFinished string "store_error option" u64
  | QueueMeasured usize u64
  | ScheduleCache cache_use
  | CooldownWaited u64
  | CommentPosted "post_comment_error + string" u64

fun record_event :: "metric_event \<Rightarrow> registry \<Rightarrow> registry" where
  "record_event ListenerRestarted r = record_task_restart ''listener'' r"
| "record_event WorkerRestarted r = record_task_restart ''worker'' r"
| "record_event (ConnectionEnded result req elapsed) r =
     (let operation = map_option request_operation req; (outcome, error_kind) = connection_labels result in
      record_protocol_duration operation outcome error_kind elapsed (record_request operation outcome r))"
| "record_event (StoreFinished operation failure elapsed) r =
     (case store_outcome failure of (outcome, error_kind) \<Rightarrow> record_queue_store_duration operation outcome error_kind elapsed r)"
| "record_event (QueueMeasured queued accounted) r = record_queue_bytes accounted (record_queue_entries queued r)"
| "record_event (ScheduleCache use) r = record_await_schedule_cache (cache_label use) r"
| "record_event (CooldownWaited secs) r = record_cooldown_wait secs r"
| "record_event (CommentPosted answer elapsed) r =
     record_github_post_outcome (post_outcome answer) (record_github_post_duration elapsed r)"

end
