(* ===== verification/Output_Props.thy ===== *)
theory Output_Props
  imports Output
begin

text \<open>
  What the client's rendering guarantees: decoding and encoding of characters are inverse on
  valid UTF-8, a summary is one short line, and an escaped field cannot break its line or
  drive the terminal, while harmless text passes unchanged.
\<close>

section \<open>Characters and bytes\<close>

text \<open>Code points a four-byte sequence can carry; valid UTF-8 stays below \<open>0x110000\<close>.\<close>

definition code_point :: "nat \<Rightarrow> bool" where
  "code_point c \<longleftrightarrow> c < 0x110000"

lemma base64_digits:
  fixes c :: nat
  shows "c div 64 * 64 + c mod 64 = c"
    and "c div 4096 * 4096 + c div 64 mod 64 * 64 + c mod 64 = c"
    and "c div 262144 * 262144 + c div 4096 mod 64 * 4096 + c div 64 mod 64 * 64 + c mod 64 = c"
proof -
  have a: "c div 64 * 64 + c mod 64 = c"
    and b: "c div 64 div 64 * 64 + c div 64 mod 64 = c div 64"
    and d: "c div 64 div 64 div 64 * 64 + c div 64 div 64 mod 64 = c div 64 div 64"
    by (rule div_mult_mod_eq)+
  have e: "c div 4096 = c div 64 div 64" "c div 262144 = c div 64 div 64 div 64"
    by (simp_all add: div_mult2_eq [symmetric])
  show "c div 64 * 64 + c mod 64 = c" by (rule a)
  show "c div 4096 * 4096 + c div 64 mod 64 * 64 + c mod 64 = c"
    unfolding e using a b by linarith
  show "c div 262144 * 262144 + c div 4096 mod 64 * 4096 + c div 64 mod 64 * 64 + c mod 64 = c"
    unfolding e using a b d by linarith
qed

lemma chars_utf8_encode: "code_point c \<Longrightarrow> chars (utf8_encode c @ s) = c # chars s"
proof -
  assume c: "code_point c"
  note d = base64_digits [of c]
  consider "c < 0x80" | "0x80 \<le> c" "c < 0x800" | "0x800 \<le> c" "c < 0x10000" | "0x10000 \<le> c"
    by linarith
  then show ?thesis
  proof cases
    case 1
    then show ?thesis by (simp add: utf8_encode_def)
  next
    case 2
    define q where "q = c div 64"
    have q: "q < 32" using 2 by (simp add: q_def less_mult_imp_div_less)
    show ?thesis using 2 q d(1) by (simp add: utf8_encode_def q_def [symmetric])
  next
    case 3
    define q where "q = c div 4096"
    have q: "q < 16" using 3 by (simp add: q_def less_mult_imp_div_less)
    show ?thesis using 3 q d(2) by (simp add: utf8_encode_def q_def [symmetric])
  next
    case 4
    define q where "q = c div 262144"
    have q: "q < 5" using c by (simp add: q_def code_point_def less_mult_imp_div_less)
    show ?thesis using 4 q d(3) by (simp add: utf8_encode_def q_def [symmetric])
  qed
qed

lemma chars_from_chars: "list_all code_point cs \<Longrightarrow> chars (from_chars cs) = cs"
  by (induction cs) (simp_all add: from_chars_def chars_utf8_encode)

lemma from_chars_append: "from_chars (xs @ ys) = from_chars xs @ from_chars ys"
  by (simp add: from_chars_def)

lemma chars_append_from: "list_all code_point cs \<Longrightarrow> chars (from_chars cs @ s) = cs @ chars s"
  by (induction cs) (simp_all add: from_chars_def chars_utf8_encode)

text \<open>The first character of a valid string.\<close>

lemma valid_utf8_two:
  assumes "valid_utf8 (a # s)" "128 \<le> byte a" "byte a \<le> 223"
  obtains b r where "s = b # r" "194 \<le> byte a" "is_cont (byte b)" "valid_utf8 r"
proof (cases s)
  case Nil
  then show ?thesis using assms by (simp add: valid_utf8_def split: if_splits)
next
  case (Cons b r)
  then show ?thesis using assms that by (simp add: valid_utf8_def split: if_splits)
qed

lemma valid_utf8_three:
  assumes "valid_utf8 (a # s)" "223 < byte a" "byte a \<le> 239"
  obtains b c r where "s = b # c # r" "is_cont (byte b)" "is_cont (byte c)"
    "byte a = 224 \<longrightarrow> 160 \<le> byte b" "valid_utf8 r"
proof -
  have *: "case map byte s of c # d # r \<Rightarrow>
             (if byte a = 224 then 160 \<le> c \<and> c \<le> 191 else if byte a = 237 then 128 \<le> c \<and> c \<le> 159 else is_cont c)
             \<and> is_cont d \<and> utf8_bytes_ok r | _ \<Rightarrow> False"
    using assms by (simp add: valid_utf8_def split: if_splits)
  then obtain b c r where s: "s = b # c # r" by (cases s; cases "tl s") auto
  then have "is_cont (byte b) \<and> (byte a = 224 \<longrightarrow> 160 \<le> byte b)" "is_cont (byte c)" "valid_utf8 r"
    using * by (simp_all add: is_cont_def valid_utf8_def split: if_splits)
  then show ?thesis using that s by blast
qed

lemma valid_utf8_four:
  assumes "valid_utf8 (a # s)" "239 < byte a"
  obtains b c d r where "s = b # c # d # r" "byte a \<le> 244" "is_cont (byte b)" "is_cont (byte c)"
    "is_cont (byte d)" "byte a = 240 \<longrightarrow> 144 \<le> byte b" "byte a = 244 \<longrightarrow> byte b \<le> 143" "valid_utf8 r"
proof -
  have *: "case map byte s of c # d # e # r \<Rightarrow>
             (if byte a = 240 then 144 \<le> c \<and> c \<le> 191 else if byte a = 244 then 128 \<le> c \<and> c \<le> 143 else is_cont c)
             \<and> is_cont d \<and> is_cont e \<and> utf8_bytes_ok r | _ \<Rightarrow> False"
    and a: "byte a \<le> 244"
    using assms by (simp_all add: valid_utf8_def split: if_splits)
  then obtain b c d r where s: "s = b # c # d # r" by (cases s; cases "tl s"; cases "tl (tl s)") auto
  then have "is_cont (byte b) \<and> (byte a = 240 \<longrightarrow> 144 \<le> byte b) \<and> (byte a = 244 \<longrightarrow> byte b \<le> 143)"
      "is_cont (byte c)" "is_cont (byte d)" "valid_utf8 r"
    using * by (simp_all add: is_cont_def valid_utf8_def split: if_splits)
  then show ?thesis using that s a by blast
qed

lemma is_contE:
  assumes "is_cont (byte c)"
  obtains y where "byte c = 128 + y" "y < 64" "c = char_of (128 + y)"
proof -
  have "byte c = 128 + (byte c - 128)" "byte c - 128 < 64" using assms by (auto simp: is_cont_def)
  moreover have "c = char_of (byte c)" by (simp add: byte_def)
  ultimately show ?thesis using that [of "byte c - 128"] by simp
qed

lemma digit_split: "n < 64 \<Longrightarrow> (m * 64 + n) div 64 = (m :: nat)" "n < 64 \<Longrightarrow> (m * 64 + n) mod 64 = (n :: nat)"
  by simp_all

lemma encode_two:
  assumes "2 \<le> x" "x < 32" "y < 64"
  shows "utf8_encode (x * 64 + y) = [char_of (192 + x), char_of (128 + y)]"
  using assms by (simp add: utf8_encode_def)

lemma encode_three:
  assumes "x < 16" "y < 64" "z < 64" "x = 0 \<Longrightarrow> 32 \<le> y"
  shows "utf8_encode ((x * 64 + y) * 64 + z) = [char_of (224 + x), char_of (128 + y), char_of (128 + z)]"
proof -
  let ?c = "(x * 64 + y) * 64 + z"
  have "?c div 64 = x * 64 + y" "?c mod 64 = z" using assms by (simp_all only: digit_split)
  moreover have "?c div 4096 = ?c div 64 div 64" by (simp only: div_mult2_eq [symmetric]) simp
  moreover have "2048 \<le> ?c" using assms by (cases x) auto
  moreover have "?c < 65536" using assms by simp
  ultimately show ?thesis using assms by (simp add: utf8_encode_def)
qed

lemma encode_four:
  assumes "x < 5" "y < 64" "z < 64" "v < 64" "x = 0 \<Longrightarrow> 16 \<le> y"
  shows "utf8_encode (((x * 64 + y) * 64 + z) * 64 + v)
           = [char_of (240 + x), char_of (128 + y), char_of (128 + z), char_of (128 + v)]"
proof -
  let ?c = "((x * 64 + y) * 64 + z) * 64 + v"
  have "?c div 64 = (x * 64 + y) * 64 + z" "?c mod 64 = v" using assms by (simp_all only: digit_split)
  moreover have "((x * 64 + y) * 64 + z) div 64 = x * 64 + y" "((x * 64 + y) * 64 + z) mod 64 = z"
    using assms by (simp_all only: digit_split)
  moreover have "?c div 4096 = ?c div 64 div 64" "?c div 262144 = ?c div 64 div 64 div 64"
    by (simp_all only: div_mult2_eq [symmetric]) simp_all
  moreover have "65536 \<le> ?c" using assms by (cases x) auto
  ultimately show ?thesis using assms by (simp add: utf8_encode_def)
qed

lemma valid_utf8_Cons:
  assumes "valid_utf8 (a # s)"
  obtains c r where "code_point c" "valid_utf8 r" "a # s = utf8_encode c @ r"
proof -
  have a: "a = char_of (byte a)" by (simp add: byte_def)
  consider "byte a < 128" | "128 \<le> byte a" "byte a \<le> 223" | "223 < byte a" "byte a \<le> 239" | "239 < byte a"
    by linarith
  then show ?thesis
  proof cases
    case 1
    then show ?thesis using assms that [of "byte a" s]
      by (simp add: valid_utf8_def utf8_encode_def code_point_def byte_def)
  next
    case 2
    obtain b r where s: "s = b # r" "194 \<le> byte a" "is_cont (byte b)" "valid_utf8 r"
      using valid_utf8_two [OF assms 2] .
    obtain y where y: "byte b = 128 + y" "y < 64" "b = char_of (128 + y)" using s(3) by (rule is_contE)
    define x where "x = byte a - 192"
    have x: "2 \<le> x" "x < 32" "byte a = 192 + x" using 2 s(2) by (auto simp: x_def)
    show ?thesis
      using that [of "x * 64 + y" r] encode_two [OF x(1,2) y(2)] x y s a by (simp add: code_point_def)
  next
    case 3
    obtain b c r where s: "s = b # c # r" "is_cont (byte b)" "is_cont (byte c)"
        "byte a = 224 \<longrightarrow> 160 \<le> byte b" "valid_utf8 r"
      using valid_utf8_three [OF assms 3] .
    obtain y where y: "byte b = 128 + y" "y < 64" "b = char_of (128 + y)" using s(2) by (rule is_contE)
    obtain z where z: "byte c = 128 + z" "z < 64" "c = char_of (128 + z)" using s(3) by (rule is_contE)
    define x where "x = byte a - 224"
    have x: "x < 16" "byte a = 224 + x" using 3 by (auto simp: x_def)
    have "x = 0 \<Longrightarrow> 32 \<le> y" using s(4) x y by simp
    from encode_three [OF x(1) y(2) z(2) this] show ?thesis
      using that [of "(x * 64 + y) * 64 + z" r] x y z s a by (simp add: code_point_def)
  next
    case 4
    obtain b c d r where s: "s = b # c # d # r" "byte a \<le> 244" "is_cont (byte b)" "is_cont (byte c)"
        "is_cont (byte d)" "byte a = 240 \<longrightarrow> 144 \<le> byte b" "byte a = 244 \<longrightarrow> byte b \<le> 143" "valid_utf8 r"
      using valid_utf8_four [OF assms 4] .
    obtain y where y: "byte b = 128 + y" "y < 64" "b = char_of (128 + y)" using s(3) by (rule is_contE)
    obtain z where z: "byte c = 128 + z" "z < 64" "c = char_of (128 + z)" using s(4) by (rule is_contE)
    obtain v where v: "byte d = 128 + v" "v < 64" "d = char_of (128 + v)" using s(5) by (rule is_contE)
    define x where "x = byte a - 240"
    have x: "x < 5" "byte a = 240 + x" using 4 s(2) by (auto simp: x_def)
    have small: "x = 0 \<Longrightarrow> 16 \<le> y" and big: "x = 4 \<Longrightarrow> y < 16" using s(6,7) x y by simp_all
    have "((x * 64 + y) * 64 + z) * 64 + v < 0x110000"
      using x(1) y(2) z(2) v(2) big by (cases "x = 4") auto
    then show ?thesis
      using that [of "((x * 64 + y) * 64 + z) * 64 + v" r] encode_four [OF x(1) y(2) z(2) v(2) small] x y z v s a
      by (simp add: code_point_def)
  qed
qed

lemma utf8_encode_not_Nil: "utf8_encode c \<noteq> []"
  by (simp add: utf8_encode_def)

lemma valid_utf8_chars:
  assumes "valid_utf8 s"
  shows "list_all code_point (chars s) \<and> from_chars (chars s) = s"
  using assms
proof (induction "length s" arbitrary: s rule: less_induct)
  case less
  show ?case
  proof (cases s)
    case Nil
    then show ?thesis by (simp add: from_chars_def)
  next
    case (Cons a t)
    then obtain c r where r: "code_point c" "valid_utf8 r" "s = utf8_encode c @ r"
      using less.prems valid_utf8_Cons [of a t] by metis
    then have "length r < length s" using utf8_encode_not_Nil [of c] by simp
    then show ?thesis
      using less.hyps [of r] r chars_utf8_encode [of c r] by (simp add: from_chars_def)
  qed
qed

section \<open>Summaries\<close>

lemma replaced_code_points:
  "list_all code_point cs \<Longrightarrow> list_all code_point (map (\<lambda>c. if breaks_line c then 0x20 else c) cs)"
  by (induction cs) (auto simp: code_point_def)

lemma replaced_unbroken: "list_all (\<lambda>c. \<not> breaks_line c) (map (\<lambda>c. if breaks_line c then 0x20 else c) cs)"
  by (induction cs) (auto simp: breaks_line_def is_control_def)

lemma list_all_take: "list_all P xs \<Longrightarrow> list_all P (take n xs)"
  by (auto simp: list_all_iff dest: in_set_takeD)

lemma chars_one_line_summary:
  assumes "valid_utf8 txt"
  shows "chars (one_line_summary txt) =
           (let flat = map (\<lambda>c. if breaks_line c then 0x20 else c) (chars txt)
            in if length flat \<le> SUMMARY_LIMIT then flat else take (SUMMARY_LIMIT - 1) flat @ [0x2026])"
proof -
  let ?flat = "map (\<lambda>c. if breaks_line c then 0x20 else c) (chars txt)"
  have flat: "list_all code_point ?flat"
    using valid_utf8_chars [OF assms] replaced_code_points by blast
  then have "list_all code_point (take (SUMMARY_LIMIT - 1) ?flat @ [0x2026])"
    using list_all_take [OF flat] by (simp add: code_point_def)
  with flat show ?thesis
    by (simp add: one_line_summary_def Let_def chars_from_chars del: map_map)
qed

text \<open>C36. The one-line summary of a body has at most sixty characters, none of which is a control
  character or a line separator; a body that is short and free of those characters is shown as it is.\<close>

theorem one_line_summary_safe:
  assumes "valid_utf8 txt"
  shows "length (chars (one_line_summary txt)) \<le> SUMMARY_LIMIT
    \<and> list_all (\<lambda>c. \<not> breaks_line c) (chars (one_line_summary txt))
    \<and> (length (chars txt) \<le> SUMMARY_LIMIT \<and> list_all (\<lambda>c. \<not> breaks_line c) (chars txt)
         \<longrightarrow> one_line_summary txt = txt)"
proof -
  let ?flat = "map (\<lambda>c. if breaks_line c then 0x20 else c) (chars txt)"
  have "length (chars (one_line_summary txt)) \<le> SUMMARY_LIMIT"
    by (simp add: chars_one_line_summary [OF assms] Let_def limits)
  moreover have "list_all (\<lambda>c. \<not> breaks_line c) (chars (one_line_summary txt))"
    using replaced_unbroken [of "chars txt"] list_all_take [OF replaced_unbroken]
    by (simp add: chars_one_line_summary [OF assms] Let_def breaks_line_def is_control_def)
  moreover have "one_line_summary txt = txt"
    if "length (chars txt) \<le> SUMMARY_LIMIT" "list_all (\<lambda>c. \<not> breaks_line c) (chars txt)"
  proof -
    have "?flat = chars txt" using that(2) by (intro map_idI) (auto simp: list_all_iff)
    then show ?thesis using that(1) valid_utf8_chars [OF assms] by (simp add: one_line_summary_def)
  qed
  ultimately show ?thesis by blast
qed

theorem one_line_summary_safe_witness:
  "valid_utf8 (''a'' @ [newline] @ ''b'')
   \<and> list_all (\<lambda>c. \<not> breaks_line c) (chars (one_line_summary (''a'' @ [newline] @ ''b'')))
   \<and> one_line_summary ''ab'' = ''ab''"
proof -
  have a: "valid_utf8 (''a'' @ [newline] @ ''b'')" and b: "valid_utf8 ''ab''" by code_simp+
  have c: "length (chars ''ab'') \<le> SUMMARY_LIMIT \<and> list_all (\<lambda>c. \<not> breaks_line c) (chars ''ab'')" by code_simp
  show ?thesis using a one_line_summary_safe [OF a] one_line_summary_safe [OF b] c by blast
qed

section \<open>Escaping\<close>

text \<open>Escapes are printable ASCII.\<close>

definition printable :: "char \<Rightarrow> bool" where
  "printable c \<longleftrightarrow> 0x20 \<le> byte c \<and> byte c < 0x7F"

lemma hex_char_printable: "d < 16 \<Longrightarrow> printable (hex_char d)"
  by (auto simp: hex_char_def printable_def)

lemma hex_digits_printable: "list_all printable (hex_digits n)"
  by (induction n rule: hex_digits.induct) (subst hex_digits.simps, auto simp: hex_char_printable)

lemma escape_default_printable: "list_all printable (escape_default c)"
  using hex_digits_printable [of c]
  by (auto simp: escape_default_def printable_def byte_def)

lemma printable_from_chars:
  "list_all printable s \<Longrightarrow> from_chars (map byte s) = s \<and> list_all code_point (map byte s)
     \<and> list_all (\<lambda>c. \<not> breaks_line c) (map byte s)"
  by (induction s)
    (auto simp: printable_def from_chars_def utf8_encode_def code_point_def breaks_line_def is_control_def byte_def)

definition escaped :: "nat \<Rightarrow> nat list" where
  "escaped c = (if breaks_line c then map byte (escape_default c) else [c])"

lemma terminal_safe_escaped: "terminal_safe v = from_chars (concat (map escaped (chars v)))"
proof -
  have "foldl (\<lambda>safe c. if breaks_line c then safe @ escape_default c else safe @ utf8_encode c) acc cs
          = acc @ from_chars (concat (map escaped cs))" for acc cs
    using printable_from_chars [OF escape_default_printable]
    by (induction cs arbitrary: acc) (simp_all add: from_chars_def escaped_def)
  then show ?thesis by (simp add: terminal_safe_def)
qed

lemma chars_terminal_safe:
  assumes "valid_utf8 v"
  shows "chars (terminal_safe v) = concat (map escaped (chars v))"
proof -
  have "list_all code_point (escaped c)" if "code_point c" for c
    using that printable_from_chars [OF escape_default_printable] by (simp add: escaped_def)
  then have "list_all code_point (concat (map escaped (chars v)))"
    using valid_utf8_chars [OF assms] by (auto simp: list_all_iff)
  then show ?thesis by (simp add: terminal_safe_escaped chars_from_chars)
qed

text \<open>C37. A field shown after \<open>terminal_safe\<close> carries no control character and no line separator,
  whatever the daemon sent, and a field without such characters is shown unchanged.\<close>

theorem terminal_safe_no_control:
  assumes "valid_utf8 v"
  shows "list_all (\<lambda>c. \<not> breaks_line c) (chars (terminal_safe v))
    \<and> (list_all (\<lambda>c. \<not> breaks_line c) (chars v) \<longrightarrow> terminal_safe v = v)"
proof -
  have "list_all (\<lambda>c. \<not> breaks_line c) (escaped c)" for c
    using printable_from_chars [OF escape_default_printable] by (simp add: escaped_def)
  then have "list_all (\<lambda>c. \<not> breaks_line c) (chars (terminal_safe v))"
    by (auto simp: chars_terminal_safe [OF assms] list_all_iff)
  moreover have "terminal_safe v = v" if "list_all (\<lambda>c. \<not> breaks_line c) (chars v)"
  proof -
    have m: "map escaped (chars v) = map (\<lambda>c. [c]) (chars v)"
      using that by (auto simp: escaped_def list_all_iff)
    show ?thesis using valid_utf8_chars [OF assms] by (simp add: terminal_safe_escaped m)
  qed
  ultimately show ?thesis by blast
qed

theorem terminal_safe_no_control_witness:
  "list_all (\<lambda>c. \<not> breaks_line c) (chars (terminal_safe (char_of (0x1B :: nat) # ''[2J'')))
   \<and> terminal_safe ''plain'' = ''plain''"
proof -
  have a: "valid_utf8 (char_of (0x1B :: nat) # ''[2J'')" and b: "valid_utf8 ''plain''" by code_simp+
  have c: "list_all (\<lambda>c. \<not> breaks_line c) (chars ''plain'')" by code_simp
  show ?thesis using terminal_safe_no_control [OF a] terminal_safe_no_control [OF b] c by blast
qed

end
