(* ===== verification/Spec2Isabelle.thy ===== *)
theory Spec2Isabelle
  imports Paging_Props Await_Props Worker_Props Supervisor_Props Config_Props Socket_Props Metrics_Props Output_Props
begin

text \<open>
  \<^bold>\<open>Verification of comenq\<close>

  comenq queues comments for GitHub pull requests and posts them one at a time, with a cooldown in
  between. A client, \<open>comenq\<close>, talks JSON over a Unix socket to a daemon, \<open>comenqd\<close>. The daemon keeps the
  queue as one file per entry in a directory, a journal of the completion under way, markers for
  deleted entries, two activity markers and an append-only history of posting attempts. Its listener
  serves requests on the shared queue, its worker claims the due entry, posts it and settles the result,
  and a supervisor restarts either task when it fails. A client may also wait for its comment: the
  daemon then streams estimates until the comment is posted or gone.

  \<^bold>\<open>How the code is modelled.\<close> Pure functions are functions. Code on the file system is a function of
  type \<open>('e, 'a) eff\<close> (theory \<open>Filesystem\<close>): it takes a \<open>world\<close> and returns a result, with the errors of the
  code on the left, and the next world. A world holds the directories of the store and a script that
  decides for every system call whether it fails and, for a write, after how many bytes; so a statement
  about all worlds is one about every pattern of I/O failures and, since a process can die between any
  two calls, about crashes. A world whose script is used up is called quiet. \<open>Socket\<close> has a file tree of its own, which
  also records the states it has passed through. Loops are recursive functions with a termination proof;
  the three that need not end (the search for a free identifier, the lookup of a waiting client that is
  overtaken by other tasks, and the client's paging through the history) are partial functions to an
  option, so that not returning is \<^term>\<open>None\<close>, and that they do return is proved. No definition
  uses fuel. Machine integers that cannot overflow are naturals with the
  saturating operations of the code written out (\<open>Prelude\<close>: \<open>sat_add\<close>, \<open>sat_add_i64\<close>); the identifier hash
  and the version of the shared state are words of 64 bits and wrap as in the code. Strings are lists of
  bytes, and UTF-8 is a predicate on them (\<open>Rust_Std\<close>).

  Tasks interleave as explicit steps: \<open>Daemon_Props\<close> runs the worker's step relation, requests of clients
  and restarts in any order, and the lookup of a waiting client takes what others do between its two
  locked sections as an argument.

  Code that is not part of the repository is a parameter: the record \<open>ext\<close> of \<open>Store_Types\<close> (the JSON
  codecs of stored values, UUIDs), the record \<open>wire\<close> of \<open>Protocol\<close> (the JSON codecs of messages), the GitHub API, \<open>backon\<close>'s delays, the
  loader of the configuration file, clocks, random flutter and the environment. What is relied on is stated
  as named laws (\<open>Codec_Laws\<close>, \<open>Listener_Props\<close>, \<open>Paging_Props\<close>): values survive encoding, encodings have no raw newline, truncated
  documents do not parse, sizes of arrays are the sizes of their elements with separators. \<open>Reference_Codec\<close> gives a concrete
  codec for all types and proves that it satisfies every law; the witnesses use it.

  \<^bold>\<open>Theories and sources.\<close> Paths are below \<open>src/\<close>; \<open>D\<close> is \<open>crates/comenqd/src\<close>, \<open>C\<close> is \<open>crates/comenq/src\<close>.

  \<^item> \<open>Prelude\<close>, \<open>Rust_Std\<close>, \<open>Filesystem\<close>: results, saturating arithmetic, decimal numbers, trimming, UTF-8, file
    names; the world, its calls and the effect combinators with their rules.
  \<^item> \<open>Protocol\<close>: \<open>src/lib.rs\<close>, \<open>src/protocol.rs\<close>. \<open>Store_Types\<close>: the records and errors of \<open>D/store.rs\<close>, identifiers, paths.
  \<^item> \<open>Bounds\<close>, \<open>Bounds_Props\<close>: \<open>D/store/bounds.rs\<close> and the atomic replacement of \<open>D/store.rs\<close>. Replacing a file is
    atomic, the listing is complete, the limits keep room for every later change of an admitted entry.
  \<^item> \<open>Scheduling\<close>, \<open>Scheduling_Props\<close>: \<open>D/store/scheduling.rs\<close>. Puts go to the tail, claims are exclusive,
    projections are the earliest the cooldown allows.
  \<^item> \<open>History\<close>, \<open>History_Props\<close>, \<open>History_Log\<close>: \<open>D/store/history.rs\<close>, \<open>history/record.rs\<close>, \<open>history/recent.rs\<close>. The log refines a
    list of records: appends are atomic and idempotent, pages cover it, the backward scans agree with forward reading.
  \<^item> \<open>Completion\<close>, \<open>Completion_Props\<close>: \<open>D/store/completion.rs\<close>, \<open>D/store/await_deletions.rs\<close>. A completion interrupted at any call,
    any number of times, is finished exactly once.
  \<^item> \<open>Queue_Store\<close>, \<open>Queue_Store_Props\<close>: the rest of \<open>D/store.rs\<close> and \<open>D/store/await_lookup.rs\<close>. Reordering as list operations, deletion, waiting.
  \<^item> \<open>Queue\<close>, \<open>Queue_Props\<close>, \<open>Shared_Queue_Props\<close>: \<open>D/queue.rs\<close> and \<open>D/queue/\<close>. \<open>shared_queue\<close> is the locked store with the cached
    schedule, the version, the change permit and the gauges. Every operation is sound for the queue's invariant and
    keeps the cache coherent. The locale \<open>queue_contract\<close> is the interface the tasks rely on; its interpretation
    \<open>shared\<close> discharges it for the operations of \<open>Queue\<close>.
  \<^item> \<open>Worker\<close>, \<open>Daemon_Props\<close>, \<open>Worker_Props\<close>: \<open>D/worker.rs\<close>, \<open>D/worker/tokens.rs\<close>. The posting task as a step relation; the
    invariant of all reachable daemon states; what one iteration does with a due entry; the rotation of tokens.
  \<^item> \<open>Listener\<close>, \<open>Listener_Props\<close>: \<open>D/listener/protocol.rs\<close>, \<open>connection.rs\<close>, \<open>await_handler.rs\<close> and the label tables of
    \<open>D/metrics/duration.rs\<close>. Replies lose nothing and fit the wire, connections are accounted, streams are well formed.
  \<^item> \<open>Socket\<close>, \<open>Socket_Props\<close>: \<open>D/listener.rs\<close>. Binding the socket and the accept loop.
  \<^item> \<open>Supervisor\<close>, \<open>Supervisor_Props\<close>: \<open>D/supervisor.rs\<close>. Start-up and restarts in closed form.
  \<^item> \<open>Metrics\<close>, \<open>Metrics_Props\<close>: \<open>D/metrics.rs\<close>, \<open>D/metrics/duration.rs\<close>. Recorders over a registry; bounded cardinality.
  \<^item> \<open>Transport\<close>, \<open>Config\<close>, \<open>Config_Props\<close>: \<open>crates/comenq-transport/src/lib.rs\<close>, \<open>D/config.rs\<close> and \<open>D/config/\<close>. Sockets, and where
    credentials come from.
  \<^item> \<open>Output\<close>, \<open>Output_Props\<close>, \<open>Client\<close>, \<open>Client_Props\<close>: \<open>C/output.rs\<close>, \<open>C/lib.rs\<close>, \<open>C/client.rs\<close>, \<open>C/client/await_stream.rs\<close>. Rendering
    that is safe on a terminal, argument parsing, exchanges, paging and the await stream.
  \<^item> \<open>Paging_Props\<close>, \<open>Await_Props\<close>: the client against the daemon, for \<open>comenq hist\<close> and \<open>comenq await\<close>.

  \<^bold>\<open>Bounds.\<close> Page sizes, line and message limits and time-outs are the constants of the code (collection
  \<open>limits\<close>). A history log is assumed to have no line of exactly the maximal length where both reading directions are
  compared (\<open>same_both_ways\<close>, \<open>no_edge_line\<close>): the forward and the backward reader differ there by one byte.
  The invariant of the daemon and the cache lemmas are about worlds in which no call fails any more; the
  store's own theorems (replacement, append, completion, deletion, socket) hold under all failures.

  \<^bold>\<open>Not modelled.\<close> Log events and spans (\<open>D/logging.rs\<close>, \<open>D/supervisor/observability.rs\<close>, \<open>D/store/history/logging.rs\<close>): no
  decision depends on them. Process entry points and build scripts. The runtime's scheduling below the steps
  given above, signal handling, and the time-outs of socket I/O, which appear as failing reads and writes. The
  parsers of \<open>clap\<close>, \<open>ortho_config\<close> and \<open>serde_json\<close>, the Prometheus exporter and \<open>vendor/filetime\<close>. Tests, test support and packaging.
\<close>

end
